(* ===== verification/Prelude.thy ===== *)
theory Prelude
  imports
    Main
    "HOL-Library.List_Lexorder"
    "HOL-Library.Char_ord"
    "HOL-Library.AList"
begin

text \<open>
  Shared vocabulary of the development: how Python values are represented, and the generic
  lemmas about them.
  \<^item> A \<open>str\<close> is the list of the bytes of its UTF-8 encoding, ordered lexicographically (the
    order of UTF-8 byte strings is the code-point order Python sorts by).
  \<^item> A \<open>dict\<close> is an association list in insertion order: \<open>AList.update\<close> keeps the position
    of an existing key and appends a new one, as Python does; \<open>AList.delete\<close> removes a key.
  \<^item> A function that may raise returns \<open>exn + 'a\<close>; \<open>rbind\<close> sequences two of them.
  \<^item> A \<open>datetime\<close> is naive (a wall-clock value) or aware (wall clock and UTC offset), both in
    microseconds.
\<close>

section \<open>Collections of facts\<close>

named_theorems result_simps
  \<open>how the outcomes of sequenced fallible steps decompose\<close>

named_theorems dict_simps
  \<open>lookup after update, delete and construction of insertion-ordered dictionaries\<close>

section \<open>Types\<close>

type_synonym str = string

type_synonym 'v dict = "(string \<times> 'v) list"

text \<open>The exceptions that cross component boundaries, with the values they carry.\<close>

datatype exn =
    KeyError str
  | ValueError str
  | TypeError
  | TaskLinkAmbiguous str "str list"
  | ThreadAlreadyLinked str str
  | RetentionConflict str str
  | IntegrityError str
  | ConcurrentUpdate str str int
  | BoundSpecUnresolved str
  | CycleError "str list"

section \<open>Sequencing of fallible steps\<close>

definition rbind :: "'e + 'a \<Rightarrow> ('a \<Rightarrow> 'e + 'b) \<Rightarrow> 'e + 'b" where
  "rbind m f = (case m of Inl e \<Rightarrow> Inl e | Inr x \<Rightarrow> f x)"

lemma rbind_Inl [simp]: "rbind (Inl e) f = Inl e"
  and rbind_Inr [simp]: "rbind (Inr x) f = f x"
  by (simp_all add: rbind_def)

lemma rbind_eq_Inr [result_simps]:
  "rbind m f = Inr y \<longleftrightarrow> (\<exists>x. m = Inr x \<and> f x = Inr y)"
  by (cases m) simp_all

lemma rbind_eq_Inl [result_simps]:
  "rbind m f = Inl e \<longleftrightarrow> m = Inl e \<or> (\<exists>x. m = Inr x \<and> f x = Inl e)"
  by (cases m) simp_all

lemma rbind_assoc: "rbind (rbind m f) g = rbind m (\<lambda>x. rbind (f x) g)"
  by (cases m) simp_all

text \<open>A loop whose body may raise: the first exception ends it.\<close>

fun rfold :: "('a \<Rightarrow> 's \<Rightarrow> 'e + 's) \<Rightarrow> 'a list \<Rightarrow> 's \<Rightarrow> 'e + 's" where
  "rfold f [] s = Inr s"
| "rfold f (x # xs) s = rbind (f x s) (rfold f xs)"

lemma rfold_invariant:
  assumes "rfold f xs s = Inr t" and "P s"
    and "\<And>x s t. x \<in> set xs \<Longrightarrow> P s \<Longrightarrow> f x s = Inr t \<Longrightarrow> P t"
  shows "P t"
  using assms
  by (induction xs arbitrary: s) (auto simp: rbind_eq_Inr)

lemma rfold_append: "rfold f (xs @ ys) s = rbind (rfold f xs s) (rfold f ys)"
  by (induction xs arbitrary: s) (simp_all add: rbind_def split: sum.splits)

lemma rfold_cong:
  assumes "\<And>x s. x \<in> set xs \<Longrightarrow> f x s = g x s"
  shows "rfold f xs s = rfold g xs s"
  using assms by (induction xs arbitrary: s) (auto simp: rbind_def split: sum.splits)

text \<open>A comprehension whose element expression may raise.\<close>

fun rmap :: "('a \<Rightarrow> 'e + 'b) \<Rightarrow> 'a list \<Rightarrow> 'e + 'b list" where
  "rmap f [] = Inr []"
| "rmap f (x # xs) = rbind (f x) (\<lambda>y. rbind (rmap f xs) (\<lambda>ys. Inr (y # ys)))"

lemma rmap_Inr_length: "rmap f xs = Inr ys \<Longrightarrow> length ys = length xs"
  by (induction xs arbitrary: ys) (auto simp: rbind_eq_Inr)

lemma rmap_pure: "rmap (\<lambda>x. Inr (f x)) xs = Inr (List.map f xs)"
  by (induction xs) simp_all

section \<open>Insertion-ordered dictionaries\<close>

abbreviation dict_keys :: "'v dict \<Rightarrow> str list" where
  "dict_keys d \<equiv> List.map fst d"

abbreviation dict_values :: "'v dict \<Rightarrow> 'v list" where
  "dict_values d \<equiv> List.map snd d"

definition dict_ok :: "'v dict \<Rightarrow> bool" where
  "dict_ok d \<longleftrightarrow> distinct (dict_keys d)"

text \<open>\<open>d.update(e)\<close>: the entries of \<open>e\<close> in order.\<close>

definition dict_update :: "'v dict \<Rightarrow> 'v dict \<Rightarrow> 'v dict" where
  "dict_update d e = foldl (\<lambda>m kv. AList.update (fst kv) (snd kv) m) d e"

lemma map_of_update [dict_simps]:
  "map_of (AList.update k v d) = (map_of d)(k \<mapsto> v)"
  by (rule AList.update_conv')

lemma map_of_delete [dict_simps]:
  "map_of (AList.delete k d) = (map_of d)(k := None)"
  by (rule AList.delete_conv')

lemma dict_ok_Nil [simp]: "dict_ok []"
  by (simp add: dict_ok_def)

lemma dict_ok_update [simp]: "dict_ok d \<Longrightarrow> dict_ok (AList.update k v d)"
  by (simp add: dict_ok_def AList.distinct_update)

lemma dict_ok_delete [simp]: "dict_ok d \<Longrightarrow> dict_ok (AList.delete k d)"
  by (simp add: dict_ok_def AList.distinct_delete)

lemma dict_keys_update:
  "set (dict_keys (AList.update k v d)) = insert k (set (dict_keys d))"
  by (induction d) auto

lemma dict_ok_map_of: "dict_ok d \<Longrightarrow> (k, v) \<in> set d \<longleftrightarrow> map_of d k = Some v"
  by (simp add: dict_ok_def)

lemma map_of_dict_update [dict_simps]:
  "dict_ok e \<Longrightarrow> map_of (dict_update d e) = map_of d ++ map_of e"
proof (induction e arbitrary: d)
  case Nil
  then show ?case by (simp add: dict_update_def)
next
  case (Cons kv e)
  obtain k v where kv: "kv = (k, v)" by (cases kv)
  from Cons.prems have ok: "dict_ok e" and fresh: "k \<notin> set (dict_keys e)"
    by (auto simp: dict_ok_def kv)
  have "dict_update d (kv # e) = dict_update (AList.update k v d) e"
    by (simp add: dict_update_def kv)
  then have "map_of (dict_update d (kv # e)) = (map_of d)(k \<mapsto> v) ++ map_of e"
    using Cons.IH [OF ok, of "AList.update k v d"] by (simp only: map_of_update)
  also have "\<dots> = map_of d ++ map_of (kv # e)"
  proof -
    from fresh have "map_of e k = None" by (simp add: map_of_eq_None_iff)
    then show ?thesis by (auto simp: kv map_add_def fun_eq_iff split: option.splits)
  qed
  finally show ?case .
qed

lemma dict_ok_dict_update [simp]: "dict_ok d \<Longrightarrow> dict_ok (dict_update d e)"
proof (induction e arbitrary: d)
  case Nil
  then show ?case by (simp add: dict_update_def)
next
  case (Cons kv e)
  then show ?case by (simp add: dict_update_def)
qed

lemma map_of_map_pair:
  "map_of (List.map (\<lambda>kd. (fst kd, f (fst kd) (snd kd))) xs) k = map_option (f k) (map_of xs k)"
  by (induction xs) auto

lemma update_map_pair:
  "distinct (dict_keys xs) \<Longrightarrow> map_of xs k = Some d \<Longrightarrow>
   AList.update k v (List.map (\<lambda>kd. (fst kd, f (fst kd) (snd kd))) xs) =
   List.map (\<lambda>kd. (fst kd, if fst kd = k then v else f (fst kd) (snd kd))) xs"
proof (induction xs)
  case (Cons x xs)
  show ?case
  proof (cases "fst x = k")
    case True
    with Cons.prems(1) have "k \<notin> fst ` set xs" by simp
    then have "\<forall>kd \<in> set xs. fst kd \<noteq> k" by blast
    with True show ?thesis by simp
  next
    case False
    with Cons show ?thesis by (cases x) simp
  qed
qed simp

lemma update_fresh: "k \<notin> set (dict_keys d) \<Longrightarrow> AList.update k v d = d @ [(k, v)]"
  by (induction d) auto

text \<open>A dict comprehension, or a loop of \<open>out[k] = v\<close>, over pairs with distinct keys.\<close>

lemma dict_update_fresh:
  "distinct (dict_keys (d @ e)) \<Longrightarrow> dict_update d e = d @ e"
proof (induction e arbitrary: d)
  case Nil
  then show ?case by (simp add: dict_update_def)
next
  case (Cons kv e)
  have "fst kv \<notin> set (dict_keys d)" using Cons.prems by auto
  then have up: "AList.update (fst kv) (snd kv) d = d @ [kv]" by (induction d) auto
  have "dict_update d (kv # e) = dict_update (d @ [kv]) e" by (simp add: dict_update_def up)
  also have "\<dots> = (d @ [kv]) @ e" using Cons.prems by (intro Cons.IH) simp
  finally show ?case by simp
qed

definition dict_of :: "'v dict \<Rightarrow> 'v dict" where
  "dict_of e = dict_update [] e"

lemma dict_of_id [simp]: "distinct (dict_keys e) \<Longrightarrow> dict_of e = e"
  by (simp add: dict_of_def dict_update_fresh)

lemma dict_ok_dict_of [simp]: "dict_ok (dict_of e)"
  by (simp add: dict_of_def)

section \<open>Strings\<close>

fun join :: "str \<Rightarrow> str list \<Rightarrow> str" where
  "join sep [] = []"
| "join sep [x] = x"
| "join sep (x # y # xs) = x @ sep @ join sep (y # xs)"

definition truthy :: "str option \<Rightarrow> bool" where
  "truthy s = (case s of None \<Rightarrow> False | Some v \<Rightarrow> v \<noteq> [])"

lemma truthy_simps [simp]:
  "\<not> truthy None" "truthy (Some v) \<longleftrightarrow> v \<noteq> []"
  by (simp_all add: truthy_def)

text \<open>\<open>s.strip()\<close>, for the ASCII white space characters.\<close>

definition py_space :: "char \<Rightarrow> bool" where
  "py_space c \<longleftrightarrow>
     (let n = of_char c :: nat in n = 32 \<or> (9 \<le> n \<and> n \<le> 13) \<or> (28 \<le> n \<and> n \<le> 31))"

definition strip :: "str \<Rightarrow> str" where
  "strip s = rev (dropWhile py_space (rev (dropWhile py_space s)))"

text \<open>\<open>s.split(c)\<close> and \<open>s.startswith(p)\<close>.\<close>

fun split_acc :: "char \<Rightarrow> str \<Rightarrow> str \<Rightarrow> str list" where
  "split_acc c acc [] = [rev acc]"
| "split_acc c acc (x # xs) =
     (if x = c then rev acc # split_acc c [] xs else split_acc c (x # acc) xs)"

definition split_char :: "char \<Rightarrow> str \<Rightarrow> str list" where
  "split_char c s = split_acc c [] s"

definition startswith :: "str \<Rightarrow> str \<Rightarrow> bool" where
  "startswith s p \<longleftrightarrow> take (length p) s = p"

lemma startswith_append [simp]: "startswith (p @ s) p"
  by (simp add: startswith_def)

lemma startswith_iff: "startswith s p \<longleftrightarrow> (\<exists>t. s = p @ t)"
  by (metis append_eq_conv_conj append_take_drop_id startswith_def)

text \<open>\<open>repr(s)\<close> of a string that needs no escaping, and of a list of them.\<close>

definition quoted :: "str \<Rightarrow> str" where
  "quoted s = [CHR 0x27] @ s @ [CHR 0x27]"

definition quoted_list :: "str list \<Rightarrow> str" where
  "quoted_list xs = ''['' @ join '', '' (List.map quoted xs) @ '']''"

section \<open>Paths\<close>

text \<open>
  \<open>pathlib.PurePosixPath\<close>: empty and \<open>.\<close> components vanish when a path is read, and
  joining with an absolute path discards the left operand.
\<close>

record path =
  absolute :: bool
  parts :: "str list"

definition parse_path :: "str \<Rightarrow> path" where
  "parse_path s = \<lparr>absolute = startswith s ''/'',
     parts = filter (\<lambda>p. p \<noteq> [] \<and> p \<noteq> ''.'') (split_char (CHR ''/'') s)\<rparr>"

definition path_join :: "path \<Rightarrow> path \<Rightarrow> path" where
  "path_join a b = (if absolute b then b else a\<lparr>parts := parts a @ parts b\<rparr>)"

text \<open>\<open>p.relative_to(base)\<close> succeeds exactly when \<open>base\<close> is an ancestor of \<open>p\<close> or \<open>p\<close>.\<close>

definition path_within :: "path \<Rightarrow> path \<Rightarrow> bool" where
  "path_within p base \<longleftrightarrow>
     absolute p = absolute base \<and> take (length (parts base)) (parts p) = parts base"

text \<open>The em dash of the program's messages, in UTF-8.\<close>

definition em_dash :: str where
  "em_dash = [CHR 0xE2, CHR 0x80, CHR 0x94]"

section \<open>Order-preserving removal of repeats\<close>

text \<open>\<open>list(dict.fromkeys(xs))\<close>: the first occurrence of each value, in order.\<close>

fun fromkeys_from :: "'a list \<Rightarrow> 'a list \<Rightarrow> 'a list" where
  "fromkeys_from acc [] = acc"
| "fromkeys_from acc (x # xs) =
     (if x \<in> set acc then fromkeys_from acc xs else fromkeys_from (acc @ [x]) xs)"

definition fromkeys :: "'a list \<Rightarrow> 'a list" where
  "fromkeys xs = fromkeys_from [] xs"

lemma set_fromkeys_from: "set (fromkeys_from acc xs) = set acc \<union> set xs"
  by (induction acc xs rule: fromkeys_from.induct) auto

lemma distinct_fromkeys_from: "distinct acc \<Longrightarrow> distinct (fromkeys_from acc xs)"
  by (induction acc xs rule: fromkeys_from.induct) auto

lemma fromkeys_from_prefix: "\<exists>ys. fromkeys_from acc xs = acc @ ys"
proof (induction acc xs rule: fromkeys_from.induct)
  case (2 acc x xs)
  then show ?case by (cases "x \<in> set acc") auto
qed simp

lemma set_fromkeys [simp]: "set (fromkeys xs) = set xs"
  by (simp add: fromkeys_def set_fromkeys_from)

lemma distinct_fromkeys [simp]: "distinct (fromkeys xs)"
  by (simp add: fromkeys_def distinct_fromkeys_from)

lemma fromkeys_from_append:
  "fromkeys_from acc (xs @ ys) = fromkeys_from (fromkeys_from acc xs) ys"
  by (induction acc xs rule: fromkeys_from.induct) auto

lemma fromkeys_from_subset: "set xs \<subseteq> set acc \<Longrightarrow> fromkeys_from acc xs = acc"
  by (induction xs) auto

lemma fromkeys_from_distinct:
  "distinct xs \<Longrightarrow> set xs \<inter> set acc = {} \<Longrightarrow> fromkeys_from acc xs = acc @ xs"
  by (induction xs arbitrary: acc) auto

lemma fromkeys_distinct_id: "distinct xs \<Longrightarrow> fromkeys xs = xs"
  by (simp add: fromkeys_def fromkeys_from_distinct)

section \<open>Date and time\<close>

datatype dt = Naive int | Aware int int

text \<open>The instant of an aware value; a naive one is read as UTC (\<open>_utc\<close> of the sources).\<close>

fun instant :: "dt \<Rightarrow> int" where
  "instant (Naive w) = w"
| "instant (Aware w off) = w - off"

fun utc :: "dt \<Rightarrow> dt" where
  "utc (Naive w) = Aware w 0"
| "utc (Aware w off) = Aware w off"

lemma instant_utc [simp]: "instant (utc t) = instant t"
  by (cases t) simp_all

fun is_naive :: "dt \<Rightarrow> bool" where
  "is_naive (Naive w) = True"
| "is_naive (Aware w off) = False"

text \<open>Comparing a naive with an aware value raises; otherwise instants decide.\<close>

definition dt_gt :: "dt \<Rightarrow> dt \<Rightarrow> exn + bool" where
  "dt_gt a b = (if is_naive a \<noteq> is_naive b then Inl TypeError else Inr (instant a > instant b))"

section \<open>Sorted lists of strings\<close>

lemma sorted_remdups_unique:
  assumes "set xs = set ys"
  shows "sort (remdups xs) = sort (remdups (ys :: 'a :: linorder list))"
  using assms by (simp add: sorted_list_of_set_sort_remdups [symmetric])

lemma length_filter_less:
  assumes "x \<in> set xs" and "\<not> P x" and "Q x" and "\<And>y. y \<in> set xs \<Longrightarrow> P y \<Longrightarrow> Q y"
  shows "length (filter P xs) < length (filter Q xs)"
  using assms
proof (induction xs)
  case (Cons y ys)
  have le: "length (filter P ys) \<le> length (filter Q ys)" if "\<And>y. y \<in> set ys \<Longrightarrow> P y \<Longrightarrow> Q y"
    using that by (induction ys) auto
  from Cons show ?case using le by fastforce
qed simp

end
