(* ===== verification/Kahn.thy ===== *)
theory Kahn
  imports Prelude
begin

text \<open>
  Kahn's algorithm as the sources use it twice: \<open>DependencyGraph.topo_sort\<close>
  (core/graph.py) re-sorts its queue after every pop, \<open>WorkspaceConfig.validate_no_cycles\<close>
  (core/config.py) keeps it first-in first-out. One loop carries both, with a flag for the
  re-sorting; \<open>tiers_loop\<close> is the batched variant of \<open>DependencyGraph.topo_tiers\<close>.
  The lemmas state what the loops compute: an order in which every node follows its
  predecessors, of all nodes exactly when the graph has a rank function.
\<close>

section \<open>The loop\<close>

text \<open>
  \<open>relax\<close> is the inner loop over a popped node's successors: \<open>T\<close> is the target set,
  \<open>deg\<close> the in-degree table, \<open>q\<close> the queue.
\<close>

fun relax :: "'a set \<Rightarrow> 'a list \<Rightarrow> ('a \<Rightarrow> int) \<Rightarrow> 'a list \<Rightarrow> ('a \<Rightarrow> int) \<times> 'a list" where
  "relax T [] deg q = (deg, q)"
| "relax T (n # ns) deg q =
     (if n \<in> T
      then relax T ns (deg(n := deg n - 1)) (if deg n - 1 = 0 then q @ [n] else q)
      else relax T ns deg q)"

lemma relax_hit:
  "n \<in> T \<Longrightarrow> deg n = 1 \<Longrightarrow>
   relax T (n # ns) deg q = relax T ns (deg(n := deg n - 1)) (q @ [n])"
  and relax_miss:
  "n \<in> T \<Longrightarrow> deg n \<noteq> 1 \<Longrightarrow>
   relax T (n # ns) deg q = relax T ns (deg(n := deg n - 1)) q"
  and relax_skip: "n \<notin> T \<Longrightarrow> relax T (n # ns) deg q = relax T ns deg q"
  by simp_all

definition requeue :: "bool \<Rightarrow> 'a :: linorder list \<Rightarrow> 'a list" where
  "requeue resort q = (if resort then sort q else q)"

lemma requeue_props [simp]:
  "set (requeue b q) = set q" "length (requeue b q) = length q"
  "distinct (requeue b q) = distinct q"
  by (simp_all add: requeue_def)

definition positives :: "'a list \<Rightarrow> ('a \<Rightarrow> int) \<Rightarrow> nat" where
  "positives ts deg = length (filter (\<lambda>n. 0 < deg n) ts)"

lemma positives_decr:
  assumes "distinct ts" and "n \<in> set ts"
  shows "positives ts (deg(n := deg n - 1)) + (if deg n = 1 then 1 else 0) = positives ts deg"
  using assms
proof (induction ts)
  case (Cons t ts)
  show ?case
  proof (cases "t = n")
    case True
    with Cons.prems have "n \<notin> set ts" by simp
    then have "filter (\<lambda>k. 0 < (deg(n := deg n - 1)) k) ts = filter (\<lambda>k. 0 < deg k) ts"
      by (intro filter_cong) auto
    with True show ?thesis by (auto simp: positives_def)
  next
    case False
    with Cons show ?thesis by (auto simp: positives_def)
  qed
qed simp

lemma relax_measure:
  assumes "distinct ts"
  shows "length (snd (relax (set ts) ns deg q)) + positives ts (fst (relax (set ts) ns deg q))
    = length q + positives ts deg"
proof (induction ns arbitrary: deg q)
  case (Cons n ns)
  show ?case
  proof (cases "n \<in> set ts")
    case True
    note p = positives_decr [OF assms True, of deg]
    show ?thesis
    proof (cases "deg n = 1")
      case t: True
      with p show ?thesis
        by (simp only: relax_hit [of n "set ts" deg, OF True t] Cons.IH) (simp add: fun_upd_def)
    next
      case f: False
      with p show ?thesis
        by (simp only: relax_miss [of n "set ts" deg, OF True f] Cons.IH) (simp add: fun_upd_def)
    qed
  next
    case False
    then show ?thesis by (simp add: Cons.IH)
  qed
qed simp

function kahn ::
  "bool \<Rightarrow> ('a :: linorder \<Rightarrow> 'a list) \<Rightarrow> 'a list \<Rightarrow> ('a \<Rightarrow> int) \<Rightarrow> 'a list \<Rightarrow> 'a list \<Rightarrow> 'a list" where
  "kahn resort succs ts deg [] res = res"
| "kahn resort succs ts deg (n # q) res =
     (let (deg', q') = relax (set (remdups ts)) (succs n) deg q
      in kahn resort succs ts deg' (requeue resort q') (res @ [n]))"
  by pat_completeness auto
termination
proof (relation "measure (\<lambda>(r, s, ts, deg, q, res). length q + positives (remdups ts) deg)")
  fix resort :: bool and succs :: "'a \<Rightarrow> 'a list" and ts deg n q res p deg' q'
  assume p: "p = relax (set (remdups ts)) (succs n) deg q" and eq: "(deg', q') = p"
  have "length (snd p) + positives (remdups ts) (fst p) = length q + positives (remdups ts) deg"
    unfolding p by (rule relax_measure) simp
  with eq [symmetric] show "((resort, succs, ts, deg', requeue resort q', res @ [n]),
      (resort, succs, ts, deg, n # q, res))
      \<in> measure (\<lambda>(r, s, ts, deg, q, res). length q + positives (remdups ts) deg)"
    by simp
qed simp

section \<open>What one step does\<close>

lemma relax_deg:
  "fst (relax T ns deg q) m = (if m \<in> T then deg m - int (count_list ns m) else deg m)"
  by (induction ns arbitrary: deg q) (auto simp: fun_upd_def)

lemma relax_queue:
  "\<exists>news. snd (relax T ns deg q) = q @ news \<and> distinct news
     \<and> set news = {m \<in> T. 0 < deg m \<and> deg m \<le> int (count_list ns m)}"
proof (induction ns arbitrary: deg q)
  case (Cons n ns)
  show ?case
  proof (cases "n \<in> T")
    case False
    with Cons.IH [of deg q] show ?thesis by auto
  next
    case True
    let ?d = "deg(n := deg n - 1)"
    show ?thesis
    proof (cases "deg n = 1")
      case one: True
      from Cons.IH [of ?d "q @ [n]"] obtain news where
        news: "snd (relax T ns ?d (q @ [n])) = (q @ [n]) @ news" "distinct news"
          "set news = {m \<in> T. 0 < ?d m \<and> ?d m \<le> int (count_list ns m)}"
        by (elim exE conjE)
      have "snd (relax T (n # ns) deg q) = q @ (n # news)"
        by (simp only: relax_hit [of n T deg, OF True one] news(1)) simp
      moreover have "n \<notin> set news" using news(3) one by simp
      moreover have "set (n # news) = {m \<in> T. 0 < deg m \<and> deg m \<le> int (count_list (n # ns) m)}"
      proof (rule set_eqI)
        fix m
        show "m \<in> set (n # news) \<longleftrightarrow>
            m \<in> {m \<in> T. 0 < deg m \<and> deg m \<le> int (count_list (n # ns) m)}"
          by (cases "m = n") (simp_all add: news(3) True one)
      qed
      ultimately show ?thesis using news(2) by (intro exI [of _ "n # news"]) simp
    next
      case other: False
      from Cons.IH [of ?d q] obtain news where
        news: "snd (relax T ns ?d q) = q @ news" "distinct news"
          "set news = {m \<in> T. 0 < ?d m \<and> ?d m \<le> int (count_list ns m)}"
        by blast
      have "snd (relax T (n # ns) deg q) = q @ news"
        by (simp only: relax_miss [of n T deg, OF True other] news(1))
      moreover have "set news = {m \<in> T. 0 < deg m \<and> deg m \<le> int (count_list (n # ns) m)}"
      proof (rule set_eqI)
        fix m
        show "m \<in> set news \<longleftrightarrow>
            m \<in> {m \<in> T. 0 < deg m \<and> deg m \<le> int (count_list (n # ns) m)}"
          using other by (cases "m = n") (auto simp: news(3) True)
      qed
      ultimately show ?thesis using news(2) by blast
    qed
  qed
qed simp

section \<open>The invariant\<close>

text \<open>Every element of the list comes after all its predecessors inside \<open>T\<close>.\<close>

definition follows_preds :: "('a \<Rightarrow> 'a list) \<Rightarrow> 'a set \<Rightarrow> 'a list \<Rightarrow> bool" where
  "follows_preds preds T xs \<longleftrightarrow>
     (\<forall>ys n zs. xs = ys @ n # zs \<longrightarrow> set (preds n) \<inter> T \<subseteq> set ys)"

lemma follows_preds_Nil [simp]: "follows_preds preds T []"
  by (simp add: follows_preds_def)

lemma follows_preds_snoc:
  "follows_preds preds T (xs @ [n])
     \<longleftrightarrow> follows_preds preds T xs \<and> set (preds n) \<inter> T \<subseteq> set xs"
proof
  assume h: "follows_preds preds T (xs @ [n])"
  then have "set (preds n) \<inter> T \<subseteq> set xs"
    unfolding follows_preds_def by blast
  moreover have "follows_preds preds T xs"
    unfolding follows_preds_def
  proof (intro allI impI)
    fix ys m zs assume "xs = ys @ m # zs"
    then have "xs @ [n] = ys @ m # (zs @ [n])" by simp
    with h show "set (preds m) \<inter> T \<subseteq> set ys" unfolding follows_preds_def by blast
  qed
  ultimately show "follows_preds preds T xs \<and> set (preds n) \<inter> T \<subseteq> set xs" by simp
next
  assume h: "follows_preds preds T xs \<and> set (preds n) \<inter> T \<subseteq> set xs"
  show "follows_preds preds T (xs @ [n])"
    unfolding follows_preds_def
  proof (intro allI impI)
    fix ys m zs assume eq: "xs @ [n] = ys @ m # zs"
    show "set (preds m) \<inter> T \<subseteq> set ys"
    proof (cases zs rule: rev_cases)
      case Nil
      with eq h show ?thesis by simp
    next
      case (snoc zs' z)
      with eq have "xs = ys @ m # zs'" by simp
      with h show ?thesis unfolding follows_preds_def by blast
    qed
  qed
qed

text \<open>The two adjacency tables describe the same multigraph on \<open>T\<close>.\<close>

definition matching :: "('a \<Rightarrow> 'a list) \<Rightarrow> ('a \<Rightarrow> 'a list) \<Rightarrow> 'a set \<Rightarrow> bool" where
  "matching succs preds T \<longleftrightarrow>
     (\<forall>a \<in> T. \<forall>b \<in> T. count_list (succs a) b = count_list (preds b) a)"

definition open_preds :: "('a \<Rightarrow> 'a list) \<Rightarrow> 'a set \<Rightarrow> 'a set \<Rightarrow> 'a \<Rightarrow> 'a list" where
  "open_preds preds T D n = filter (\<lambda>d. d \<in> T \<and> d \<notin> D) (preds n)"

lemma length_open_preds_insert:
  assumes "d \<in> T" and "d \<notin> D"
  shows "int (length (open_preds preds T (insert d D) n))
    = int (length (open_preds preds T D n)) - int (count_list (preds n) d)"
proof -
  have "length (filter (\<lambda>x. x \<in> T \<and> x \<notin> insert d D) xs) + count_list xs d
      = length (filter (\<lambda>x. x \<in> T \<and> x \<notin> D) xs)" for xs
    using assms by (induction xs) auto
  from this [of "preds n"] show ?thesis
    unfolding open_preds_def by simp
qed

definition kahn_inv ::
  "('a \<Rightarrow> 'a list) \<Rightarrow> 'a set \<Rightarrow> ('a \<Rightarrow> int) \<Rightarrow> 'a list \<Rightarrow> 'a list \<Rightarrow> bool" where
  "kahn_inv preds T deg q res \<longleftrightarrow>
     distinct (res @ q) \<and> set (res @ q) \<subseteq> T
     \<and> (\<forall>n \<in> T. deg n = int (length (open_preds preds T (set res) n)))
     \<and> (\<forall>n \<in> T. deg n = 0 \<longleftrightarrow> n \<in> set (res @ q))
     \<and> follows_preds preds T res"

lemma kahn_inv_step:
  assumes inv: "kahn_inv preds T deg (n # q) res"
    and m: "matching succs preds T"
    and step: "relax T (succs n) deg q = (deg', q')"
  shows "kahn_inv preds T deg' (requeue b q') (res @ [n])"
proof -
  from inv have nT: "n \<in> T" and dist: "distinct (res @ n # q)" and sub: "set (res @ n # q) \<subseteq> T"
    and deg: "\<And>k. k \<in> T \<Longrightarrow> deg k = int (length (open_preds preds T (set res) k))"
    and zero: "\<And>k. k \<in> T \<Longrightarrow> deg k = 0 \<longleftrightarrow> k \<in> set (res @ n # q)"
    and ord: "follows_preds preds T res"
    unfolding kahn_inv_def by auto
  have nres: "n \<notin> set res" using dist by auto
  have deg': "deg' k = int (length (open_preds preds T (set (res @ [n])) k))" if k: "k \<in> T" for k
  proof -
    have "deg' k = deg k - int (count_list (succs n) k)"
      using relax_deg [of T "succs n" deg q k] step k by simp
    also have "count_list (succs n) k = count_list (preds k) n"
      using m nT k unfolding matching_def by blast
    finally show ?thesis
      using deg [OF k] length_open_preds_insert [OF nT nres, of preds k] by simp
  qed
  obtain news where news: "q' = q @ news" "distinct news"
    "set news = {k \<in> T. 0 < deg k \<and> deg k \<le> int (count_list (succs n) k)}"
    using relax_queue [of T "succs n" deg q] step by auto
  have news': "set news = {k \<in> T. 0 < deg k \<and> deg' k = 0}"
  proof -
    have "deg k \<le> int (count_list (succs n) k) \<longleftrightarrow> deg' k = 0" if k: "k \<in> T" for k
    proof -
      have "deg' k = deg k - int (count_list (succs n) k)"
        using relax_deg [of T "succs n" deg q k] step k by simp
      moreover have "0 \<le> deg' k" using deg' [OF k] by simp
      ultimately show ?thesis by linarith
    qed
    with news(3) show ?thesis by auto
  qed
  have nonneg: "0 \<le> deg k" if "k \<in> T" for k using deg [OF that] by simp
  have mono: "deg' k \<le> deg k" if "k \<in> T" for k
    using relax_deg [of T "succs n" deg q k] step that by simp
  have zero': "deg' k = 0 \<longleftrightarrow> k \<in> set ((res @ [n]) @ q')" if k: "k \<in> T" for k
  proof -
    have "k \<in> set news \<longleftrightarrow> 0 < deg k \<and> deg' k = 0" using news' k by simp
    moreover have "0 \<le> deg' k" using deg' [OF k] by simp
    ultimately have "deg' k = 0 \<longleftrightarrow> deg k = 0 \<or> k \<in> set news"
      using nonneg [OF k] mono [OF k] by linarith
    also have "\<dots> \<longleftrightarrow> k \<in> set (res @ n # q) \<or> k \<in> set news"
      by (simp only: zero [OF k])
    finally show ?thesis by (simp only: news(1) set_append set_simps) blast
  qed
  have old0: "deg k = 0" if "k \<in> set (res @ n # q)" for k
  proof -
    from that sub have "k \<in> T" by blast
    from zero [OF this] that show ?thesis by blast
  qed
  have disj: "set news \<inter> set (res @ n # q) = {}"
    using news' old0 by fastforce
  have dist': "distinct ((res @ [n]) @ q')"
    using dist news(1,2) disj by auto
  have sub': "set ((res @ [n]) @ q') \<subseteq> T"
    using sub news(1) news' by auto
  have "open_preds preds T (set res) n = []"
    using deg [OF nT] zero [OF nT] by simp
  then have "set (preds n) \<inter> T \<subseteq> set res"
    unfolding open_preds_def filter_empty_conv by blast
  with ord have ord': "follows_preds preds T (res @ [n])"
    by (simp add: follows_preds_snoc)
  show ?thesis
    unfolding kahn_inv_def using dist' sub' deg' zero' ord' by auto
qed

lemma kahn_inv_result:
  assumes "kahn_inv preds (set ts) deg q res" and "matching succs preds (set ts)"
  shows "\<exists>deg'. kahn_inv preds (set ts) deg' [] (kahn b succs ts deg q res)"
  using assms
proof (induction b succs ts deg q res rule: kahn.induct)
  case (1 resort succs ts deg res)
  then show ?case by auto
next
  case (2 resort succs ts deg n q res)
  obtain deg' q' where step: "relax (set ts) (succs n) deg q = (deg', q')"
    by (cases "relax (set ts) (succs n) deg q")
  from kahn_inv_step [OF 2(2) 2(3) step, of resort]
  have "kahn_inv preds (set ts) deg' (requeue resort q') (res @ [n])" .
  with 2(1) [of "(deg', q')" deg' q'] 2(3) step show ?case by simp
qed

section \<open>What the loop returns\<close>

text \<open>The loop started as the sources start it.\<close>

definition in_degree :: "('a \<Rightarrow> 'a list) \<Rightarrow> 'a set \<Rightarrow> 'a \<Rightarrow> int" where
  "in_degree preds T n = int (length (filter (\<lambda>d. d \<in> T) (preds n)))"

lemma kahn_inv_init:
  assumes "distinct q" and "set q = {n \<in> T. in_degree preds T n = 0}"
  shows "kahn_inv preds T (in_degree preds T) q []"
  using assms by (auto simp: kahn_inv_def in_degree_def open_preds_def)

definition ranked :: "('a \<Rightarrow> 'a list) \<Rightarrow> 'a set \<Rightarrow> ('a \<Rightarrow> nat) \<Rightarrow> bool" where
  "ranked preds T r \<longleftrightarrow> (\<forall>n \<in> T. \<forall>d \<in> set (preds n) \<inter> T. r d < r n)"

lemma ranked_all_done:
  assumes inv: "kahn_inv preds T deg [] res" and r: "ranked preds T r"
  shows "set res = T"
proof (rule ccontr)
  assume "set res \<noteq> T"
  with inv have "T - set res \<noteq> {}" unfolding kahn_inv_def by auto
  then obtain n where n: "n \<in> T - set res" and least: "\<And>k. k \<in> T - set res \<Longrightarrow> r n \<le> r k"
    by (metis (no_types, lifting) ex_in_conv exists_least_iff linorder_not_le
        ex_has_least_nat [of "\<lambda>k. k \<in> T - set res" _ r])
  from inv n have "deg n \<noteq> 0" unfolding kahn_inv_def by auto
  with inv n have "open_preds preds T (set res) n \<noteq> []" unfolding kahn_inv_def by auto
  then obtain d where "d \<in> set (preds n)" "d \<in> T" "d \<notin> set res"
    unfolding open_preds_def filter_empty_conv by blast
  from r n this have "r d < r n" unfolding ranked_def by blast
  moreover have "r n \<le> r d" using \<open>d \<in> T\<close> \<open>d \<notin> set res\<close> by (intro least) simp
  ultimately show False by simp
qed

lemma follows_preds_ranked:
  assumes "follows_preds preds T xs" and "set xs = T" and "distinct xs"
  shows "\<exists>r. ranked preds T r"
proof -
  define r where "r n = length (takeWhile (\<lambda>k. k \<noteq> n) xs)" for n
  have "r d < r n" if n: "n \<in> T" and d: "d \<in> set (preds n) \<inter> T" for n d
  proof -
    from n assms(2) obtain ys zs where xs: "xs = ys @ n # zs" and ny: "n \<notin> set ys"
      by (metis split_list_first)
    with assms(1) d have "d \<in> set ys" unfolding follows_preds_def by blast
    then obtain us vs where ys: "ys = us @ d # vs" and du: "d \<notin> set us"
      by (metis split_list_first)
    have tw: "takeWhile (\<lambda>k. k \<noteq> x) (as @ x # bs) = as" if "x \<notin> set as" for x :: 'a and as bs
      using that by (induction as) auto
    have "takeWhile (\<lambda>k. k \<noteq> n) xs = ys" using tw [OF ny] xs by simp
    moreover have "takeWhile (\<lambda>k. k \<noteq> d) xs = us"
      using tw [OF du, of "vs @ n # zs"] xs ys by simp
    ultimately show ?thesis using ys by (simp add: r_def)
  qed
  then have "ranked preds T r" unfolding ranked_def by blast
  then show ?thesis by blast
qed

section \<open>Tiers\<close>

text \<open>
  The batched loop: a tier is every remaining node of in-degree zero; its nodes leave
  \<open>remaining\<close> one by one, each lowering the in-degree of the successors still there.
\<close>

fun decr_all :: "'a list \<Rightarrow> 'a list \<Rightarrow> ('a \<Rightarrow> int) \<Rightarrow> ('a \<Rightarrow> int)" where
  "decr_all remaining [] deg = deg"
| "decr_all remaining (n # ns) deg =
     decr_all remaining ns (if n \<in> set remaining then deg(n := deg n - 1) else deg)"

fun tier_step :: "('a \<Rightarrow> 'a list) \<Rightarrow> 'a list \<Rightarrow> 'a list \<Rightarrow> ('a \<Rightarrow> int) \<Rightarrow> 'a list \<times> ('a \<Rightarrow> int)" where
  "tier_step succs [] remaining deg = (remaining, deg)"
| "tier_step succs (t # ts) remaining deg =
     tier_step succs ts (removeAll t remaining)
       (decr_all (removeAll t remaining) (succs t) deg)"

lemma tier_step_remaining: "fst (tier_step succs ts remaining deg)
    = filter (\<lambda>n. n \<notin> set ts) remaining"
  by (induction ts arbitrary: remaining deg)
    (auto simp: removeAll_filter_not_eq intro!: filter_cong)

lemma tier_step_fst: "tier_step succs ts remaining deg = (r, d)
    \<Longrightarrow> r = filter (\<lambda>n. n \<notin> set ts) remaining"
  using tier_step_remaining [of succs ts remaining deg] by simp

function tiers_loop ::
  "('a :: linorder \<Rightarrow> 'a list) \<Rightarrow> 'a list \<Rightarrow> ('a \<Rightarrow> int) \<Rightarrow> 'a list list" where
  "tiers_loop succs remaining deg =
     (let tier = sort (filter (\<lambda>n. deg n = 0) remaining)
      in if remaining = [] \<or> tier = [] then []
         else (let (remaining', deg') = tier_step succs tier remaining deg
               in tier # tiers_loop succs remaining' deg'))"
  by pat_completeness auto
termination
proof (relation "measure (\<lambda>(succs, remaining, deg). length remaining)")
  fix succs :: "'a \<Rightarrow> 'a list" and remaining deg tier p remaining' deg'
  assume tier: "tier = sort (filter (\<lambda>n. deg n = (0::int)) remaining)"
    and ne: "\<not> (remaining = [] \<or> tier = [])"
    and p: "p = tier_step succs tier remaining deg" "(remaining', deg') = p"
  from p have r: "remaining' = filter (\<lambda>n. n \<notin> set tier) remaining"
    using tier_step_fst by metis
  obtain n where "n \<in> set tier" using ne by (cases tier) auto
  moreover from this have "n \<in> set remaining" using tier by simp
  ultimately have "length (filter (\<lambda>n. n \<notin> set tier) remaining) < length (filter (\<lambda>n. True) remaining)"
    by (intro length_filter_less [of n]) auto
  then show "((succs, remaining', deg'), succs, remaining, deg)
      \<in> measure (\<lambda>(succs, remaining, deg). length remaining)"
    by (simp add: r)
qed simp

declare tiers_loop.simps [simp del]

lemma decr_all_deg:
  "decr_all remaining ns deg m
    = (if m \<in> set remaining then deg m - int (count_list ns m) else deg m)"
  by (induction ns arbitrary: deg) (auto simp: fun_upd_def)

definition tiers_inv ::
  "('a \<Rightarrow> 'a list) \<Rightarrow> 'a set \<Rightarrow> 'a list \<Rightarrow> ('a \<Rightarrow> int) \<Rightarrow> bool" where
  "tiers_inv preds T remaining deg \<longleftrightarrow>
     set remaining \<subseteq> T \<and>
     (\<forall>n \<in> set remaining. deg n = int (length (open_preds preds T (T - set remaining) n)))"

lemma tiers_inv_one:
  assumes inv: "tiers_inv preds T remaining deg" and m: "matching succs preds T"
    and t: "t \<in> set remaining"
  shows "tiers_inv preds T (removeAll t remaining) (decr_all (removeAll t remaining) (succs t) deg)"
proof -
  from inv have sub: "set remaining \<subseteq> T" unfolding tiers_inv_def by blast
  have D: "T - set (removeAll t remaining) = insert t (T - set remaining)"
    using sub t by auto
  have "decr_all (removeAll t remaining) (succs t) deg n
      = int (length (open_preds preds T (T - set (removeAll t remaining)) n))"
    if n: "n \<in> set (removeAll t remaining)" for n
  proof -
    from n have n': "n \<in> set remaining" by simp
    have "count_list (succs t) n = count_list (preds n) t"
      using m t n' sub unfolding matching_def by blast
    moreover have "deg n = int (length (open_preds preds T (T - set remaining) n))"
      using inv n' unfolding tiers_inv_def by blast
    moreover have "int (length (open_preds preds T (insert t (T - set remaining)) n))
        = int (length (open_preds preds T (T - set remaining) n)) - int (count_list (preds n) t)"
      using t sub by (intro length_open_preds_insert) auto
    ultimately show ?thesis using n by (simp only: D decr_all_deg if_True)
  qed
  with sub show ?thesis unfolding tiers_inv_def by auto
qed

lemma tiers_inv_step:
  assumes "tiers_inv preds T remaining deg" and "matching succs preds T"
    and "distinct ts" and "set ts \<subseteq> set remaining"
    and "tier_step succs ts remaining deg = (remaining', deg')"
  shows "tiers_inv preds T remaining' deg'"
  using assms
proof (induction ts arbitrary: remaining deg)
  case (Cons t ts)
  show ?case
  proof (rule Cons.IH)
    show "tiers_inv preds T (removeAll t remaining)
        (decr_all (removeAll t remaining) (succs t) deg)"
      using Cons.prems by (intro tiers_inv_one) auto
    show "tier_step succs ts (removeAll t remaining)
        (decr_all (removeAll t remaining) (succs t) deg) = (remaining', deg')"
      using Cons.prems(5) by simp
  qed (use Cons.prems in auto)
qed simp

text \<open>
  The specification: after the nodes \<open>D\<close> are placed, the next tier is exactly the nodes
  whose predecessors are all in \<open>D\<close>, sorted.
\<close>

fun tiered :: "('a :: linorder \<Rightarrow> 'a list) \<Rightarrow> 'a set \<Rightarrow> 'a set \<Rightarrow> 'a list list \<Rightarrow> bool" where
  "tiered preds T D [] \<longleftrightarrow> {n \<in> T - D. set (preds n) \<inter> T \<subseteq> D} = {}"
| "tiered preds T D (t # ts) \<longleftrightarrow>
     t \<noteq> [] \<and> sorted t \<and> distinct t \<and> set t = {n \<in> T - D. set (preds n) \<inter> T \<subseteq> D}
     \<and> tiered preds T (D \<union> set t) ts"

lemma tiers_zero:
  assumes "tiers_inv preds T remaining deg" and "n \<in> set remaining"
  shows "deg n = 0 \<longleftrightarrow> set (preds n) \<inter> T \<subseteq> T - set remaining"
proof -
  have "deg n = 0 \<longleftrightarrow> open_preds preds T (T - set remaining) n = []"
    using assms unfolding tiers_inv_def by simp
  also have "\<dots> \<longleftrightarrow> set (preds n) \<inter> T \<subseteq> T - set remaining"
    unfolding open_preds_def filter_empty_conv by blast
  finally show ?thesis .
qed

lemma tiers_loop_tiered:
  assumes "tiers_inv preds T remaining deg" and "matching succs preds T" and "distinct remaining"
  shows "tiered preds T (T - set remaining) (tiers_loop succs remaining deg)"
  using assms
proof (induction succs remaining deg rule: tiers_loop.induct)
  case (1 succs remaining deg)
  let ?tier = "sort (filter (\<lambda>n. deg n = 0) remaining)"
  have sub: "set remaining \<subseteq> T" using "1.prems"(1) unfolding tiers_inv_def by blast
  have tier: "set ?tier = {n \<in> T - (T - set remaining). set (preds n) \<inter> T \<subseteq> T - set remaining}"
    using tiers_zero [OF "1.prems"(1)] sub by auto
  show ?case
  proof (cases "remaining = [] \<or> ?tier = []")
    case True
    then have "set ?tier = {}" by (elim disjE) (simp_all del: set_sort)
    moreover have "tiers_loop succs remaining deg = []"
      using True by (subst tiers_loop.simps) (simp add: Let_def)
    ultimately show ?thesis using tier by simp
  next
    case False
    obtain remaining' deg' where step: "tier_step succs ?tier remaining deg = (remaining', deg')"
      by fastforce
    have r': "set remaining' = set remaining - set ?tier"
      using tier_step_fst [OF step] by auto
    have inv': "tiers_inv preds T remaining' deg'"
      using "1.prems" by (intro tiers_inv_step [OF _ _ _ _ step]) auto
    have dist': "distinct remaining'"
      using tier_step_fst [OF step] "1.prems"(3) by simp
    have "tiered preds T (T - set remaining') (tiers_loop succs remaining' deg')"
      using "1.IH" [OF refl False step [symmetric] refl] inv' "1.prems"(2) dist' by blast
    moreover have "T - set remaining' = T - set remaining \<union> set ?tier"
      using r' sub by auto
    moreover have "tiers_loop succs remaining deg = ?tier # tiers_loop succs remaining' deg'"
      using False step by (subst tiers_loop.simps) (simp add: Let_def)
    ultimately show ?thesis
      using tier False "1.prems"(3) by (simp del: set_sort)
  qed
qed

lemma tiered_distinct:
  "tiered preds T D ts \<Longrightarrow> distinct (concat ts) \<and> set (concat ts) \<inter> D = {} \<and> set (concat ts) \<subseteq> T"
proof (induction ts arbitrary: D)
  case (Cons t ts)
  then have t: "distinct t" "set t \<inter> D = {}" "set t \<subseteq> T" and "tiered preds T (D \<union> set t) ts"
    by auto
  from Cons.IH [OF this(4)] t show ?case by auto
qed simp

lemma tiered_ranked_complete:
  assumes "tiered preds T D ts" and r: "ranked preds T r"
  shows "T \<subseteq> D \<union> set (concat ts)"
  using assms(1)
proof (induction ts arbitrary: D)
  case Nil
  show ?case
  proof (rule ccontr)
    assume "\<not> T \<subseteq> D \<union> set (concat [])"
    then obtain n where n: "n \<in> T - D" and least: "\<And>k. k \<in> T - D \<Longrightarrow> r n \<le> r k"
      using ex_has_least_nat [of "\<lambda>k. k \<in> T - D" _ r] by auto
    from Nil n obtain d where d: "d \<in> set (preds n) \<inter> T" "d \<notin> D" by auto
    with r n have "r d < r n" unfolding ranked_def by blast
    with least [of d] d show False by simp
  qed
next
  case (Cons t ts)
  then show ?case by fastforce
qed

lemma tiered_follows:
  assumes "tiered preds T D ts" and "ts = us @ t # vs" and "n \<in> set t"
  shows "set (preds n) \<inter> T \<subseteq> D \<union> set (concat us)"
  using assms
proof (induction us arbitrary: ts D)
  case (Cons u us)
  from Cons.prems(1) have "tiered preds T (D \<union> set u) (us @ t # vs)"
    unfolding Cons.prems(2) append_Cons tiered.simps by blast
  from Cons.IH [OF this refl Cons.prems(3)] show ?case by auto
qed auto

end
