(* ===== verification/Config.thy ===== *)
theory Config
  imports Kahn
begin

text \<open>
  The workspace configuration (core/config.py, with \<open>resolve_evidence_mode\<close> of
  core/evidence_store.py): the fields that the validators of \<open>HookConfig\<close>,
  \<open>Healthcheck\<close>, \<open>RepoConfig\<close> and \<open>WorkspaceConfig\<close> read, and those validators in the
  order pydantic runs them. A validator that raises is the left of its result; the error
  constructors carry what the message interpolates. Types that pydantic itself enforces
  (the literals) are datatypes here.
\<close>

section \<open>Data\<close>

datatype dep_type = Compile | Runtime

record dependency =
  dep_repo :: str
  dep_type :: dep_type

text \<open>A \<open>depends_on\<close> entry as written in the YAML: a bare name or a mapping.\<close>

datatype raw_dependency = Bare str | Full dependency

record healthcheck =
  hc_tcp :: "str option"
  hc_http :: "str option"
  hc_sleep :: "str option"
  hc_task :: "str option"

record hook_config =
  hk_on :: str
  hk_run :: str
  hk_repo :: "str option"
  hk_required :: bool

record run_profile =
  rp_backend :: str
  rp_roles :: "str list"

record repo_config =
  rc_path :: path
  rc_depends_on :: "dependency list"
  rc_tasks :: "str dict"
  rc_not_applicable :: "str list"
  rc_git_root :: "str option"
  rc_bind_files :: "str list"
  rc_base_branch :: "str option"
  rc_expected_branch :: "str option"
  rc_url :: "str option"
  rc_has_capture :: bool
  rc_run_profiles :: "run_profile dict"
  rc_env_runner :: "str option"
  rc_background :: bool
  rc_healthcheck :: "healthcheck option"

datatype scope_setting = Scope_Name str | Scope_Repos "str list"

datatype storage_mode = Committed | Storage_Local | Storage_Encrypted

datatype evidence_mode = Published | Evidence_Local | Evidence_Encrypted

record workspace_config =
  wc_default_scope :: scope_setting
  wc_spec_storage :: storage_mode
  wc_evidence_storage :: "evidence_mode option"
  wc_assumption_gate_enforced :: bool
  wc_require_approved_spec :: bool
  wc_env_runner :: "str option"
  wc_run_hosts :: "str list"
  wc_hooks :: "hook_config list"
  wc_repos :: "repo_config dict"

datatype config_error =
    Probe_Count nat
  | Unknown_Event str
  | Empty_Hook_Command
  | Required_Post_Hoc str
  | Empty_Url
  | Task_Overlap "str list"
  | Bind_File_Absolute str
  | Bind_File_Escapes str
  | Child_Path_Absolute str
  | Child_Path_Escapes str
  | Bad_Scope_Name str
  | Unknown_Scope_Repos "str list"
  | Profile_Without_Role str str
  | Unapproved_Roles str str "str list"
  | Evidence_Exposed evidence_mode storage_mode
  | Unknown_Dependency str str
  | Circular_Dependency
  | Unknown_Git_Root str str
  | Chained_Git_Root str str
  | Unknown_Hook_Repo str str
  | Conflicting_Branches str

section \<open>Hooks and health checks\<close>

definition task_phase_events :: "str list" where
  "task_phase_events = List.map (\<lambda>p. ''phase.entered.'' @ p) [''plan'', ''dev'', ''review'', ''run'']"

definition workitem_phase_events :: "str list" where
  "workitem_phase_events = List.map (\<lambda>p. ''workitem.phase.'' @ p)
     [''inbox'', ''shaping'', ''ready'', ''in_flight'', ''review'', ''done'']"

definition post_hoc_events :: "str list" where
  "post_hoc_events = [''task.finished'', ''task.closed'', ''pr.merged'', ''pr.closed'']"

definition lifecycle_events :: "str list" where
  "lifecycle_events = post_hoc_events @ task_phase_events @ workitem_phase_events"

definition exactly_one_probe :: "healthcheck \<Rightarrow> config_error + unit" where
  "exactly_one_probe h =
     (let set_count = length (filter (\<lambda>p. p \<noteq> None) [hc_tcp h, hc_http h, hc_sleep h, hc_task h])
      in if set_count \<noteq> 1 then Inl (Probe_Count set_count) else Inr ())"

definition validate_on :: "hook_config \<Rightarrow> config_error + unit" where
  "validate_on h = (if hk_on h \<notin> set lifecycle_events then Inl (Unknown_Event (hk_on h)) else Inr ())"

definition validate_run :: "hook_config \<Rightarrow> config_error + unit" where
  "validate_run h = (if strip (hk_run h) = [] then Inl Empty_Hook_Command else Inr ())"

definition validate_required :: "hook_config \<Rightarrow> config_error + unit" where
  "validate_required h =
     (if hk_required h \<and> hk_on h \<in> set post_hoc_events
      then Inl (Required_Post_Hoc (hk_on h)) else Inr ())"

definition validate_hook :: "hook_config \<Rightarrow> config_error + unit" where
  "validate_hook h = rbind (validate_on h) (\<lambda>_. rbind (validate_run h) (\<lambda>_. validate_required h))"

text \<open>A hook that may abort a transition listens to an event fired before the mutation.\<close>

lemma required_hook_is_pre_mutation:
  assumes "validate_hook h = Inr ()" and "hk_required h"
  shows "hk_on h \<in> set task_phase_events \<or> hk_on h \<in> set workitem_phase_events"
  using assms
  by (auto simp: validate_hook_def validate_on_def validate_required_def lifecycle_events_def
      result_simps split: if_splits)

section \<open>Repositories\<close>

definition normalize_depends_on :: "raw_dependency list \<Rightarrow> dependency list" where
  "normalize_depends_on ds = List.map (\<lambda>d. case d of
       Bare r \<Rightarrow> \<lparr>dep_repo = r, dep_type = Compile\<rparr> | Full e \<Rightarrow> e) ds"

definition validate_url :: "str option \<Rightarrow> config_error + str option" where
  "validate_url v = (case v of None \<Rightarrow> Inr None
     | Some s \<Rightarrow> (let stripped = strip s in if stripped = [] then Inl Empty_Url else Inr (Some stripped)))"

definition validate_not_applicable :: "repo_config \<Rightarrow> config_error + unit" where
  "validate_not_applicable rc =
     (let overlap = filter (\<lambda>t. t \<in> set (rc_not_applicable rc)) (dict_keys (rc_tasks rc))
      in if overlap \<noteq> [] then Inl (Task_Overlap (sort (remdups overlap))) else Inr ())"

definition validate_bind_files :: "repo_config \<Rightarrow> config_error + unit" where
  "validate_bind_files rc = rfold (\<lambda>e _.
       let p = parse_path e
       in if absolute p then Inl (Bind_File_Absolute e)
          else if ''..'' \<in> set (parts p) then Inl (Bind_File_Escapes e)
          else Inr ()) (rc_bind_files rc) ()"

definition validate_git_root_child_path :: "repo_config \<Rightarrow> config_error + unit" where
  "validate_git_root_child_path rc = (case rc_git_root rc of None \<Rightarrow> Inr ()
     | Some g \<Rightarrow> if absolute (rc_path rc) then Inl (Child_Path_Absolute g)
                 else if ''..'' \<in> set (parts (rc_path rc)) then Inl (Child_Path_Escapes g)
                 else Inr ())"

definition validate_repo :: "repo_config \<Rightarrow> config_error + repo_config" where
  "validate_repo rc =
     rbind (validate_url (rc_url rc)) (\<lambda>url.
     rbind (validate_not_applicable rc) (\<lambda>_.
     rbind (validate_bind_files rc) (\<lambda>_.
     rbind (validate_git_root_child_path rc) (\<lambda>_.
       Inr (rc\<lparr>rc_url := url\<rparr>)))))"

lemma rfold_unit_ok: "rfold f xs () = Inr () \<longleftrightarrow> (\<forall>x \<in> set xs. f x () = Inr ())"
  by (induction xs) (auto simp: result_simps)

text \<open>The worktree of a child repository stays inside its parent's.\<close>

lemma child_path_stays_inside:
  assumes "validate_repo rc = Inr rc'" and "rc_git_root rc = Some g"
  shows "path_within (path_join base (rc_path rc)) base \<and> ''..'' \<notin> set (parts (rc_path rc))"
  using assms
  by (auto simp: validate_repo_def validate_git_root_child_path_def path_join_def path_within_def
      result_simps split: if_splits)

section \<open>Evidence exposure\<close>

fun exposure :: "evidence_mode \<Rightarrow> nat" where
  "exposure Evidence_Local = 0"
| "exposure Evidence_Encrypted = 1"
| "exposure Published = 2"

fun inherited_mode :: "storage_mode \<Rightarrow> evidence_mode" where
  "inherited_mode Committed = Published"
| "inherited_mode Storage_Local = Evidence_Local"
| "inherited_mode Storage_Encrypted = Evidence_Encrypted"

definition resolve_evidence_mode :: "workspace_config \<Rightarrow> config_error + evidence_mode" where
  "resolve_evidence_mode wc =
     (let inherited = inherited_mode (wc_spec_storage wc)
      in case wc_evidence_storage wc of None \<Rightarrow> Inr inherited
         | Some declared \<Rightarrow>
             if exposure declared > exposure inherited
             then Inl (Evidence_Exposed declared (wc_spec_storage wc)) else Inr declared)"

lemma evidence_never_more_exposed:
  "resolve_evidence_mode wc = Inr m \<Longrightarrow> exposure m \<le> exposure (inherited_mode (wc_spec_storage wc))"
  by (auto simp: resolve_evidence_mode_def Let_def split: option.splits if_splits)

section \<open>The workspace validators\<close>

definition validate_default_scope :: "workspace_config \<Rightarrow> config_error + unit" where
  "validate_default_scope wc = (case wc_default_scope wc of
       Scope_Name s \<Rightarrow> if s \<notin> {''all'', ''none''} then Inl (Bad_Scope_Name s) else Inr ()
     | Scope_Repos rs \<Rightarrow>
         (let unknown = filter (\<lambda>r. r \<notin> set (dict_keys (wc_repos wc))) rs
          in if unknown \<noteq> [] then Inl (Unknown_Scope_Repos unknown) else Inr ()))"

definition validate_run_target_roles :: "workspace_config \<Rightarrow> config_error + unit" where
  "validate_run_target_roles wc = rfold (\<lambda>(repo, rc) _. rfold (\<lambda>(name, profile) _.
       let unknown = filter (\<lambda>r. r \<notin> set (wc_run_hosts wc)) (rp_roles profile)
       in if rp_roles profile = [] then Inl (Profile_Without_Role name repo)
          else if unknown \<noteq> [] then Inl (Unapproved_Roles name repo (sort (remdups unknown)))
          else Inr ()) (rc_run_profiles rc) ()) (wc_repos wc) ()"

definition validate_evidence_exposure :: "workspace_config \<Rightarrow> config_error + unit" where
  "validate_evidence_exposure wc = rbind (resolve_evidence_mode wc) (\<lambda>_. Inr ())"

definition validate_depends_on_refs :: "workspace_config \<Rightarrow> config_error + unit" where
  "validate_depends_on_refs wc = rfold (\<lambda>(name, rc) _. rfold (\<lambda>dep _.
       if dep_repo dep \<notin> set (dict_keys (wc_repos wc))
       then Inl (Unknown_Dependency name (dep_repo dep)) else Inr ())
     (rc_depends_on rc) ()) (wc_repos wc) ()"

text \<open>
  \<open>validate_no_cycles\<close>: the tables start with every repository name mapped to nothing;
  one pass adds the \<open>depends_on\<close> edges, a second the edge a \<open>git_root\<close> implies unless
  the child already depends on its parent; then the first-in first-out loop counts.
\<close>

type_synonym degree_tables = "(str \<Rightarrow> str list) \<times> (str \<Rightarrow> int)"

definition count_dep :: "str \<Rightarrow> dependency \<Rightarrow> degree_tables \<Rightarrow> degree_tables" where
  "count_dep name dep = (\<lambda>(adj, deg).
     (adj(dep_repo dep := adj (dep_repo dep) @ [name]), deg(name := deg name + 1)))"

definition count_repo :: "str \<times> repo_config \<Rightarrow> degree_tables \<Rightarrow> degree_tables" where
  "count_repo nr t = fold (count_dep (fst nr)) (rc_depends_on (snd nr)) t"

definition count_git_root :: "str list \<Rightarrow> str \<times> repo_config \<Rightarrow> degree_tables \<Rightarrow> degree_tables" where
  "count_git_root names nr = (\<lambda>(adj, deg). case rc_git_root (snd nr) of None \<Rightarrow> (adj, deg)
     | Some parent \<Rightarrow>
         if parent \<notin> set names then (adj, deg)
         else if (\<exists>dep \<in> set (rc_depends_on (snd nr)). dep_repo dep = parent) then (adj, deg)
         else (adj(parent := adj parent @ [fst nr]), deg(fst nr := deg (fst nr) + 1)))"

definition degree_tables_of :: "repo_config dict \<Rightarrow> degree_tables" where
  "degree_tables_of repos =
     fold (count_git_root (dict_keys repos)) repos
       (fold count_repo repos (\<lambda>_. [], \<lambda>_. 0))"

definition validate_no_cycles :: "workspace_config \<Rightarrow> config_error + unit" where
  "validate_no_cycles wc =
     (let names = dict_keys (wc_repos wc);
          (adj, deg) = degree_tables_of (wc_repos wc);
          queue = filter (\<lambda>n. deg n = 0) names;
          visited = length (kahn False adj names deg queue [])
      in if visited \<noteq> length names then Inl Circular_Dependency else Inr ())"

definition validate_git_root_refs :: "workspace_config \<Rightarrow> config_error + unit" where
  "validate_git_root_refs wc = rfold (\<lambda>(name, rc) _. case rc_git_root rc of None \<Rightarrow> Inr ()
     | Some g \<Rightarrow> (case map_of (wc_repos wc) g of None \<Rightarrow> Inl (Unknown_Git_Root name g)
         | Some parent \<Rightarrow> if rc_git_root parent \<noteq> None then Inl (Chained_Git_Root name g) else Inr ()))
     (wc_repos wc) ()"

definition validate_hooks_repo_refs :: "workspace_config \<Rightarrow> config_error + unit" where
  "validate_hooks_repo_refs wc = rfold (\<lambda>h _. case hk_repo h of None \<Rightarrow> Inr ()
     | Some r \<Rightarrow> if r \<notin> set (dict_keys (wc_repos wc)) then Inl (Unknown_Hook_Repo (hk_on h) r) else Inr ())
     (wc_hooks wc) ()"

text \<open>\<open>groups.setdefault(root, []).append((name, branch))\<close> over the repositories.\<close>

definition branch_groups :: "repo_config dict \<Rightarrow> (str \<times> str) list dict" where
  "branch_groups repos = fold (\<lambda>(name, rc) groups.
       case (rc_git_root rc, rc_expected_branch rc) of
         (Some root, Some branch) \<Rightarrow>
           AList.update root ((case map_of groups root of None \<Rightarrow> [] | Some ms \<Rightarrow> ms) @ [(name, branch)]) groups
       | _ \<Rightarrow> groups) repos []"

definition validate_expected_branch_consistency :: "workspace_config \<Rightarrow> config_error + unit" where
  "validate_expected_branch_consistency wc = rfold (\<lambda>(root, members) _.
       if length (remdups (List.map snd members)) > 1 then Inl (Conflicting_Branches root) else Inr ())
     (branch_groups (wc_repos wc)) ()"

definition validate_workspace :: "workspace_config \<Rightarrow> config_error + unit" where
  "validate_workspace wc =
     rbind (validate_default_scope wc) (\<lambda>_.
     rbind (validate_run_target_roles wc) (\<lambda>_.
     rbind (validate_evidence_exposure wc) (\<lambda>_.
     rbind (validate_depends_on_refs wc) (\<lambda>_.
     rbind (validate_no_cycles wc) (\<lambda>_.
     rbind (validate_git_root_refs wc) (\<lambda>_.
     rbind (validate_hooks_repo_refs wc) (\<lambda>_.
       validate_expected_branch_consistency wc)))))))"

text \<open>\<open>unique_git_roots\<close>: the resolved root of each selected repository, once each.\<close>

definition git_root_path :: "repo_config dict \<Rightarrow> str \<Rightarrow> exn + path" where
  "git_root_path repos name = (case map_of repos name of None \<Rightarrow> Inl (KeyError name)
     | Some rc \<Rightarrow> (if truthy (rc_git_root rc)
         then (case map_of repos (the (rc_git_root rc)) of
                 None \<Rightarrow> Inl (KeyError (the (rc_git_root rc))) | Some parent \<Rightarrow> Inr (rc_path parent))
         else Inr (rc_path rc)))"

definition unique_git_roots ::
  "(path \<Rightarrow> path) \<Rightarrow> workspace_config \<Rightarrow> str list option \<Rightarrow> exn + path list" where
  "unique_git_roots resolve wc names =
     (let selected = (case names of Some ns \<Rightarrow> ns | None \<Rightarrow> dict_keys (wc_repos wc))
      in rbind (rmap (git_root_path (wc_repos wc)) selected)
           (\<lambda>roots. Inr (fromkeys (List.map resolve roots))))"

end
