(* ===== verification/Graph_Search.thy ===== *)
theory Graph_Search
  imports Prelude
begin

text \<open>
  The depth-first loop that core/graph.py (\<open>dependents\<close>, \<open>dependencies\<close>) and
  core/task_graph.py (\<open>downstream_of\<close>) share: pop a node, skip it if it was visited,
  otherwise mark it and push its neighbours. A node that is no key of the adjacency table
  has no neighbours. The stack is kept with its top first, so \<open>stack.extend(xs)\<close> puts
  \<open>rev xs\<close> in front.
\<close>

definition edges :: "'a list \<Rightarrow> ('a \<Rightarrow> 'a list) \<Rightarrow> ('a \<times> 'a) set" where
  "edges keys adj = {(a, b). a \<in> set keys \<and> b \<in> set (adj a)}"

definition neighbours :: "'a list \<Rightarrow> ('a \<Rightarrow> 'a list) \<Rightarrow> 'a \<Rightarrow> 'a list" where
  "neighbours keys adj n = (if n \<in> set keys then adj n else [])"

lemma neighbours_edges: "b \<in> set (neighbours keys adj a) \<longleftrightarrow> (a, b) \<in> edges keys adj"
  by (simp add: neighbours_def edges_def)

definition unvisited :: "'a list \<Rightarrow> 'a set \<Rightarrow> nat" where
  "unvisited keys visited = length (filter (\<lambda>k. k \<notin> visited) keys)"

lemma unvisited_less:
  "n \<in> set keys \<Longrightarrow> n \<notin> visited \<Longrightarrow> unvisited keys (insert n visited) < unvisited keys visited"
  unfolding unvisited_def by (rule length_filter_less [of n]) auto

lemma unvisited_le: "unvisited keys (insert n visited) \<le> unvisited keys visited"
  unfolding unvisited_def by (induction keys) auto

function dfs :: "'a list \<Rightarrow> ('a \<Rightarrow> 'a list) \<Rightarrow> 'a list \<Rightarrow> 'a set \<Rightarrow> 'a set" where
  "dfs keys adj [] visited = visited"
| "dfs keys adj (n # stack) visited =
     (if n \<in> visited then dfs keys adj stack visited
      else dfs keys adj (rev (neighbours keys adj n) @ stack) (insert n visited))"
  by pat_completeness auto
termination
proof (relation "measures [\<lambda>(keys, adj, stack, visited). unvisited keys visited,
    \<lambda>(keys, adj, stack, visited). length stack]")
  fix keys :: "'a list" and adj and n :: 'a and stack visited
  assume "n \<notin> visited"
  then show "((keys, adj, rev (neighbours keys adj n) @ stack, insert n visited),
      keys, adj, n # stack, visited)
      \<in> measures [\<lambda>(keys, adj, stack, visited). unvisited keys visited,
        \<lambda>(keys, adj, stack, visited). length stack]"
    using unvisited_less [of n keys visited] unvisited_le [of keys n visited]
    by (cases "n \<in> set keys") (auto simp: neighbours_def)
qed auto

definition closed_upto :: "('a \<times> 'a) set \<Rightarrow> 'a set \<Rightarrow> 'a set \<Rightarrow> bool" where
  "closed_upto E visited open_nodes \<longleftrightarrow> E `` visited \<subseteq> visited \<union> open_nodes"

lemma dfs_sound:
  assumes "set stack \<subseteq> R" and "visited \<subseteq> R" and "edges keys adj `` R \<subseteq> R"
  shows "dfs keys adj stack visited \<subseteq> R"
  using assms
proof (induction keys adj stack visited rule: dfs.induct)
  case (2 keys adj n stack visited)
  have "set (neighbours keys adj n) \<subseteq> R" if "n \<in> R"
    using that "2.prems"(3) neighbours_edges [of _ keys adj n] by blast
  with 2 show ?case by (cases "n \<in> visited") auto
qed simp

lemma dfs_closed:
  assumes "closed_upto (edges keys adj) visited (set stack)"
  shows "visited \<union> set stack \<subseteq> dfs keys adj stack visited
    \<and> edges keys adj `` dfs keys adj stack visited \<subseteq> dfs keys adj stack visited"
  using assms
proof (induction keys adj stack visited rule: dfs.induct)
  case (1 keys adj visited)
  then show ?case by (simp add: closed_upto_def)
next
  case (2 keys adj n stack visited)
  show ?case
  proof (cases "n \<in> visited")
    case True
    with "2.prems" have "closed_upto (edges keys adj) visited (set stack)"
      by (auto simp: closed_upto_def)
    with True "2.IH"(1) show ?thesis by auto
  next
    case False
    have "closed_upto (edges keys adj) (insert n visited)
        (set (rev (neighbours keys adj n) @ stack))"
      using "2.prems" neighbours_edges [of _ keys adj n]
      unfolding closed_upto_def by (auto simp: Image_def)
    with False "2.IH"(2) show ?thesis by auto
  qed
qed

lemma closed_rtrancl: "S \<subseteq> C \<Longrightarrow> E `` C \<subseteq> C \<Longrightarrow> E\<^sup>* `` S \<subseteq> C"
  by (metis Image_closed_trancl Image_mono order_refl)

text \<open>Started with nothing visited, the loop computes reachability from the stack.\<close>

lemma dfs_reachable: "dfs keys adj stack {} = (edges keys adj)\<^sup>* `` set stack"
proof
  show "dfs keys adj stack {} \<subseteq> (edges keys adj)\<^sup>* `` set stack"
    by (rule dfs_sound) (auto intro: rtrancl_into_rtrancl)
  have "set stack \<subseteq> dfs keys adj stack {}"
    and "edges keys adj `` dfs keys adj stack {} \<subseteq> dfs keys adj stack {}"
    using dfs_closed [of keys adj "{}" stack] by (auto simp: closed_upto_def)
  then show "(edges keys adj)\<^sup>* `` set stack \<subseteq> dfs keys adj stack {}"
    by (rule closed_rtrancl)
qed

text \<open>Started from the neighbours of a node, it computes what lies strictly beyond it.\<close>

lemma dfs_trancl:
  assumes "n \<in> set keys"
  shows "dfs keys adj (rev (adj n)) {} = {x. (n, x) \<in> (edges keys adj)\<^sup>+}"
proof -
  have "set (rev (adj n)) = edges keys adj `` {n}"
    using assms by (auto simp: edges_def)
  then show ?thesis
    by (auto simp: dfs_reachable trancl_unfold_left)
qed

lemma finite_dfs: "finite visited \<Longrightarrow> finite (dfs keys adj stack visited)"
  by (induction keys adj stack visited rule: dfs.induct) auto

end
