(* ===== verification/Repo_Graph.thy ===== *)
theory Repo_Graph
  imports Config Graph_Search
begin

text \<open>
  The repository dependency graph (core/graph.py, class \<open>DependencyGraph\<close>): its
  construction from a configuration, the two topological orders, the transitive queries.
  The section at the end connects it with the configuration: a configuration that passed
  \<open>validate_no_cycles\<close> gives a graph whose orders are complete.
\<close>

section \<open>Construction\<close>

record dep_graph =
  dg_names :: "str list"
  dg_forward :: "str \<Rightarrow> str list"
  dg_reverse :: "str \<Rightarrow> str list"

definition link_dep :: "str \<Rightarrow> dependency \<Rightarrow> dep_graph \<Rightarrow> exn + dep_graph" where
  "link_dep name dep g =
     (let d = dep_repo dep
      in if d \<notin> set (dg_names g) then Inl (KeyError d)
         else Inr (g\<lparr>dg_forward := (dg_forward g)(d := dg_forward g d @ [name]),
                      dg_reverse := (dg_reverse g)(name := dg_reverse g name @ [d])\<rparr>))"

definition link_repo :: "str \<times> repo_config \<Rightarrow> dep_graph \<Rightarrow> exn + dep_graph" where
  "link_repo nr g = rfold (link_dep (fst nr)) (rc_depends_on (snd nr)) g"

definition link_git_root :: "str \<times> repo_config \<Rightarrow> dep_graph \<Rightarrow> dep_graph" where
  "link_git_root nr g = (case rc_git_root (snd nr) of None \<Rightarrow> g
     | Some parent \<Rightarrow>
         if parent \<notin> set (dg_names g) then g
         else (let name = fst nr;
                   fwd = (if name \<notin> set (dg_forward g parent)
                          then (dg_forward g)(parent := dg_forward g parent @ [name]) else dg_forward g);
                   bwd = (if parent \<notin> set (dg_reverse g name)
                          then (dg_reverse g)(name := dg_reverse g name @ [parent]) else dg_reverse g)
               in g\<lparr>dg_forward := fwd, dg_reverse := bwd\<rparr>))"

definition dependency_graph :: "workspace_config \<Rightarrow> exn + dep_graph" where
  "dependency_graph wc =
     rbind (rfold link_repo (wc_repos wc)
              \<lparr>dg_names = dict_keys (wc_repos wc), dg_forward = (\<lambda>_. []), dg_reverse = (\<lambda>_. [])\<rparr>)
       (\<lambda>g. Inr (fold link_git_root (wc_repos wc) g))"

section \<open>Queries\<close>

text \<open>\<open>set(repos) if repos else set(all)\<close>; an unknown name raises at the in-degree table.\<close>

definition targets :: "dep_graph \<Rightarrow> str list option \<Rightarrow> exn + str list" where
  "targets g repos = (case repos of
       None \<Rightarrow> Inr (dg_names g)
     | Some rs \<Rightarrow>
         (if rs = [] then Inr (dg_names g)
          else case filter (\<lambda>r. r \<notin> set (dg_names g)) rs of
                 [] \<Rightarrow> Inr (remdups rs) | r # _ \<Rightarrow> Inl (KeyError r)))"

definition topo_sort :: "dep_graph \<Rightarrow> str list option \<Rightarrow> exn + str list" where
  "topo_sort g repos = rbind (targets g repos) (\<lambda>ts.
     let deg = in_degree (dg_reverse g) (set ts);
         queue = sort (filter (\<lambda>n. deg n = 0) ts)
     in Inr (kahn True (dg_forward g) ts deg queue []))"

definition topo_tiers :: "dep_graph \<Rightarrow> str list option \<Rightarrow> exn + str list list" where
  "topo_tiers g repos = rbind (targets g repos) (\<lambda>ts.
     Inr (tiers_loop (dg_forward g) ts (in_degree (dg_reverse g) (set ts))))"

definition dependents :: "dep_graph \<Rightarrow> str \<Rightarrow> exn + str list" where
  "dependents g repo = (if repo \<notin> set (dg_names g) then Inl (KeyError repo)
     else Inr (sorted_list_of_set
       (dfs (dg_names g) (dg_forward g) (rev (dg_forward g repo)) {})))"

definition dependencies :: "dep_graph \<Rightarrow> str \<Rightarrow> exn + str list" where
  "dependencies g repo = (if repo \<notin> set (dg_names g) then Inl (KeyError repo)
     else Inr (sorted_list_of_set
       (dfs (dg_names g) (dg_reverse g) (rev (dg_reverse g repo)) {})))"

definition direct_deps :: "dep_graph \<Rightarrow> str \<Rightarrow> exn + str list" where
  "direct_deps g repo = (if repo \<notin> set (dg_names g) then Inl (KeyError repo)
     else Inr (dg_reverse g repo))"

section \<open>The construction keeps both tables in step\<close>

definition graph_ok :: "dep_graph \<Rightarrow> bool" where
  "graph_ok g \<longleftrightarrow> distinct (dg_names g) \<and>
     (\<forall>n. \<forall>d \<in> set (dg_reverse g n). d \<in> set (dg_names g)) \<and>
     (\<forall>n. n \<notin> set (dg_names g) \<longrightarrow> dg_reverse g n = []) \<and>
     (\<forall>a b. count_list (dg_forward g a) b = count_list (dg_reverse g b) a)"

lemma count_list_snoc: "count_list (xs @ [y]) x = count_list xs x + (if x = y then 1 else 0)"
  by (induction xs) auto

lemma link_dep_ok:
  assumes "link_dep name dep g = Inr g'" and "graph_ok g" and "name \<in> set (dg_names g)"
  shows "graph_ok g' \<and> dg_names g' = dg_names g"
  using assms
  by (auto simp: link_dep_def graph_ok_def Let_def count_list_snoc split: if_splits)

lemma link_repo_ok:
  assumes "link_repo nr g = Inr g'" and "graph_ok g" and "fst nr \<in> set (dg_names g)"
  shows "graph_ok g' \<and> dg_names g' = dg_names g"
  using rfold_invariant [OF assms(1) [unfolded link_repo_def],
      of "\<lambda>h. graph_ok h \<and> dg_names h = dg_names g"] link_dep_ok assms(2,3)
  by (metis (no_types, lifting))

lemma link_git_root_ok:
  assumes "graph_ok g" and "fst nr \<in> set (dg_names g)"
  shows "graph_ok (link_git_root nr g) \<and> dg_names (link_git_root nr g) = dg_names g"
proof -
  have mem: "a \<in> set (dg_reverse g b) \<longleftrightarrow> b \<in> set (dg_forward g a)" for a b
    using assms unfolding graph_ok_def by (metis count_list_0_iff)
  show ?thesis
  proof (cases "rc_git_root (snd nr)")
    case None
    with assms show ?thesis by (simp add: link_git_root_def)
  next
    case (Some parent)
    show ?thesis
    proof (cases "parent \<in> set (dg_names g) \<and> fst nr \<notin> set (dg_forward g parent)")
      case True
      with Some mem [of parent "fst nr"] have eq: "link_git_root nr g =
          g\<lparr>dg_forward := (dg_forward g)(parent := dg_forward g parent @ [fst nr]),
            dg_reverse := (dg_reverse g)(fst nr := dg_reverse g (fst nr) @ [parent])\<rparr>"
        by (simp add: link_git_root_def Let_def)
      show ?thesis unfolding eq using assms True by (auto simp: graph_ok_def count_list_snoc)
    next
      case False
      with Some mem [of parent "fst nr"] have "link_git_root nr g = g"
        by (auto simp: link_git_root_def Let_def)
      with assms show ?thesis by simp
    qed
  qed
qed

lemma fold_link_git_root_ok:
  "graph_ok g \<Longrightarrow> fst ` set nrs \<subseteq> set (dg_names g) \<Longrightarrow>
   graph_ok (fold link_git_root nrs g) \<and> dg_names (fold link_git_root nrs g) = dg_names g"
  by (induction nrs arbitrary: g) (simp_all add: link_git_root_ok)

lemma rfold_link_repo_ok:
  assumes "rfold link_repo nrs g = Inr g'" and "graph_ok g" and "fst ` set nrs \<subseteq> set (dg_names g)"
  shows "graph_ok g' \<and> dg_names g' = dg_names g"
  using rfold_invariant [OF assms(1), of "\<lambda>h. graph_ok h \<and> dg_names h = dg_names g"]
    link_repo_ok assms(2,3)
  by (metis (no_types, lifting) image_subset_iff)

lemma dependency_graph_ok:
  assumes "dependency_graph wc = Inr g" and "dict_ok (wc_repos wc)"
  shows "graph_ok g \<and> dg_names g = dict_keys (wc_repos wc)"
proof -
  let ?g0 = "\<lparr>dg_names = dict_keys (wc_repos wc), dg_forward = (\<lambda>_. []), dg_reverse = (\<lambda>_. [])\<rparr>"
  from assms(1) obtain g1 where g1: "rfold link_repo (wc_repos wc) ?g0 = Inr g1"
    and g: "g = fold link_git_root (wc_repos wc) g1"
    by (auto simp: dependency_graph_def result_simps)
  have "graph_ok ?g0" using assms(2) by (simp add: graph_ok_def dict_ok_def)
  from rfold_link_repo_ok [OF g1 this] have "graph_ok g1" "dg_names g1 = dict_keys (wc_repos wc)"
    by auto
  with fold_link_git_root_ok [of g1 "wc_repos wc"] show ?thesis by (simp add: g)
qed

lemma graph_matching: "graph_ok g \<Longrightarrow> matching (dg_forward g) (dg_reverse g) T"
  by (simp add: graph_ok_def matching_def)

lemma targets_distinct: "graph_ok g \<Longrightarrow> targets g repos = Inr ts \<Longrightarrow> distinct ts"
  by (auto simp: targets_def graph_ok_def split: option.splits if_splits list.splits)

section \<open>The orders\<close>

lemma topo_sort_inv:
  assumes ok: "graph_ok g" and ts: "targets g repos = Inr ts" and res: "topo_sort g repos = Inr res"
  shows "\<exists>deg. kahn_inv (dg_reverse g) (set ts) deg [] res"
proof -
  let ?deg = "in_degree (dg_reverse g) (set ts)"
  let ?q = "sort (filter (\<lambda>n. ?deg n = 0) ts)"
  have "kahn_inv (dg_reverse g) (set ts) ?deg ?q []"
    using targets_distinct [OF ok ts] by (intro kahn_inv_init) auto
  from kahn_inv_result [OF this graph_matching [OF ok], of True] res ts
  show ?thesis by (auto simp: topo_sort_def Let_def)
qed

lemma topo_sort_follows:
  assumes "graph_ok g" and "targets g repos = Inr ts" and "topo_sort g repos = Inr res"
  shows "distinct res \<and> set res \<subseteq> set ts \<and> follows_preds (dg_reverse g) (set ts) res"
  using topo_sort_inv [OF assms] by (auto simp: kahn_inv_def)

lemma topo_sort_complete:
  assumes "graph_ok g" and "targets g repos = Inr ts" and "topo_sort g repos = Inr res"
    and "ranked (dg_reverse g) (set ts) r"
  shows "set res = set ts"
  using topo_sort_inv [OF assms(1-3)] ranked_all_done assms(4) by blast

lemma topo_tiers_tiered:
  assumes ok: "graph_ok g" and ts: "targets g repos = Inr ts" and res: "topo_tiers g repos = Inr tiers"
  shows "tiered (dg_reverse g) (set ts) {} tiers"
proof -
  have "tiers_inv (dg_reverse g) (set ts) ts (in_degree (dg_reverse g) (set ts))"
    by (simp add: tiers_inv_def in_degree_def open_preds_def)
  from tiers_loop_tiered [OF this graph_matching [OF ok] targets_distinct [OF ok ts]] res ts
  show ?thesis by (simp add: topo_tiers_def)
qed

section \<open>A validated configuration has complete orders\<close>

text \<open>
  \<open>validate_no_cycles\<close> builds the same forward table and counts exactly the reverse lists.
\<close>

definition in_step :: "dep_graph \<Rightarrow> degree_tables \<Rightarrow> bool" where
  "in_step g t \<longleftrightarrow> dg_forward g = fst t \<and> (\<forall>n. snd t n = int (length (dg_reverse g n)))"

lemma in_step_dep:
  assumes "link_dep name dep g = Inr g'" and "in_step g t"
  shows "in_step g' (count_dep name dep t)"
  using assms
  by (cases t) (auto simp: link_dep_def count_dep_def in_step_def Let_def split: if_splits)

lemma in_step_deps:
  assumes "rfold (link_dep name) deps g = Inr g'" and "in_step g t"
  shows "in_step g' (fold (count_dep name) deps t)"
  using assms
proof (induction deps arbitrary: g t)
  case (Cons d deps)
  then obtain g1 where g1: "link_dep name d g = Inr g1" "rfold (link_dep name) deps g1 = Inr g'"
    by (auto simp: result_simps)
  from Cons.IH [OF g1(2) in_step_dep [OF g1(1) Cons.prems(2)]] show ?case by simp
qed simp

lemma in_step_repos:
  assumes "rfold link_repo nrs g = Inr g'" and "in_step g t"
  shows "in_step g' (fold count_repo nrs t)"
  using assms
proof (induction nrs arbitrary: g t)
  case (Cons nr nrs)
  then obtain g1 where "link_repo nr g = Inr g1" and rest: "rfold link_repo nrs g1 = Inr g'"
    by (auto simp: result_simps)
  then have "in_step g1 (count_repo nr t)"
    using in_step_deps Cons.prems(2) by (simp add: link_repo_def count_repo_def)
  with Cons.IH rest show ?case by simp
qed simp

lemma link_deps_reverse:
  "rfold (link_dep name) deps g = Inr g' \<Longrightarrow>
   dg_reverse g' = (dg_reverse g)(name := dg_reverse g name @ List.map dep_repo deps)"
proof (induction deps arbitrary: g)
  case (Cons d deps)
  then obtain g1 where g1: "link_dep name d g = Inr g1" "rfold (link_dep name) deps g1 = Inr g'"
    by (auto simp: result_simps)
  then have "dg_reverse g1 = (dg_reverse g)(name := dg_reverse g name @ [dep_repo d])"
    by (auto simp: link_dep_def Let_def split: if_splits)
  with Cons.IH [OF g1(2)] show ?case by (simp add: fun_eq_iff)
qed simp

lemma link_repos_reverse:
  assumes "rfold link_repo nrs g = Inr g'" and "distinct (List.map fst nrs)"
  shows "(n, rc) \<in> set nrs \<Longrightarrow> dg_reverse g' n = dg_reverse g n @ List.map dep_repo (rc_depends_on rc)"
    and "n \<notin> fst ` set nrs \<Longrightarrow> dg_reverse g' n = dg_reverse g n"
  using assms
proof (induction nrs arbitrary: g)
  case (Cons nr nrs)
  {
    case 1
    then obtain g1 where g1: "link_repo nr g = Inr g1" and rest: "rfold link_repo nrs g1 = Inr g'"
      by (auto simp: result_simps)
    have r1: "dg_reverse g1 = (dg_reverse g)(fst nr := dg_reverse g (fst nr) @ List.map dep_repo (rc_depends_on (snd nr)))"
      using link_deps_reverse g1 by (simp add: link_repo_def)
    show ?case
    proof (cases "nr = (n, rc)")
      case True
      with 1 have "n \<notin> fst ` set nrs" by auto
      with Cons.IH(2) rest 1 r1 True show ?thesis by simp
    next
      case False
      with 1 have mem: "(n, rc) \<in> set nrs" by auto
      then have "n \<in> fst ` set nrs" by (rule rev_image_eqI) simp
      with 1 have "fst nr \<noteq> n" by auto
      with Cons.IH(1) [OF mem rest] 1 r1 show ?thesis by simp
    qed
  next
    case 2
    then obtain g1 where g1: "link_repo nr g = Inr g1" and rest: "rfold link_repo nrs g1 = Inr g'"
      by (auto simp: result_simps)
    have "dg_reverse g1 = (dg_reverse g)(fst nr := dg_reverse g (fst nr) @ List.map dep_repo (rc_depends_on (snd nr)))"
      using link_deps_reverse g1 by (simp add: link_repo_def)
    with Cons.IH(2) rest 2 show ?case by simp
  }
qed simp_all

lemma in_step_git_root:
  assumes "in_step g t" and ok: "graph_ok g"
    and rev: "set (dg_reverse g (fst nr)) = dep_repo ` set (rc_depends_on (snd nr))"
  shows "in_step (link_git_root nr g) (count_git_root (dg_names g) nr t)"
proof -
  have mem: "a \<in> set (dg_reverse g b) \<longleftrightarrow> b \<in> set (dg_forward g a)" for a b
    using ok unfolding graph_ok_def by (metis count_list_0_iff)
  show ?thesis
  proof (cases "rc_git_root (snd nr)")
    case None
    with assms(1) show ?thesis by (cases t) (simp add: link_git_root_def count_git_root_def)
  next
    case (Some parent)
    have "(\<exists>dep \<in> set (rc_depends_on (snd nr)). dep_repo dep = parent)
        \<longleftrightarrow> parent \<in> set (dg_reverse g (fst nr))"
      using rev by auto
    with Some mem [of parent "fst nr"] assms(1) show ?thesis
      by (cases t) (auto simp: link_git_root_def count_git_root_def in_step_def Let_def)
  qed
qed

lemma link_git_root_reverse_other:
  "n \<noteq> fst nr \<Longrightarrow> dg_reverse (link_git_root nr g) n = dg_reverse g n"
  by (auto simp: link_git_root_def Let_def split: option.splits)

lemma in_step_git_roots:
  assumes "in_step g t" and "graph_ok g" and "distinct (List.map fst nrs)"
    and "\<And>n rc. (n, rc) \<in> set nrs \<Longrightarrow> set (dg_reverse g n) = dep_repo ` set (rc_depends_on rc)"
    and "fst ` set nrs \<subseteq> set (dg_names g)"
  shows "in_step (fold link_git_root nrs g) (fold (count_git_root (dg_names g)) nrs t)"
  using assms
proof (induction nrs arbitrary: g t)
  case (Cons nr nrs)
  have "in_step (link_git_root nr g) (count_git_root (dg_names g) nr t)"
    using Cons.prems by (intro in_step_git_root) (auto simp: Cons.prems(4) [of "fst nr" "snd nr"])
  moreover have "set (dg_reverse (link_git_root nr g) n) = dep_repo ` set (rc_depends_on rc)"
    if "(n, rc) \<in> set nrs" for n rc
  proof -
    from that have "n \<in> fst ` set nrs" by (rule rev_image_eqI) simp
    moreover from Cons.prems(3) have "fst nr \<notin> fst ` set nrs" by simp
    ultimately have "n \<noteq> fst nr" by blast
    with Cons.prems(4) [of n rc] that show ?thesis by (simp add: link_git_root_reverse_other)
  qed
  ultimately show ?case
    using Cons.IH [of "link_git_root nr g" "count_git_root (dg_names g) nr t"] Cons.prems(2,3)
      link_git_root_ok [OF Cons.prems(2), of nr] Cons.prems(5)
    by simp
qed simp

lemma dependency_graph_in_step:
  assumes "dependency_graph wc = Inr g" and "dict_ok (wc_repos wc)"
  shows "in_step g (degree_tables_of (wc_repos wc))"
proof -
  let ?names = "dict_keys (wc_repos wc)"
  let ?g0 = "\<lparr>dg_names = ?names, dg_forward = (\<lambda>_. []), dg_reverse = (\<lambda>_. [])\<rparr>"
  from assms(1) obtain g1 where g1: "rfold link_repo (wc_repos wc) ?g0 = Inr g1"
    and g: "g = fold link_git_root (wc_repos wc) g1"
    by (auto simp: dependency_graph_def result_simps)
  have d: "distinct (List.map fst (wc_repos wc))" using assms(2) by (simp add: dict_ok_def)
  have "in_step g1 (fold count_repo (wc_repos wc) (\<lambda>_. [], \<lambda>_. 0))"
    by (rule in_step_repos [OF g1]) (simp add: in_step_def)
  moreover have "graph_ok g1" "dg_names g1 = ?names"
    using rfold_link_repo_ok [OF g1] d by (auto simp: graph_ok_def)
  moreover from this have "fst ` set (wc_repos wc) \<subseteq> set (dg_names g1)" by simp
  moreover have "set (dg_reverse g1 n) = dep_repo ` set (rc_depends_on rc)"
    if "(n, rc) \<in> set (wc_repos wc)" for n rc
    using link_repos_reverse(1) [OF g1 d that] by simp
  ultimately show ?thesis
    unfolding g degree_tables_of_def using in_step_git_roots [OF _ _ d, of g1] by metis
qed

lemma refs_ok:
  assumes "validate_depends_on_refs wc = Inr ()" and "(name, rc) \<in> set (wc_repos wc)"
    and "dep \<in> set (rc_depends_on rc)"
  shows "dep_repo dep \<in> set (dict_keys (wc_repos wc))"
proof (rule ccontr)
  assume no: "dep_repo dep \<notin> set (dict_keys (wc_repos wc))"
  from bspec [OF assms(1) [unfolded validate_depends_on_refs_def rfold_unit_ok] assms(2)]
  have "rfold (\<lambda>dep _. if dep_repo dep \<notin> set (dict_keys (wc_repos wc))
      then Inl (Unknown_Dependency name (dep_repo dep)) else Inr ()) (rc_depends_on rc) () = Inr ()"
    by (simp only: prod.case)
  with assms(3) no show False unfolding rfold_unit_ok by auto
qed

lemma link_deps_total:
  "(\<forall>d \<in> set deps. dep_repo d \<in> set (dg_names g)) \<Longrightarrow>
   \<exists>g'. rfold (link_dep name) deps g = Inr g' \<and> dg_names g' = dg_names g"
proof (induction deps arbitrary: g)
  case (Cons d deps)
  then obtain g1 where "link_dep name d g = Inr g1" "dg_names g1 = dg_names g"
    by (simp add: link_dep_def Let_def)
  with Cons.IH [of g1] Cons.prems show ?case by auto
qed simp

lemma link_repos_total:
  "(\<forall>(n, rc) \<in> set nrs. \<forall>d \<in> set (rc_depends_on rc). dep_repo d \<in> set (dg_names g)) \<Longrightarrow>
   \<exists>g'. rfold link_repo nrs g = Inr g'"
proof (induction nrs arbitrary: g)
  case (Cons nr nrs)
  then obtain g1 where "link_repo nr g = Inr g1" "dg_names g1 = dg_names g"
    using link_deps_total [of "rc_depends_on (snd nr)" g "fst nr"]
    by (cases nr) (auto simp: link_repo_def)
  with Cons show ?case by auto
qed simp

lemma dependency_graph_total:
  assumes "validate_depends_on_refs wc = Inr ()"
  shows "\<exists>g. dependency_graph wc = Inr g"
proof -
  let ?g0 = "\<lparr>dg_names = dict_keys (wc_repos wc), dg_forward = (\<lambda>_. []), dg_reverse = (\<lambda>_. [])\<rparr>"
  have "\<exists>g'. rfold link_repo (wc_repos wc) ?g0 = Inr g'"
    using refs_ok [OF assms] by (intro link_repos_total) auto
  then show ?thesis by (auto simp: dependency_graph_def)
qed

text \<open>The first-in first-out count accepts exactly the graphs that have a rank function.\<close>

lemma no_cycles_ranked:
  assumes g: "dependency_graph wc = Inr g" and ok: "dict_ok (wc_repos wc)"
  shows "validate_no_cycles wc = Inr () \<longleftrightarrow> (\<exists>r. ranked (dg_reverse g) (set (dg_names g)) r)"
proof -
  let ?T = "set (dg_names g)"
  have gok: "graph_ok g" and names: "dg_names g = dict_keys (wc_repos wc)"
    using dependency_graph_ok [OF g ok] by auto
  obtain adj deg where t: "degree_tables_of (wc_repos wc) = (adj, deg)" by fastforce
  have adj: "adj = dg_forward g" and deg: "\<And>n. deg n = int (length (dg_reverse g n))"
    using dependency_graph_in_step [OF g ok] t by (auto simp: in_step_def)
  let ?q = "filter (\<lambda>n. deg n = 0) (dg_names g)"
  let ?res = "kahn False adj (dg_names g) deg ?q []"
  have all: "open_preds (dg_reverse g) ?T {} n = dg_reverse g n" for n
    using gok by (auto simp: open_preds_def graph_ok_def filter_id_conv)
  have "kahn_inv (dg_reverse g) ?T deg ?q []"
    using gok by (auto simp: kahn_inv_def deg all graph_ok_def)
  from kahn_inv_result [OF this graph_matching [OF gok], of False]
  obtain deg' where inv: "kahn_inv (dg_reverse g) ?T deg' [] ?res" by (auto simp: adj)
  have dist: "distinct ?res" "set ?res \<subseteq> ?T" "distinct (dg_names g)"
    using inv gok by (auto simp: kahn_inv_def graph_ok_def)
  have "validate_no_cycles wc = Inr () \<longleftrightarrow> length ?res = length (dg_names g)"
    by (simp add: validate_no_cycles_def t names Let_def)
  also have "\<dots> \<longleftrightarrow> set ?res = ?T"
    using dist by (metis card_subset_eq distinct_card finite_set)
  also have "\<dots> \<longleftrightarrow> (\<exists>r. ranked (dg_reverse g) ?T r)"
    using inv dist(1) ranked_all_done [OF inv] follows_preds_ranked [of "dg_reverse g" ?T ?res]
    by (auto simp: kahn_inv_def)
  finally show ?thesis .
qed

lemma ranked_subset: "ranked preds T r \<Longrightarrow> S \<subseteq> T \<Longrightarrow> ranked preds S r"
  by (auto simp: ranked_def)

lemma targets_subset: "targets g repos = Inr ts \<Longrightarrow> set ts \<subseteq> set (dg_names g)"
  by (auto simp: targets_def filter_empty_conv split: option.splits if_splits list.splits)

section \<open>A small workspace\<close>

text \<open>Three repositories: \<open>api\<close> needs \<open>schemas\<close>, \<open>web\<close> lives in a directory of \<open>api\<close>.\<close>

definition plain_repo :: repo_config where
  "plain_repo = \<lparr>rc_path = parse_path ''.'', rc_depends_on = [], rc_tasks = [], rc_not_applicable = [],
     rc_git_root = None, rc_bind_files = [], rc_base_branch = None, rc_expected_branch = None,
     rc_url = None, rc_has_capture = False, rc_run_profiles = [],
     rc_env_runner = None, rc_background = False, rc_healthcheck = None\<rparr>"

definition sample_config :: workspace_config where
  "sample_config = \<lparr>wc_default_scope = Scope_Name ''all'', wc_spec_storage = Committed,
     wc_evidence_storage = None, wc_assumption_gate_enforced = False, wc_require_approved_spec = False,
     wc_env_runner = None, wc_run_hosts = [], wc_hooks = [],
     wc_repos = [(''web'', plain_repo\<lparr>rc_git_root := Some ''api''\<rparr>),
       (''api'', plain_repo\<lparr>rc_depends_on := [\<lparr>dep_repo = ''schemas'', dep_type = Compile\<rparr>]\<rparr>),
       (''schemas'', plain_repo)]\<rparr>"

definition sample_graph :: dep_graph where
  "sample_graph = (case dependency_graph sample_config of Inr g \<Rightarrow> g
     | Inl e \<Rightarrow> \<lparr>dg_names = [], dg_forward = (\<lambda>_. []), dg_reverse = (\<lambda>_. [])\<rparr>)"

lemma sample_config_facts:
  "validate_depends_on_refs sample_config = Inr ()"
  "validate_no_cycles sample_config = Inr ()"
  "dict_ok (wc_repos sample_config)"
  by code_simp+

lemma sample_graph_eq: "dependency_graph sample_config = Inr sample_graph"
proof -
  obtain g where "dependency_graph sample_config = Inr g"
    using dependency_graph_total [OF sample_config_facts(1)] by blast
  then show ?thesis by (simp add: sample_graph_def)
qed

lemma complete_tiers:
  assumes "dependency_graph wc = Inr g" and "validate_no_cycles wc = Inr ()"
    and "dict_ok (wc_repos wc)" and "targets g repos = Inr ts" and "topo_tiers g repos = Inr tiers"
  shows "distinct (concat tiers)" and "set (concat tiers) = set ts"
proof -
  have ok: "graph_ok g" using dependency_graph_ok [OF assms(1,3)] by blast
  obtain r where "ranked (dg_reverse g) (set (dg_names g)) r"
    using no_cycles_ranked [OF assms(1,3)] assms(2) by blast
  then have r: "ranked (dg_reverse g) (set ts) r"
    using ranked_subset targets_subset [OF assms(4)] by blast
  have t: "tiered (dg_reverse g) (set ts) {} tiers"
    by (rule topo_tiers_tiered [OF ok assms(4,5)])
  from tiered_distinct [OF this] tiered_ranked_complete [OF this r]
  show "distinct (concat tiers)" "set (concat tiers) = set ts" by blast+
qed

section \<open>Properties\<close>

text \<open>C1: for a configuration that passed the reference and cycle validators, the dependency
  graph is built without an error, and \<open>topo_sort\<close> of any selection of known repositories
  returns each of them exactly once, every repository after all the selected repositories it
  depends on (explicitly or through \<open>git_root\<close>).\<close>

theorem topo_sort_of_valid_config:
  assumes "validate_depends_on_refs wc = Inr ()" and "validate_no_cycles wc = Inr ()"
    and "dict_ok (wc_repos wc)"
  shows "\<exists>g. dependency_graph wc = Inr g \<and> (\<forall>repos ts. targets g repos = Inr ts \<longrightarrow>
    (\<exists>res. topo_sort g repos = Inr res \<and> distinct res \<and> set res = set ts
       \<and> follows_preds (dg_reverse g) (set ts) res))"
proof -
  obtain g where g: "dependency_graph wc = Inr g" using dependency_graph_total assms(1) by blast
  have ok: "graph_ok g" using dependency_graph_ok [OF g assms(3)] by blast
  obtain r where r: "ranked (dg_reverse g) (set (dg_names g)) r"
    using no_cycles_ranked [OF g assms(3)] assms(2) by blast
  have "\<exists>res. topo_sort g repos = Inr res \<and> distinct res \<and> set res = set ts
      \<and> follows_preds (dg_reverse g) (set ts) res" if ts: "targets g repos = Inr ts" for repos ts
  proof -
    obtain res where res: "topo_sort g repos = Inr res" using ts by (simp add: topo_sort_def Let_def)
    from topo_sort_follows [OF ok ts res]
      topo_sort_complete [OF ok ts res ranked_subset [OF r targets_subset [OF ts]]] res
    show ?thesis by blast
  qed
  with g show ?thesis by blast
qed

theorem topo_sort_of_valid_config_witness:
  "\<exists>g res. dependency_graph sample_config = Inr g \<and> topo_sort g None = Inr res
     \<and> set res = {''web'', ''api'', ''schemas''}"
proof -
  obtain g where g: "dependency_graph sample_config = Inr g"
    and all: "\<And>repos ts. targets g repos = Inr ts \<Longrightarrow> \<exists>res. topo_sort g repos = Inr res \<and> set res = set ts"
    using topo_sort_of_valid_config [OF sample_config_facts] by blast
  have "targets g None = Inr [''web'', ''api'', ''schemas'']"
    using dependency_graph_ok [OF g sample_config_facts(3)]
    by (simp add: targets_def sample_config_def)
  from all [OF this] g show ?thesis by auto
qed

text \<open>C2: \<open>topo_tiers\<close> of any selection partitions it: each tier is exactly the selected
  repositories whose selected dependencies all lie in earlier tiers, sorted by name, and for a
  validated configuration the tiers cover the selection.\<close>

theorem topo_tiers_of_valid_config:
  assumes "dependency_graph wc = Inr g" and "validate_no_cycles wc = Inr ()"
    and "dict_ok (wc_repos wc)" and "targets g repos = Inr ts" and "topo_tiers g repos = Inr tiers"
  shows "tiered (dg_reverse g) (set ts) {} tiers \<and> distinct (concat tiers)
    \<and> set (concat tiers) = set ts"
proof -
  have "graph_ok g" using dependency_graph_ok [OF assms(1,3)] by blast
  from topo_tiers_tiered [OF this assms(4,5)] complete_tiers [OF assms] show ?thesis by blast
qed

theorem topo_tiers_of_valid_config_witness:
  "set (concat [[''schemas''], [''api'']]) = set [''schemas'', ''api'']"
proof -
  have t: "targets sample_graph (Some [''schemas'', ''api'']) = Inr [''schemas'', ''api'']"
    and tiers: "topo_tiers sample_graph (Some [''schemas'', ''api'']) = Inr [[''schemas''], [''api'']]"
    by code_simp+
  from topo_tiers_of_valid_config [OF sample_graph_eq sample_config_facts(2,3) t tiers]
  show ?thesis by blast
qed

text \<open>C3: the cycle validator is exact: once the references are valid, it accepts a
  configuration iff no repository transitively depends on itself in the dependency graph.\<close>

theorem validate_no_cycles_exact:
  assumes "dependency_graph wc = Inr g" and "dict_ok (wc_repos wc)"
  shows "validate_no_cycles wc = Inr () \<longleftrightarrow> acyclic (edges (dg_names g) (dg_reverse g))"
proof
  let ?E = "edges (dg_names g) (dg_reverse g)"
  have ok: "graph_ok g" using dependency_graph_ok [OF assms] by blast
  have E: "?E = {(n, d). n \<in> set (dg_names g) \<and> d \<in> set (dg_reverse g n) \<inter> set (dg_names g)}"
    using ok by (auto simp: edges_def graph_ok_def)
  {
    assume "validate_no_cycles wc = Inr ()"
    then obtain r where r: "ranked (dg_reverse g) (set (dg_names g)) r"
      using no_cycles_ranked [OF assms] by blast
    have "?E \<subseteq> (measure r)\<inverse>" using r unfolding E ranked_def by auto
    moreover have "acyclic ((measure r)\<inverse>)" by (simp add: wf_acyclic)
    ultimately show "acyclic ?E" by (rule acyclic_subset [rotated])
  next
    assume "acyclic ?E"
    moreover have "finite ?E"
      unfolding E by (rule finite_subset [of _ "set (dg_names g) \<times> set (dg_names g)"]) auto
    ultimately have "wf (?E\<inverse>)" by (rule finite_acyclic_wf_converse [rotated])
    define r where "r n = card {d. (n, d) \<in> ?E\<^sup>+}" for n
    have fin: "finite {d. (n, d) \<in> ?E\<^sup>+}" for n
    proof (rule finite_subset)
      show "{d. (n, d) \<in> ?E\<^sup>+} \<subseteq> set (dg_names g)"
        unfolding E by (auto elim: tranclE)
    qed simp
    have "r d < r n" if "(n, d) \<in> ?E" for n d
      unfolding r_def
    proof (rule psubset_card_mono [OF fin], rule psubsetI)
      show "{x. (d, x) \<in> ?E\<^sup>+} \<subseteq> {x. (n, x) \<in> ?E\<^sup>+}"
        using that by (auto intro: trancl_into_trancl2)
      show "{x. (d, x) \<in> ?E\<^sup>+} \<noteq> {x. (n, x) \<in> ?E\<^sup>+}"
        using that \<open>acyclic ?E\<close> unfolding acyclic_def by blast
    qed
    then have "ranked (dg_reverse g) (set (dg_names g)) r"
      unfolding ranked_def E by blast
    then show "validate_no_cycles wc = Inr ()" using no_cycles_ranked [OF assms] by blast
  }
qed

theorem validate_no_cycles_exact_witness:
  "acyclic (edges (dg_names sample_graph) (dg_reverse sample_graph))"
  using validate_no_cycles_exact [OF sample_graph_eq sample_config_facts(3)] sample_config_facts(2)
  by blast



end
