(* ===== verification/Task_State.thy ===== *)
theory Task_State
  imports Graph_Search
begin

text \<open>
  The task model of core/state.py: \<open>TestResult\<close>, \<open>DependencyEdge\<close>, \<open>Task\<close>, the mapping of
  slugs to tasks that is \<open>WorkspaceState.tasks\<close>, Python's equality on them, and
  \<open>StateManager._dependency_order\<close>. A \<open>Path\<close> is represented by its canonical text.
\<close>

section \<open>Data\<close>

datatype test_status = Pass | Fail | Skip

datatype task_phase = Plan | Dev | Review | Run

record test_result =
  tr_status :: test_status
  tr_at :: dt

record dependency_edge =
  upstream_slug :: str
  de_created_at :: dt

record task =
  tk_slug :: str
  tk_description :: str
  tk_phase :: task_phase
  tk_created_at :: dt
  tk_affected_repos :: "str list"
  tk_worktrees :: "str dict"
  tk_branch :: str
  tk_test_results :: "test_result dict"
  tk_blocked_reason :: "str option"
  tk_blocked_at :: "dt option"
  tk_pr_urls :: "str dict"
  tk_finished_at :: "dt option"
  tk_phase_entered_at :: "dt option"
  tk_last_activity_at :: "dt option"
  tk_active_repo :: "str option"
  tk_last_switched_at_sha :: "str dict dict"
  tk_test_iteration :: int
  tk_base_branch :: "str option"
  tk_base_override :: "str option"
  tk_passive_repos :: "str set"
  tk_spec_id :: "str option"
  tk_depends_on :: "dependency_edge list"
  tk_work_item_id :: "str option"

type_synonym tasks = "task dict"

section \<open>Equality\<close>

text \<open>
  Python compares dictionaries without regard to order, and aware datetimes by instant;
  a naive datetime equals no aware one.
\<close>

definition dict_eq :: "('v \<Rightarrow> 'v \<Rightarrow> bool) \<Rightarrow> 'v dict \<Rightarrow> 'v dict \<Rightarrow> bool" where
  "dict_eq eq d e \<longleftrightarrow> length d = length e \<and>
     (\<forall>kv \<in> set d. case map_of e (fst kv) of None \<Rightarrow> False | Some w \<Rightarrow> eq (snd kv) w)"

definition dt_eq :: "dt \<Rightarrow> dt \<Rightarrow> bool" where
  "dt_eq a b \<longleftrightarrow> is_naive a = is_naive b \<and> instant a = instant b"

definition dt_opt_eq :: "dt option \<Rightarrow> dt option \<Rightarrow> bool" where
  "dt_opt_eq a b \<longleftrightarrow> rel_option dt_eq a b"

definition edge_eq :: "dependency_edge \<Rightarrow> dependency_edge \<Rightarrow> bool" where
  "edge_eq a b \<longleftrightarrow> upstream_slug a = upstream_slug b \<and> dt_eq (de_created_at a) (de_created_at b)"

definition edges_eq :: "dependency_edge list \<Rightarrow> dependency_edge list \<Rightarrow> bool" where
  "edges_eq xs ys \<longleftrightarrow> list_all2 edge_eq xs ys"

definition result_eq :: "test_result \<Rightarrow> test_result \<Rightarrow> bool" where
  "result_eq a b \<longleftrightarrow> tr_status a = tr_status b \<and> dt_eq (tr_at a) (tr_at b)"

definition task_eq :: "task \<Rightarrow> task \<Rightarrow> bool" where
  "task_eq a b \<longleftrightarrow> tk_slug a = tk_slug b \<and> tk_description a = tk_description b
     \<and> tk_phase a = tk_phase b \<and> dt_eq (tk_created_at a) (tk_created_at b)
     \<and> tk_affected_repos a = tk_affected_repos b
     \<and> dict_eq (=) (tk_worktrees a) (tk_worktrees b) \<and> tk_branch a = tk_branch b
     \<and> dict_eq result_eq (tk_test_results a) (tk_test_results b)
     \<and> tk_blocked_reason a = tk_blocked_reason b
     \<and> dt_opt_eq (tk_blocked_at a) (tk_blocked_at b)
     \<and> dict_eq (=) (tk_pr_urls a) (tk_pr_urls b)
     \<and> dt_opt_eq (tk_finished_at a) (tk_finished_at b)
     \<and> dt_opt_eq (tk_phase_entered_at a) (tk_phase_entered_at b)
     \<and> dt_opt_eq (tk_last_activity_at a) (tk_last_activity_at b)
     \<and> tk_active_repo a = tk_active_repo b
     \<and> dict_eq (dict_eq (=)) (tk_last_switched_at_sha a) (tk_last_switched_at_sha b)
     \<and> tk_test_iteration a = tk_test_iteration b \<and> tk_base_branch a = tk_base_branch b
     \<and> tk_base_override a = tk_base_override b \<and> tk_passive_repos a = tk_passive_repos b
     \<and> tk_spec_id a = tk_spec_id b \<and> edges_eq (tk_depends_on a) (tk_depends_on b)
     \<and> tk_work_item_id a = tk_work_item_id b"

section \<open>Dependency order\<close>

text \<open>The upstream slugs of the task stored under a key.\<close>

definition upstreams :: "tasks \<Rightarrow> str \<Rightarrow> str list" where
  "upstreams ts s = (case map_of ts s of None \<Rightarrow> []
     | Some t \<Rightarrow> List.map upstream_slug (tk_depends_on t))"

definition ready_slugs :: "tasks \<Rightarrow> str list \<Rightarrow> str list" where
  "ready_slugs ts pending =
     sort (filter (\<lambda>s. \<forall>u \<in> set (upstreams ts s). u \<notin> set pending) pending)"

function order_loop :: "tasks \<Rightarrow> str list \<Rightarrow> str list \<Rightarrow> exn + str list" where
  "order_loop ts pending ordered =
     (if pending = [] then Inr ordered
      else let ready = ready_slugs ts pending
           in if ready = [] then Inl (ValueError (''task dependency cycle: '' @ join '', '' (sort pending)))
              else order_loop ts (filter (\<lambda>s. s \<notin> set ready) pending) (ordered @ ready))"
  by pat_completeness auto
termination
proof (relation "measure (\<lambda>(ts, pending, ordered). length pending)")
  fix ts :: tasks and pending ordered ready
  assume "pending \<noteq> []" and ready: "ready = ready_slugs ts pending" and "ready \<noteq> []"
  obtain s where "s \<in> set ready" using \<open>ready \<noteq> []\<close> last_in_set by blast
  then have s: "s \<in> set pending" by (simp add: ready ready_slugs_def)
  have "length (filter (\<lambda>s. s \<notin> set ready) pending) < length (filter (\<lambda>_. True) pending)"
    by (rule length_filter_less [OF s]) (use \<open>s \<in> set ready\<close> in auto)
  then show "((ts, filter (\<lambda>s. s \<notin> set ready) pending, ordered @ ready), ts, pending, ordered)
      \<in> measure (\<lambda>(ts, pending, ordered). length pending)" by simp
qed auto

declare order_loop.simps [simp del]

lemma order_loop_done: "order_loop ts [] ordered = Inr ordered"
  by (simp add: order_loop.simps)

lemma order_loop_step:
  assumes "pending \<noteq> []" and "ready_slugs ts pending \<noteq> []"
  shows "order_loop ts pending ordered =
    order_loop ts (filter (\<lambda>s. s \<notin> set (ready_slugs ts pending)) pending)
      (ordered @ ready_slugs ts pending)"
  by (subst order_loop.simps) (simp only: Let_def assms if_False)

lemma order_loop_stuck:
  assumes "pending \<noteq> []" and "ready_slugs ts pending = []"
  shows "order_loop ts pending ordered =
    Inl (ValueError (''task dependency cycle: '' @ join '', '' (sort pending)))"
  by (subst order_loop.simps) (simp only: Let_def assms if_False if_True simp_thms)

text \<open>\<open>StateManager._dependency_order\<close>; its first loop reports the first key that is not the
  slug of its task.\<close>

definition dependency_order :: "tasks \<Rightarrow> exn + str list" where
  "dependency_order ts = (case filter (\<lambda>kt. fst kt \<noteq> tk_slug (snd kt)) ts of
       kt # _ \<Rightarrow> Inl (ValueError (''task mapping key '' @ quoted (fst kt)
                  @ '' does not match slug '' @ quoted (tk_slug (snd kt))))
     | [] \<Rightarrow> order_loop ts (dict_keys ts) [])"

definition keyed :: "tasks \<Rightarrow> bool" where
  "keyed ts \<longleftrightarrow> (\<forall>kt \<in> set ts. fst kt = tk_slug (snd kt))"

definition order_inv :: "tasks \<Rightarrow> str list \<Rightarrow> str list \<Rightarrow> bool" where
  "order_inv ts pending ordered \<longleftrightarrow> distinct (pending @ ordered)
     \<and> set (pending @ ordered) = set (dict_keys ts)
     \<and> (\<forall>i < length ordered. \<forall>u \<in> set (upstreams ts (ordered ! i)).
          u \<in> set (dict_keys ts) \<longrightarrow> u \<in> set (take i ordered))"

lemma ready_subset: "set (ready_slugs ts pending) \<subseteq> set pending"
  by (auto simp: ready_slugs_def)

lemma ready_slugsD:
  "s \<in> set (ready_slugs ts pending) \<Longrightarrow> u \<in> set (upstreams ts s) \<Longrightarrow> u \<notin> set pending"
  by (simp add: ready_slugs_def)

lemma order_inv_step:
  assumes inv: "order_inv ts pending ordered" and ready: "ready = ready_slugs ts pending"
  shows "order_inv ts (filter (\<lambda>s. s \<notin> set ready) pending) (ordered @ ready)"
proof -
  let ?rest = "filter (\<lambda>s. s \<notin> set ready) pending"
  have dp: "distinct pending" and dd: "distinct ordered" and dj: "set pending \<inter> set ordered = {}"
    and ks: "set pending \<union> set ordered = set (dict_keys ts)"
    using inv unfolding order_inv_def by (simp_all only: distinct_append set_append)
  have dr: "distinct ready" using dp by (simp add: ready ready_slugs_def)
  have sub: "set ready \<subseteq> set pending" using ready_subset by (simp add: ready)
  have "distinct (?rest @ ordered @ ready)"
    unfolding distinct_append set_filter set_append
    using dp dd dr dj sub by (intro conjI distinct_filter) blast+
  moreover have "set (?rest @ ordered @ ready) = set (dict_keys ts)"
    using ks sub by (simp only: set_append set_filter) blast
  moreover have "\<forall>i < length (ordered @ ready). \<forall>u \<in> set (upstreams ts ((ordered @ ready) ! i)).
      u \<in> set (dict_keys ts) \<longrightarrow> u \<in> set (take i (ordered @ ready))"
  proof (intro allI impI ballI)
    fix i u
    assume i: "i < length (ordered @ ready)" and u: "u \<in> set (upstreams ts ((ordered @ ready) ! i))"
      and key: "u \<in> set (dict_keys ts)"
    show "u \<in> set (take i (ordered @ ready))"
    proof (cases "i < length ordered")
      case True
      then show ?thesis using inv u key by (simp add: order_inv_def nth_append)
    next
      case False
      with i have "(ordered @ ready) ! i \<in> set (ready_slugs ts pending)"
        by (simp add: nth_append ready)
      from ready_slugsD [OF this u] have "u \<notin> set pending" .
      with key ks have "u \<in> set ordered" by blast
      with False show ?thesis by simp
    qed
  qed
  ultimately show ?thesis unfolding order_inv_def by (simp only: simp_thms)
qed

lemma order_loop_inv:
  "order_loop ts pending ordered = Inr res \<Longrightarrow> order_inv ts pending ordered \<Longrightarrow> order_inv ts [] res"
proof (induction ts pending ordered rule: order_loop.induct)
  case (1 ts pending ordered)
  show ?case
  proof (cases "pending = []")
    case True
    with "1.prems" show ?thesis by (simp add: order_loop_done)
  next
    case False
    with "1.prems"(1) have ne: "ready_slugs ts pending \<noteq> []"
      using order_loop_stuck by fastforce
    have "order_loop ts (filter (\<lambda>s. s \<notin> set (ready_slugs ts pending)) pending)
        (ordered @ ready_slugs ts pending) = Inr res"
      using "1.prems"(1) order_loop_step [OF False ne, of ordered] by argo
    from "1.IH" [OF False refl ne this order_inv_step [OF "1.prems"(2) refl]] show ?thesis .
  qed
qed

text \<open>The loop can only stop short on a cycle.\<close>

lemma order_loop_total:
  assumes "acyclic (edges (dict_keys ts) (upstreams ts))" and "set pending \<subseteq> set (dict_keys ts)"
  shows "\<exists>res. order_loop ts pending ordered = Inr res"
  using assms
proof (induction ts pending ordered rule: order_loop.induct)
  case (1 ts pending ordered)
  show ?case
  proof (cases "pending = []")
    case True
    then show ?thesis by (simp add: order_loop_done)
  next
    case False
    let ?E = "{(u, s). s \<in> set pending \<and> u \<in> set pending \<and> u \<in> set (upstreams ts s)}"
    have "?E \<subseteq> (edges (dict_keys ts) (upstreams ts))\<inverse>" using "1.prems"(2) by (auto simp: edges_def)
    moreover have "acyclic ((edges (dict_keys ts) (upstreams ts))\<inverse>)"
      using "1.prems"(1) by (simp only: acyclic_converse)
    ultimately have "acyclic ?E" by (rule acyclic_subset [rotated])
    moreover have "finite ?E"
      by (rule finite_subset [of _ "set pending \<times> set pending"]) auto
    ultimately have "wf ?E" by (rule finite_acyclic_wf [rotated])
    moreover obtain p where "p \<in> set pending" using False by (cases pending) auto
    ultimately obtain s where s: "s \<in> set pending" "\<And>u. (u, s) \<in> ?E \<Longrightarrow> u \<notin> set pending"
      by (metis (no_types, lifting) wfE_min)
    then have "\<forall>u \<in> set (upstreams ts s). u \<notin> set pending" by blast
    with s(1) have "s \<in> set (ready_slugs ts pending)" by (simp add: ready_slugs_def)
    then have ne: "ready_slugs ts pending \<noteq> []" by (metis empty_iff empty_set)
    have "set (filter (\<lambda>s. s \<notin> set (ready_slugs ts pending)) pending) \<subseteq> set (dict_keys ts)"
      using "1.prems"(2) by auto
    from "1.IH" [OF False refl ne "1.prems"(1) this] show ?thesis
      by (simp only: order_loop_step [OF False ne])
  qed
qed

end
