(* ===== verification/Task_Graph.thy ===== *)
theory Task_Graph
  imports Task_State
begin

text \<open>
  Graph queries over task dependencies (core/task_graph.py): the transitive upstream and
  downstream sets, the search for the cycle an edge would close, and readiness. The task
  relation \<open>depends ts\<close> goes from a task to its upstreams.
\<close>

definition depends :: "tasks \<Rightarrow> (str \<times> str) set" where
  "depends ts = edges (dict_keys ts) (upstreams ts)"

lemma upstreams_not_key: "s \<notin> set (dict_keys ts) \<Longrightarrow> upstreams ts s = []"
  by (simp add: upstreams_def map_of_eq_None_iff [THEN iffD2])

lemma depends_iff: "(s, u) \<in> depends ts \<longleftrightarrow> u \<in> set (upstreams ts s)"
  using upstreams_not_key [of s ts]
  by (cases "s \<in> set (dict_keys ts)") (simp_all add: depends_def edges_def)

section \<open>Upstream\<close>

text \<open>
  One loop body: every edge of the popped node that leads to an unvisited slug marks it and
  pushes it. The stack has its top first. A popped slug that is no task has no edges.
\<close>

fun push_fresh :: "str list \<Rightarrow> str list \<times> str list \<Rightarrow> str list \<times> str list" where
  "push_fresh [] vs = vs"
| "push_fresh (u # us) (visited, stack) =
     push_fresh us (if u \<in> set visited then (visited, stack) else (u # visited, u # stack))"

definition known :: "tasks \<Rightarrow> str list" where
  "known ts = concat (List.map (upstreams ts) (dict_keys ts))"

lemma upstreams_known: "set (upstreams ts s) \<subseteq> set (known ts)"
  using upstreams_not_key [of s ts] unfolding known_def by (cases "s \<in> set (dict_keys ts)") auto

definition left :: "tasks \<Rightarrow> str list \<Rightarrow> nat" where
  "left ts visited = card (set (known ts) - set visited)"

lemma push_fresh_left:
  assumes "push_fresh us (visited, stack) = (visited', stack')" and "set us \<subseteq> set (known ts)"
  shows "left ts visited' + length stack' = left ts visited + length stack"
  using assms
proof (induction us arbitrary: visited stack)
  case (Cons u us)
  show ?case
  proof (cases "u \<in> set visited")
    case True
    with Cons.prems(1) have "push_fresh us (visited, stack) = (visited', stack')"
      by (simp only: push_fresh.simps if_True)
    from Cons.IH [OF this] Cons.prems(2) show ?thesis by simp
  next
    case False
    let ?W = "set (known ts) - set visited"
    have "u \<in> ?W" using False Cons.prems(2) by simp
    then have "card ?W = Suc (card (?W - {u}))" by (simp only: card_Suc_Diff1 finite_Diff finite_set)
    moreover have "?W - {u} = set (known ts) - set (u # visited)" by auto
    ultimately have l: "left ts visited = Suc (left ts (u # visited))" by (simp only: left_def)
    from False Cons.prems(1) have "push_fresh us (u # visited, u # stack) = (visited', stack')"
      by (simp only: push_fresh.simps if_False)
    from Cons.IH [OF this] Cons.prems(2) l show ?thesis by simp
  qed
qed simp

function upstream_loop :: "tasks \<Rightarrow> str list \<Rightarrow> str list \<Rightarrow> str list" where
  "upstream_loop ts visited [] = visited"
| "upstream_loop ts visited (n # stack) =
     (let vs = push_fresh (upstreams ts n) (visited, stack) in upstream_loop ts (fst vs) (snd vs))"
  by pat_completeness auto
termination
proof (relation "measure (\<lambda>(ts, visited, stack). left ts visited + length stack)")
  fix ts :: tasks and visited n stack vs
  assume eq: "vs = push_fresh (upstreams ts n) (visited, stack)"
  obtain v s where vs: "vs = (v, s)" by (cases vs)
  from push_fresh_left [OF eq [unfolded vs, symmetric] upstreams_known]
  show "((ts, fst vs, snd vs), ts, visited, n # stack)
      \<in> measure (\<lambda>(ts, visited, stack). left ts visited + length stack)" by (simp add: vs)
qed simp

lemma upstream_loop_Cons:
  "push_fresh (upstreams ts n) (visited, stack) = (v, s) \<Longrightarrow>
   upstream_loop ts visited (n # stack) = upstream_loop ts v s"
  by (simp only: upstream_loop.simps Let_def fst_conv snd_conv)

declare upstream_loop.simps(2) [simp del]

definition transitive_upstream :: "tasks \<Rightarrow> str \<Rightarrow> str set" where
  "transitive_upstream ts slug = (if slug \<notin> set (dict_keys ts) then {}
     else set (upstream_loop ts [] [slug]))"

text \<open>What one body establishes: the edges are visited, and what is new lies on the stack.\<close>

lemma push_fresh_sets:
  "push_fresh us (visited, stack) = (visited', stack') \<Longrightarrow>
   set visited' = set visited \<union> set us
   \<and> set stack' = set stack \<union> (set us - set visited)"
proof (induction us arbitrary: visited stack)
  case (Cons u us)
  show ?case
  proof (cases "u \<in> set visited")
    case True
    with Cons.prems have "push_fresh us (visited, stack) = (visited', stack')"
      by (simp only: push_fresh.simps if_True)
    from Cons.IH [OF this] True show ?thesis by (simp add: insert_absorb insert_Diff_if)
  next
    case False
    with Cons.prems have "push_fresh us (u # visited, u # stack) = (visited', stack')"
      by (simp only: push_fresh.simps if_False)
    from Cons.IH [OF this] False show ?thesis by (simp add: insert_Diff_if) blast
  qed
qed simp

lemma upstream_loop_mono: "set visited \<subseteq> set (upstream_loop ts visited stack)"
proof (induction ts visited stack rule: upstream_loop.induct)
  case (2 ts visited n stack)
  obtain v s where vs: "push_fresh (upstreams ts n) (visited, stack) = (v, s)"
    by (rule prod.exhaust)
  from "2.IH" [OF vs [symmetric]] have "set v \<subseteq> set (upstream_loop ts v s)" by simp
  with push_fresh_sets [OF vs] show ?case unfolding upstream_loop_Cons [OF vs] by blast
qed simp

lemma upstream_loop_sound:
  assumes "set visited \<subseteq> R" and "depends ts `` (set stack \<union> R) \<subseteq> R"
  shows "set (upstream_loop ts visited stack) \<subseteq> R"
  using assms
proof (induction ts visited stack rule: upstream_loop.induct)
  case (2 ts visited n stack)
  obtain v s where vs: "push_fresh (upstreams ts n) (visited, stack) = (v, s)"
    by (rule prod.exhaust)
  note sets = push_fresh_sets [OF vs]
  have sub: "set (upstreams ts n) \<subseteq> R"
    using "2.prems"(2) depends_iff [of n _ ts] by (auto simp: subset_iff Image_iff)
  with sets "2.prems"(1) have "set v \<subseteq> R" by blast
  moreover have "set s \<subseteq> set stack \<union> R" using sets sub by blast
  then have "depends ts `` (set s \<union> R) \<subseteq> R" using "2.prems"(2) by (simp add: Image_Un) blast
  ultimately have "set (upstream_loop ts v s) \<subseteq> R" using "2.IH" [OF vs [symmetric]] by simp
  then show ?case unfolding upstream_loop_Cons [OF vs] .
qed simp

lemma upstream_loop_closed:
  assumes "depends ts `` (set visited - set stack) \<subseteq> set visited"
  shows "depends ts `` (set stack \<union> set (upstream_loop ts visited stack))
      \<subseteq> set (upstream_loop ts visited stack)"
  using assms
proof (induction ts visited stack rule: upstream_loop.induct)
  case (1 ts visited)
  then show ?case by simp
next
  case (2 ts visited n stack)
  obtain v s where vs: "push_fresh (upstreams ts n) (visited, stack) = (v, s)"
    by (rule prod.exhaust)
  note sets = push_fresh_sets [OF vs]
  have n: "depends ts `` {n} \<subseteq> set v" using sets depends_iff [of n _ ts] by blast
  have "depends ts `` (set v - set s) \<subseteq> set v"
  proof
    fix u assume "u \<in> depends ts `` (set v - set s)"
    then obtain x where x: "x \<in> set v" "x \<notin> set s" "(x, u) \<in> depends ts" by blast
    show "u \<in> set v"
    proof (cases "x = n")
      case True
      with x n show ?thesis by blast
    next
      case False
      from x sets have "x \<in> set visited" "x \<notin> set (n # stack)" using False by (blast, simp)
      with "2.prems" x(3) have "u \<in> set visited" by blast
      with sets show ?thesis by simp
    qed
  qed
  with "2.IH" [OF vs [symmetric]]
  have IH: "depends ts `` (set s \<union> set (upstream_loop ts v s)) \<subseteq> set (upstream_loop ts v s)" by simp
  have "depends ts `` {n} \<subseteq> set (upstream_loop ts v s)" using n upstream_loop_mono by blast
  moreover have "set stack \<subseteq> set s" using sets by blast
  ultimately have "depends ts `` (set (n # stack) \<union> set (upstream_loop ts v s))
      \<subseteq> set (upstream_loop ts v s)" using IH by (simp add: Image_iff subset_iff) blast
  then show ?case unfolding upstream_loop_Cons [OF vs] .
qed

lemma transitive_upstream_trancl:
  "transitive_upstream ts slug = {u. (slug, u) \<in> (depends ts)\<^sup>+}"
proof (cases "slug \<in> set (dict_keys ts)")
  case False
  then have "\<And>u. (slug, u) \<notin> depends ts" by (simp add: depends_iff upstreams_not_key)
  then have "\<And>u. (slug, u) \<notin> (depends ts)\<^sup>+" by (meson tranclD)
  with False show ?thesis by (simp add: transitive_upstream_def)
next
  case True
  let ?V = "set (upstream_loop ts [] [slug])"
  have "depends ts `` (insert slug ?V) \<subseteq> ?V" using upstream_loop_closed [of ts "[]" "[slug]"] by simp
  then have step: "u \<in> ?V" if "x \<in> insert slug ?V" "(x, u) \<in> depends ts" for x u
    using that by blast
  have "u \<in> ?V" if "(slug, u) \<in> (depends ts)\<^sup>+" for u
    using that by (induction rule: trancl_induct) (use step in blast)+
  moreover have "?V \<subseteq> {u. (slug, u) \<in> (depends ts)\<^sup>+}"
    by (rule upstream_loop_sound) (auto intro: trancl_into_trancl)
  ultimately show ?thesis using True by (auto simp: transitive_upstream_def)
qed

section \<open>Downstream\<close>

definition downstream_table :: "tasks \<Rightarrow> str \<Rightarrow> str list" where
  "downstream_table ts u = concat (List.map
     (\<lambda>kt. List.map (\<lambda>_. fst kt) (filter (\<lambda>e. upstream_slug e = u) (tk_depends_on (snd kt)))) ts)"

definition downstream_of :: "tasks \<Rightarrow> str \<Rightarrow> str set" where
  "downstream_of ts slug = dfs (dict_keys ts) (downstream_table ts)
     (rev (neighbours (dict_keys ts) (downstream_table ts) slug)) {}"

lemma downstream_table_iff:
  assumes "dict_ok ts"
  shows "s \<in> set (downstream_table ts u) \<longleftrightarrow> (s, u) \<in> depends ts"
proof -
  have "s \<in> set (downstream_table ts u) \<longleftrightarrow>
      (\<exists>t. (s, t) \<in> set ts \<and> u \<in> upstream_slug ` set (tk_depends_on t))"
    by (force simp: downstream_table_def)
  also have "\<dots> \<longleftrightarrow> (\<exists>t. map_of ts s = Some t \<and> u \<in> upstream_slug ` set (tk_depends_on t))"
    using dict_ok_map_of [OF assms] by simp
  also have "\<dots> \<longleftrightarrow> (s, u) \<in> depends ts"
    by (cases "map_of ts s") (simp_all add: depends_iff upstreams_def)
  finally show ?thesis .
qed

text \<open>An edge to a slug that is no task is not in the table.\<close>

lemma downstream_of_trancl:
  assumes "dict_ok ts" and "slug \<in> set (dict_keys ts)"
  shows "downstream_of ts slug = {s. (s, slug) \<in> (depends ts)\<^sup>+}"
proof -
  let ?D = "edges (dict_keys ts) (downstream_table ts)"
  have D: "?D = (depends ts)\<inverse> \<inter> (set (dict_keys ts) \<times> UNIV)"
    using downstream_table_iff [OF assms(1)] by (auto simp: edges_def)
  have key: "(s, u) \<in> depends ts \<Longrightarrow> s \<in> set (dict_keys ts)" for s u
    by (auto simp: depends_def edges_def)
  have "(slug, s) \<in> ?D\<^sup>+ \<longleftrightarrow> (s, slug) \<in> (depends ts)\<^sup>+" for s
  proof
    assume "(slug, s) \<in> ?D\<^sup>+"
    then have "(slug, s) \<in> ((depends ts)\<inverse>)\<^sup>+" unfolding D by (rule trancl_mono) simp
    then show "(s, slug) \<in> (depends ts)\<^sup>+" by (simp add: trancl_converse)
  next
    assume "(s, slug) \<in> (depends ts)\<^sup>+"
    then show "(slug, s) \<in> ?D\<^sup>+"
    proof (induction rule: converse_trancl_induct)
      case (base y)
      with assms(2) have "(slug, y) \<in> ?D" unfolding D by blast
      then show ?case ..
    next
      case (step y z)
      from step.hyps(2) have "z \<in> set (dict_keys ts)" using key by (meson tranclD)
      with step.hyps(1) have "(z, y) \<in> ?D" unfolding D by blast
      with step.IH show ?case by (rule trancl_into_trancl)
    qed
  qed
  then show ?thesis using dfs_trancl [OF assms(2)] assms(2)
    by (simp add: downstream_of_def neighbours_def)
qed

section \<open>The cycle an edge would close\<close>

text \<open>
  The body of the search at a popped node \<open>n\<close>: \<open>None\<close> when an edge leads back to the
  downstream task, otherwise the new parent table (newest entry first) and stack.
\<close>

fun scan_edges :: "str \<Rightarrow> str \<Rightarrow> str list \<Rightarrow> str dict \<Rightarrow> str list \<Rightarrow> (str dict \<times> str list) option" where
  "scan_edges d n [] parent stack = Some (parent, stack)"
| "scan_edges d n (u # us) parent stack =
     (if u = d then None
      else if u \<in> set (dict_keys parent) then scan_edges d n us parent stack
      else scan_edges d n us ((u, n) # parent) (u # stack))"

text \<open>\<open>while current != new_upstream\<close>, at most as many steps as the table has entries.\<close>

fun walk_parents :: "nat \<Rightarrow> str dict \<Rightarrow> str \<Rightarrow> str \<Rightarrow> str list \<Rightarrow> str list option" where
  "walk_parents fuel parent new_upstream current path =
     (if current = new_upstream then Some path
      else case fuel of 0 \<Rightarrow> None
        | Suc fuel' \<Rightarrow> (case map_of parent current of None \<Rightarrow> None
            | Some p \<Rightarrow> walk_parents fuel' parent new_upstream p (path @ [p])))"

declare walk_parents.simps [simp del]

lemma scan_edges_push:
  "scan_edges d n us parent stack = Some (parent', stack') \<Longrightarrow>
   push_fresh us (dict_keys parent, stack) = (dict_keys parent', stack') \<and> d \<notin> set us"
proof (induction us arbitrary: parent stack)
  case (Cons u us)
  then have "u \<noteq> d" by (simp split: if_splits)
  show ?case
  proof (cases "u \<in> set (dict_keys parent)")
    case True
    with Cons \<open>u \<noteq> d\<close> show ?thesis by simp
  next
    case False
    with Cons.prems \<open>u \<noteq> d\<close>
    have "scan_edges d n us ((u, n) # parent) (u # stack) = Some (parent', stack')" by simp
    from Cons.IH [OF this] False \<open>u \<noteq> d\<close> show ?thesis by simp
  qed
qed simp

function cycle_loop ::
  "tasks \<Rightarrow> str \<Rightarrow> str \<Rightarrow> str dict \<Rightarrow> str list \<Rightarrow> str list option option" where
  "cycle_loop ts d u0 parent [] = Some None"
| "cycle_loop ts d u0 parent (n # stack) =
     (case scan_edges d n (upstreams ts n) parent stack of
        None \<Rightarrow> (case walk_parents (length parent) parent u0 n [n] of None \<Rightarrow> None
                  | Some path \<Rightarrow> Some (Some ([d] @ rev path @ [d])))
      | Some ps \<Rightarrow> cycle_loop ts d u0 (fst ps) (snd ps))"
  by pat_completeness auto
termination
proof (relation "measure (\<lambda>(ts, d, u0, parent, stack). left ts (dict_keys parent) + length stack)")
  fix ts :: tasks and d u0 parent n stack ps
  assume eq: "scan_edges d n (upstreams ts n) parent stack = Some ps"
  obtain p s where ps: "ps = (p, s)" by (cases ps)
  from scan_edges_push [OF eq [unfolded ps]]
  have "push_fresh (upstreams ts n) (dict_keys parent, stack) = (dict_keys p, s)" by simp
  from push_fresh_left [OF this upstreams_known]
  show "((ts, d, u0, fst ps, snd ps), ts, d, u0, parent, n # stack)
      \<in> measure (\<lambda>(ts, d, u0, parent, stack). left ts (dict_keys parent) + length stack)"
    by (simp add: ps)
qed simp

declare cycle_loop.simps(2) [simp del]

definition find_cycle :: "tasks \<Rightarrow> str \<Rightarrow> str \<Rightarrow> str list option option" where
  "find_cycle ts downstream new_upstream =
     (if new_upstream = downstream then Some (Some [downstream, downstream])
      else if new_upstream \<notin> set (dict_keys ts) then Some None
      else cycle_loop ts downstream new_upstream [(new_upstream, downstream)] [new_upstream])"

text \<open>Each entry of the table names a parent found earlier, the oldest entry the start.\<close>

primrec parents_ok :: "tasks \<Rightarrow> str \<Rightarrow> str \<Rightarrow> str dict \<Rightarrow> bool" where
  "parents_ok ts d u0 [] = False"
| "parents_ok ts d u0 (kv # rest) =
     (if rest = [] then kv = (u0, d)
      else fst kv \<notin> set (dict_keys rest) \<and> snd kv \<in> set (dict_keys rest)
        \<and> (snd kv, fst kv) \<in> depends ts \<and> parents_ok ts d u0 rest)"

lemma parents_ok_start: "parents_ok ts d u0 parent \<Longrightarrow> u0 \<in> set (dict_keys parent)"
  by (induction parent) (auto split: if_splits)

lemma parents_ok_distinct: "parents_ok ts d u0 parent \<Longrightarrow> dict_ok parent"
  by (induction parent) (auto simp: dict_ok_def split: if_splits)

definition task_path :: "tasks \<Rightarrow> str list \<Rightarrow> bool" where
  "task_path ts p \<longleftrightarrow> successively (\<lambda>a b. (a, b) \<in> depends ts) p"

lemma walk_parents_path:
  assumes "parents_ok ts d u0 parent" and "\<And>k v. (k, v) \<in> set parent \<Longrightarrow> map_of m k = Some v"
    and "n \<in> set (dict_keys parent)" and "length parent \<le> Suc fuel"
  shows "\<exists>ys. walk_parents fuel m u0 n acc = Some (acc @ ys)
    \<and> last (n # ys) = u0 \<and> task_path ts (rev (n # ys))"
  using assms
proof (induction parent arbitrary: n fuel acc)
  case (Cons kv rest)
  show ?case
  proof (cases "n = u0")
    case True
    then show ?thesis by (simp add: walk_parents.simps task_path_def)
  next
    case ne: False
    then have rest: "rest \<noteq> []" using Cons.prems(1,3) by auto
    with Cons.prems(1) have ok: "parents_ok ts d u0 rest" "snd kv \<in> set (dict_keys rest)"
      "(snd kv, fst kv) \<in> depends ts" by simp_all
    have m: "map_of m k = Some v" if "(k, v) \<in> set rest" for k v using Cons.prems(2) that by simp
    obtain fuel' where fuel: "fuel = Suc fuel'" using Cons.prems(4) rest by (cases fuel) auto
    show ?thesis
    proof (cases "n = fst kv")
      case False
      with Cons.prems(3) have "n \<in> set (dict_keys rest)" by auto
      moreover have "length rest \<le> Suc fuel" using Cons.prems(4) by simp
      ultimately show ?thesis using Cons.IH [OF ok(1) m] by blast
    next
      case True
      have "length rest \<le> Suc fuel'" using Cons.prems(4) fuel by simp
      from Cons.IH [OF ok(1) m ok(2) this, of "acc @ [snd kv]"]
      obtain ys where ys: "walk_parents fuel' m u0 (snd kv) (acc @ [snd kv]) = Some (acc @ [snd kv] @ ys)"
        "last (snd kv # ys) = u0" "task_path ts (rev (snd kv # ys))" by auto
      have "map_of m n = Some (snd kv)" using Cons.prems(2) [of "fst kv" "snd kv"] True by simp
      with ne fuel ys(1) have "walk_parents fuel m u0 n acc = Some (acc @ snd kv # ys)"
        by (subst walk_parents.simps) simp
      moreover have "task_path ts (rev (n # snd kv # ys))"
        using ys(3) ok(3) True by (simp add: task_path_def successively_append_iff)
      ultimately show ?thesis using ys(2) by (intro exI [of _ "snd kv # ys"]) simp
    qed
  qed
qed simp

lemma scan_edges_ok:
  "scan_edges d n us parent stack = Some (parent', stack') \<Longrightarrow> parents_ok ts d u0 parent \<Longrightarrow>
   n \<in> set (dict_keys parent) \<Longrightarrow> \<forall>u \<in> set us. (n, u) \<in> depends ts \<Longrightarrow>
   \<forall>x \<in> set stack. x \<in> set (dict_keys parent) \<Longrightarrow>
   parents_ok ts d u0 parent' \<and> (\<forall>x \<in> set stack'. x \<in> set (dict_keys parent'))"
proof (induction us arbitrary: parent stack)
  case (Cons u us)
  from Cons.prems(1) have ne: "u \<noteq> d" by (simp split: if_splits)
  from Cons.prems(4) have us: "\<forall>u \<in> set us. (n, u) \<in> depends ts" by simp
  show ?case
  proof (cases "u \<in> set (dict_keys parent)")
    case True
    with Cons.prems(1) ne have "scan_edges d n us parent stack = Some (parent', stack')" by simp
    from Cons.IH [OF this Cons.prems(2,3) us Cons.prems(5)] show ?thesis .
  next
    case False
    with Cons.prems(1) ne
    have sc: "scan_edges d n us ((u, n) # parent) (u # stack) = Some (parent', stack')" by simp
    have "parent \<noteq> []" using Cons.prems(2) by auto
    with False Cons.prems(2-4) have ok: "parents_ok ts d u0 ((u, n) # parent)" by simp
    have "n \<in> set (dict_keys ((u, n) # parent))" using Cons.prems(3) by simp
    moreover have "\<forall>x \<in> set (u # stack). x \<in> set (dict_keys ((u, n) # parent))"
      using Cons.prems(5) by simp
    ultimately show ?thesis using Cons.IH [OF sc ok _ us] by blast
  qed
qed simp

lemma scan_edges_None: "scan_edges d n us parent stack = None \<Longrightarrow> d \<in> set us"
  by (induction d n us parent stack rule: scan_edges.induct) (auto split: if_splits)

definition cycle_answer :: "tasks \<Rightarrow> str \<Rightarrow> str \<Rightarrow> str list \<Rightarrow> bool" where
  "cycle_answer ts d u0 p \<longleftrightarrow> (\<exists>q. p = [d] @ q @ [d] \<and> q \<noteq> [] \<and> hd q = u0 \<and> task_path ts (q @ [d]))"

lemma cycle_found:
  assumes "parents_ok ts d u0 parent" and "n \<in> set (dict_keys parent)"
    and "scan_edges d n (upstreams ts n) parent stack = None"
  shows "\<exists>path. walk_parents (length parent) parent u0 n [n] = Some path
    \<and> cycle_answer ts d u0 ([d] @ rev path @ [d])"
proof -
  have m: "\<And>k v. (k, v) \<in> set parent \<Longrightarrow> map_of parent k = Some v"
    using parents_ok_distinct [OF assms(1)] by (simp add: dict_ok_map_of [symmetric])
  from walk_parents_path [OF assms(1) m assms(2), of "length parent" "[n]"]
  obtain ys where ys: "walk_parents (length parent) parent u0 n [n] = Some (n # ys)"
    "last (n # ys) = u0" "task_path ts (rev (n # ys))" by auto
  have "(n, d) \<in> depends ts" using scan_edges_None [OF assms(3)] by (simp add: depends_iff)
  with ys(3) have "task_path ts (rev (n # ys) @ [d])"
    by (simp add: task_path_def successively_append_iff)
  moreover have "hd (rev (n # ys)) = u0" using ys(2) by (simp only: hd_rev)
  moreover have "rev (n # ys) \<noteq> []" by simp
  ultimately have "cycle_answer ts d u0 ([d] @ rev (n # ys) @ [d])"
    unfolding cycle_answer_def by blast
  with ys(1) show ?thesis by blast
qed

lemma cycle_loop_spec:
  assumes "parents_ok ts d u0 parent" and "\<forall>x \<in> set stack. x \<in> set (dict_keys parent)"
  shows "\<exists>r. cycle_loop ts d u0 parent stack = Some r \<and> (case r of
      Some p \<Rightarrow> cycle_answer ts d u0 p
    | None \<Rightarrow> d \<notin> set (dict_keys parent) \<longrightarrow> d \<notin> set (upstream_loop ts (dict_keys parent) stack))"
  using assms
proof (induction ts d u0 parent stack rule: cycle_loop.induct)
  case (1 ts d u0 parent)
  then show ?case by simp
next
  case (2 ts d u0 parent n stack)
  have n: "n \<in> set (dict_keys parent)" and st: "\<forall>x \<in> set stack. x \<in> set (dict_keys parent)"
    using "2.prems"(2) by simp_all
  show ?case
  proof (cases "scan_edges d n (upstreams ts n) parent stack")
    case None
    from cycle_found [OF "2.prems"(1) n None] None show ?thesis
      by (auto simp: cycle_loop.simps(2))
  next
    case (Some ps)
    obtain p s where ps: "ps = (p, s)" by (cases ps)
    note sc = Some [unfolded ps]
    have E: "\<forall>u \<in> set (upstreams ts n). (n, u) \<in> depends ts" by (simp add: depends_iff)
    from scan_edges_ok [OF sc "2.prems"(1) n E st]
    have ok: "parents_ok ts d u0 p" "\<forall>x \<in> set s. x \<in> set (dict_keys p)" by simp_all
    from scan_edges_push [OF sc]
    have push: "push_fresh (upstreams ts n) (dict_keys parent, stack) = (dict_keys p, s)"
      and d: "d \<notin> set (upstreams ts n)" by simp_all
    have keep: "d \<notin> set (dict_keys parent) \<Longrightarrow> d \<notin> set (dict_keys p)"
      using push_fresh_sets [OF push] d by blast
    from "2.IH" [OF Some, unfolded ps fst_conv snd_conv, OF ok]
    obtain r where r: "cycle_loop ts d u0 p s = Some r"
      "case r of Some p \<Rightarrow> cycle_answer ts d u0 p
        | None \<Rightarrow> d \<notin> set (dict_keys p) \<longrightarrow> d \<notin> set (upstream_loop ts (dict_keys p) s)" by blast
    have "cycle_loop ts d u0 parent (n # stack) = Some r"
      using r(1) by (simp add: cycle_loop.simps(2) sc)
    moreover have "case r of Some p \<Rightarrow> cycle_answer ts d u0 p
        | None \<Rightarrow> d \<notin> set (dict_keys parent) \<longrightarrow>
            d \<notin> set (upstream_loop ts (dict_keys parent) (n # stack))"
      using r(2) keep upstream_loop_Cons [OF push] by (cases r) simp_all
    ultimately show ?thesis by blast
  qed
qed

lemma closed_rtrancl_mem:
  assumes "(a, b) \<in> E\<^sup>*" and "a \<in> V" and "E `` V \<subseteq> V"
  shows "b \<in> V"
  using assms by (induction rule: rtrancl_induct) blast+

lemma task_path_rtrancl: "task_path ts (q @ [d]) \<Longrightarrow> q \<noteq> [] \<Longrightarrow> (hd q, d) \<in> (depends ts)\<^sup>*"
proof (induction q)
  case (Cons x q)
  show ?case
  proof (cases q)
    case Nil
    with Cons.prems show ?thesis by (simp add: task_path_def r_into_rtrancl)
  next
    case (Cons y q')
    with Cons.prems have "(x, y) \<in> depends ts" "task_path ts (q @ [d])" by (simp_all add: task_path_def)
    with Cons.IH Cons show ?thesis by (simp add: converse_rtrancl_into_rtrancl)
  qed
qed simp

section \<open>Properties\<close>

text \<open>C5: the proposed edge from \<open>downstream\<close> to \<open>new_upstream\<close> closes a cycle exactly when
  \<open>find_cycle\<close> returns a path; the search always ends, its parent walk never fails, and the
  path starts with the proposed edge, follows recorded edges, and ends where it began.\<close>

theorem find_cycle_exact:
  "\<exists>r. find_cycle ts d u = Some r \<and> (r = None \<longleftrightarrow> (u, d) \<notin> (depends ts)\<^sup>*)
     \<and> (case r of None \<Rightarrow> True
        | Some p \<Rightarrow> hd p = d \<and> hd (tl p) = u \<and> last p = d \<and> task_path ts (tl p))"
proof (cases "u = d")
  case True
  then show ?thesis by (simp add: find_cycle_def task_path_def)
next
  case ne: False
  show ?thesis
  proof (cases "u \<in> set (dict_keys ts)")
    case False
    then have "depends ts `` {u} \<subseteq> {u}" by (auto simp: depends_iff upstreams_not_key)
    then have "(u, d) \<notin> (depends ts)\<^sup>*" using ne closed_rtrancl_mem [of u d _ "{u}"] by blast
    with ne False show ?thesis by (simp add: find_cycle_def)
  next
    case True
    have eq: "find_cycle ts d u = cycle_loop ts d u [(u, d)] [u]"
      using ne True by (simp add: find_cycle_def)
    have ok: "parents_ok ts d u [(u, d)]" and st: "\<forall>x \<in> set [u]. x \<in> set (dict_keys [(u, d)])"
      by simp_all
    have k: "dict_keys [(u, d)] = [u]" by simp
    from cycle_loop_spec [OF ok st, unfolded k] obtain r where
      r: "find_cycle ts d u = Some r" "case r of Some p \<Rightarrow> cycle_answer ts d u p
        | None \<Rightarrow> d \<notin> set [u] \<longrightarrow> d \<notin> set (upstream_loop ts [u] [u])" unfolding eq by blast
    show ?thesis
    proof (cases r)
      case None
      let ?V = "set (upstream_loop ts [u] [u])"
      have "depends ts `` (insert u ?V) \<subseteq> ?V" using upstream_loop_closed [of ts "[u]" "[u]"] by simp
      moreover have "u \<in> ?V" using upstream_loop_mono [of "[u]" ts "[u]"] by simp
      moreover have "d \<notin> ?V" using r(2) None ne by simp
      ultimately have "(u, d) \<notin> (depends ts)\<^sup>*" using closed_rtrancl_mem [of u d "depends ts" ?V] by blast
      with r(1) None show ?thesis by simp
    next
      case (Some p)
      with r(2) obtain q where p: "p = [d] @ q @ [d]" "q \<noteq> []" "hd q = u" "task_path ts (q @ [d])"
        by (auto simp: cycle_answer_def)
      with task_path_rtrancl [OF p(4,2)] Some r(1) show ?thesis by auto
    qed
  qed
qed

text \<open>\<open>transitive_upstream\<close> and \<open>downstream_of\<close> compute the strict transitive closure of the
  recorded edges in the two directions, and are dual on existing tasks. In particular a slug
  is excluded from its own upstream set exactly when it lies on no cycle.\<close>

theorem upstream_downstream_dual:
  assumes "dict_ok ts" and "a \<in> set (dict_keys ts)"
  shows "transitive_upstream ts b = {u. (b, u) \<in> (depends ts)\<^sup>+}
    \<and> (b \<in> downstream_of ts a \<longleftrightarrow> a \<in> transitive_upstream ts b)"
  using downstream_of_trancl [OF assms] transitive_upstream_trancl by auto

definition blank_task :: "str \<Rightarrow> str list \<Rightarrow> task" where
  "blank_task slug ups = \<lparr>tk_slug = slug, tk_description = [], tk_phase = Plan,
     tk_created_at = Aware 0 0, tk_affected_repos = [], tk_worktrees = [], tk_branch = slug,
     tk_test_results = [], tk_blocked_reason = None, tk_blocked_at = None, tk_pr_urls = [],
     tk_finished_at = None, tk_phase_entered_at = None, tk_last_activity_at = None,
     tk_active_repo = None, tk_last_switched_at_sha = [], tk_test_iteration = 0,
     tk_base_branch = None, tk_base_override = None, tk_passive_repos = {}, tk_spec_id = None,
     tk_depends_on = List.map (\<lambda>u. \<lparr>upstream_slug = u, de_created_at = Aware 0 0\<rparr>) ups,
     tk_work_item_id = None\<rparr>"

definition sample_tasks :: tasks where
  "sample_tasks = [(''a'', blank_task ''a'' []), (''b'', blank_task ''b'' [''a'']),
     (''c'', blank_task ''c'' [''b'', ''a''])]"

theorem upstream_downstream_dual_witness:
  "dict_ok sample_tasks \<and> ''c'' \<in> downstream_of sample_tasks ''a''"
proof -
  have ok: "dict_ok sample_tasks" "''a'' \<in> set (dict_keys sample_tasks)" by code_simp+
  have "''a'' \<in> transitive_upstream sample_tasks ''c''" by code_simp
  with upstream_downstream_dual [OF ok, of "''c''"] ok(1) show ?thesis by blast
qed

text \<open>The position of a slug in a dependency order bounds the chains that start from it.\<close>

definition rank_in :: "str list \<Rightarrow> str \<Rightarrow> nat" where
  "rank_in res s = (if s \<in> set res then Suc (length (takeWhile (\<lambda>x. x \<noteq> s) res)) else 0)"

lemma takeWhile_nth:
  assumes "distinct res" and "i < length res"
  shows "takeWhile (\<lambda>x. x \<noteq> res ! i) res = take i res"
  using assms by (intro takeWhile_eq_take_P_nth) (auto simp: nth_eq_iff_index_eq)

lemma rank_in_take: "u \<in> set (take i res) \<Longrightarrow> distinct res \<Longrightarrow> i < length res \<Longrightarrow>
  rank_in res u < rank_in res (res ! i)"
proof -
  assume u: "u \<in> set (take i res)" and d: "distinct res" and i: "i < length res"
  from u i obtain j where j: "j < i" "u = res ! j" by (auto simp: in_set_conv_nth)
  with d i show ?thesis by (simp add: rank_in_def takeWhile_nth)
qed

lemma order_inv_acyclic:
  assumes "order_inv ts [] res"
  shows "acyclic (depends ts)"
proof -
  have inv: "distinct res" "set res = set (dict_keys ts)"
    "\<And>i u. i < length res \<Longrightarrow> u \<in> set (upstreams ts (res ! i)) \<Longrightarrow> u \<in> set (dict_keys ts)
      \<Longrightarrow> u \<in> set (take i res)"
    using assms by (simp_all add: order_inv_def)
  have "rank_in res u < rank_in res s" if su: "(s, u) \<in> depends ts" for s u
  proof -
    from su have "s \<in> set res" unfolding inv(2) by (auto simp: depends_def edges_def)
    then obtain i where i: "i < length res" "s = res ! i" by (auto simp: in_set_conv_nth)
    show ?thesis
    proof (cases "u \<in> set (dict_keys ts)")
      case True
      from inv(3) [OF i(1) _ True] su i(2) have "u \<in> set (take i res)" by (simp add: depends_iff)
      from rank_in_take [OF this inv(1) i(1)] i(2) show ?thesis by simp
    next
      case False
      then show ?thesis using inv(2) \<open>s \<in> set res\<close> by (simp add: rank_in_def)
    qed
  qed
  then have "depends ts \<subseteq> (measure (rank_in res))\<inverse>" by auto
  moreover have "acyclic ((measure (rank_in res))\<inverse>)" by (simp add: wf_acyclic)
  ultimately show ?thesis by (rule acyclic_subset [rotated])
qed

lemma dependency_order_keyed: "keyed ts \<Longrightarrow> dependency_order ts = order_loop ts (dict_keys ts) []"
  by (auto simp: dependency_order_def keyed_def filter_empty_conv split: list.split)

lemma dependency_order_inv:
  assumes "dict_ok ts" and "keyed ts" and "dependency_order ts = Inr res"
  shows "order_inv ts [] res"
proof (rule order_loop_inv)
  show "order_loop ts (dict_keys ts) [] = Inr res" using assms by (simp add: dependency_order_keyed)
  show "order_inv ts (dict_keys ts) []" using assms(1) by (simp add: order_inv_def dict_ok_def)
qed

text \<open>C6: for a mapping keyed by slug, \<open>_dependency_order\<close> succeeds exactly when the recorded
  edges are acyclic, and its result lists every task once, each after those of its upstreams
  that are in the mapping.\<close>

theorem dependency_order_exact:
  assumes "dict_ok ts" and "keyed ts"
  shows "(acyclic (depends ts) \<longleftrightarrow> (\<exists>res. dependency_order ts = Inr res))
    \<and> (\<forall>res. dependency_order ts = Inr res \<longrightarrow> distinct res \<and> set res = set (dict_keys ts)
        \<and> (\<forall>i < length res. \<forall>u \<in> set (upstreams ts (res ! i)).
             u \<in> set (dict_keys ts) \<longrightarrow> u \<in> set (take i res)))"
proof (intro conjI allI impI)
  show "acyclic (depends ts) \<longleftrightarrow> (\<exists>res. dependency_order ts = Inr res)"
    using order_loop_total [of ts "dict_keys ts" "[]"] dependency_order_inv [OF assms]
      order_inv_acyclic dependency_order_keyed [OF assms(2)] unfolding depends_def by auto
  fix res assume "dependency_order ts = Inr res"
  from dependency_order_inv [OF assms this]
  have inv: "order_inv ts [] res" .
  show "distinct res" using inv by (simp add: order_inv_def)
  show "set res = set (dict_keys ts)" using inv by (simp add: order_inv_def)
  show "\<forall>u \<in> set (upstreams ts (res ! i)). u \<in> set (dict_keys ts) \<longrightarrow> u \<in> set (take i res)"
    if "i < length res" for i using inv that by (simp add: order_inv_def)
qed

theorem dependency_order_exact_witness:
  "dependency_order sample_tasks = Inr [''a'', ''b'', ''c''] \<and> acyclic (depends sample_tasks)"
proof -
  have ok: "dict_ok sample_tasks" "keyed sample_tasks"
    and r: "dependency_order sample_tasks = Inr [''a'', ''b'', ''c'']" by code_simp+
  from dependency_order_exact [OF ok] r show ?thesis by blast
qed

end
