(* ===== verification/Base_Resolver.thy ===== *)
theory Base_Resolver
  imports Prelude
begin

text \<open>
  The effective pull-request base of a repository (core/base_resolver.py): the parser of
  \<open>--base-map\<close> and the precedence of the sources of a base. Both error classes are
  \<open>ValueError\<close>s.
\<close>

definition base_map_pair :: "str \<Rightarrow> str dict \<Rightarrow> exn + str dict" where
  "base_map_pair pair out =
     (if CHR ''='' \<notin> set pair
      then Inl (ValueError (''Invalid --base-map entry '' @ quoted pair @ '': expected repo=branch''))
      else let key = strip (takeWhile (\<lambda>c. c \<noteq> CHR ''='') pair);
               val = strip (tl (dropWhile (\<lambda>c. c \<noteq> CHR ''='') pair))
           in if key = [] \<or> val = []
              then Inl (ValueError (''Invalid --base-map entry '' @ quoted pair
                          @ '': key and value must be non-empty''))
              else Inr (AList.update key val out))"

definition parse_base_map :: "str \<Rightarrow> exn + str dict" where
  "parse_base_map raw =
     (if strip raw = [] then Inr [] else rfold base_map_pair (split_char (CHR '','') raw) [])"

definition resolve_base ::
  "str \<Rightarrow> str option \<Rightarrow> str option \<Rightarrow> str dict \<Rightarrow> str list \<Rightarrow> str option \<Rightarrow> exn + str option" where
  "resolve_base repo_name config_base cli_base base_map known_repos task_base =
     (let unknown = filter (\<lambda>r. r \<notin> set known_repos) (dict_keys base_map)
      in if unknown \<noteq> []
         then Inl (ValueError (''Unknown repo(s) in --base-map: '' @ join '', '' (sort unknown)
                @ ''. Known: '' @ quoted_list (sort (remdups known_repos))))
         else Inr (case map_of base_map repo_name of Some b \<Rightarrow> Some b
           | None \<Rightarrow> (case cli_base of Some b \<Rightarrow> Some b
               | None \<Rightarrow> (case task_base of Some b \<Rightarrow> Some b | None \<Rightarrow> config_base))))"

lemma base_map_pair_ok:
  assumes "base_map_pair pair out = Inr out'" and "dict_ok out"
    and "\<forall>kv \<in> set out. fst kv \<noteq> [] \<and> snd kv \<noteq> []"
  shows "dict_ok out' \<and> (\<forall>kv \<in> set out'. fst kv \<noteq> [] \<and> snd kv \<noteq> [])"
proof -
  from assms(1) obtain k v where kv: "k \<noteq> []" "v \<noteq> []" "out' = AList.update k v out"
    by (auto simp: base_map_pair_def Let_def split: if_splits)
  have "set out' \<subseteq> insert (k, v) (set out)" unfolding kv(3) by (induction out) auto
  with kv assms(2,3) show ?thesis by auto
qed

lemma parse_base_map_ok:
  assumes "parse_base_map raw = Inr m"
  shows "dict_ok m \<and> (\<forall>kv \<in> set m. fst kv \<noteq> [] \<and> snd kv \<noteq> [])"
proof (cases "strip raw = []")
  case True
  with assms show ?thesis by (simp add: parse_base_map_def)
next
  case False
  with assms have "rfold base_map_pair (split_char (CHR '','') raw) [] = Inr m"
    by (simp add: parse_base_map_def)
  from rfold_invariant [OF this, of "\<lambda>m. dict_ok m \<and> (\<forall>kv \<in> set m. fst kv \<noteq> [] \<and> snd kv \<noteq> [])"]
    base_map_pair_ok show ?thesis by (metis dict_ok_Nil empty_iff empty_set)
qed

text \<open>A base that is resolved comes from exactly the most specific source that has one.\<close>

lemma resolve_base_precedence:
  assumes "resolve_base r cb cli m known tb = Inr b"
  shows "(r \<in> set (dict_keys m) \<longrightarrow> b = map_of m r)
    \<and> (r \<notin> set (dict_keys m) \<and> cli \<noteq> None \<longrightarrow> b = cli)
    \<and> (r \<notin> set (dict_keys m) \<and> cli = None \<and> tb \<noteq> None \<longrightarrow> b = tb)
    \<and> (r \<notin> set (dict_keys m) \<and> cli = None \<and> tb = None \<longrightarrow> b = cb)"
proof (cases "map_of m r")
  case None
  then have "r \<notin> set (dict_keys m)" by (simp add: map_of_eq_None_iff)
  with None assms show ?thesis
    by (cases cli; cases tb) (simp_all add: resolve_base_def Let_def split: if_splits)
next
  case (Some v)
  then have "r \<in> set (dict_keys m)" by (metis map_of_eq_None_iff option.distinct(1) set_map)
  with Some assms show ?thesis by (simp add: resolve_base_def Let_def split: if_splits)
qed

end
