(* ===== verification/Text_Values.thy ===== *)
theory Text_Values
  imports Prelude
begin

text \<open>
  Values read from text: decoded JSON, \<open>int(s)\<close>, and the ISO 8601 timestamps
  \<open>datetime.fromisoformat\<close> reads. Of the spellings of ISO 8601 the extended calendar form is
  modelled (\<open>YYYY-MM-DD\<close>, any separator, \<open>HH[:MM[:SS[.f]]]\<close>, an optional offset): it is the
  only one the program writes or receives; any other text counts as malformed. A JSON number
  is an integer (times are counted in whole ticks).
\<close>

section \<open>JSON\<close>

datatype json =
    JNull
  | JBool bool
  | JNum int
  | JStr str
  | JList "json list"
  | JObj "(string \<times> json) list"

definition opt_json :: "str option \<Rightarrow> json" where
  "opt_json v = (case v of None \<Rightarrow> JNull | Some s \<Rightarrow> JStr s)"

text \<open>\<open>raw.get(key)\<close>.\<close>

definition json_get :: "json dict \<Rightarrow> str \<Rightarrow> json" where
  "json_get d k = (case map_of d k of None \<Rightarrow> JNull | Some v \<Rightarrow> v)"

section \<open>Integers\<close>

definition digit :: "char \<Rightarrow> int option" where
  "digit c = (let n = of_char c :: int in if 48 \<le> n \<and> n \<le> 57 then Some (n - 48) else None)"

definition all_digits :: "str \<Rightarrow> bool" where
  "all_digits s \<longleftrightarrow> s \<noteq> [] \<and> list_all (\<lambda>c. digit c \<noteq> None) s"

definition digits_value :: "str \<Rightarrow> int" where
  "digits_value s = foldl (\<lambda>v c. 10 * v + (case digit c of None \<Rightarrow> 0 | Some d \<Rightarrow> d)) 0 s"

text \<open>\<open>int(s)\<close>: blanks around, a sign, digits with single underscores between them.\<close>

definition py_int :: "str \<Rightarrow> int option" where
  "py_int s =
     (let t = strip s;
          negative = startswith t ''-'';
          body = (if negative \<or> startswith t ''+'' then tl t else t);
          groups = split_char (CHR ''_'') body
      in if list_all all_digits groups
         then Some (if negative then - digits_value (concat groups) else digits_value (concat groups))
         else None)"

text \<open>\<open>s.rsplit(c, 1)[-1]\<close>, and \<open>s.replace("Z", "+00:00")\<close>.\<close>

definition after_last :: "char \<Rightarrow> str \<Rightarrow> str" where
  "after_last c s = rev (takeWhile (\<lambda>x. x \<noteq> c) (rev s))"

definition replace_z :: "str \<Rightarrow> str" where
  "replace_z s = concat (List.map (\<lambda>c. if c = CHR ''Z'' then ''+00:00'' else [c]) s)"

section \<open>Timestamps\<close>

definition leap :: "int \<Rightarrow> bool" where
  "leap y \<longleftrightarrow> y mod 4 = 0 \<and> (y mod 100 \<noteq> 0 \<or> y mod 400 = 0)"

definition month_days :: "int \<Rightarrow> int \<Rightarrow> int" where
  "month_days y m = (if m = 2 then (if leap y then 29 else 28)
     else if m \<in> {4, 6, 9, 11} then 30 else 31)"

text \<open>Days from 0001-01-01 to the first of a month.\<close>

definition days_before_year :: "int \<Rightarrow> int" where
  "days_before_year y = (let p = y - 1 in 365 * p + p div 4 - p div 100 + p div 400)"

definition days_before_month :: "int \<Rightarrow> int \<Rightarrow> int" where
  "days_before_month y m = sum_list (List.map (\<lambda>k. month_days y (int k)) [1..<nat m])"

definition fixed_digits :: "nat \<Rightarrow> str \<Rightarrow> (int \<times> str) option" where
  "fixed_digits n s =
     (let d = take n s in if length d = n \<and> all_digits d then Some (digits_value d, drop n s) else None)"

definition expect :: "char \<Rightarrow> str \<Rightarrow> str option" where
  "expect c s = (case s of [] \<Rightarrow> None | x # xs \<Rightarrow> if x = c then Some xs else None)"

definition read_date :: "str \<Rightarrow> (int \<times> str) option" where
  "read_date s = (case fixed_digits 4 s of None \<Rightarrow> None | Some (y, s1) \<Rightarrow>
     (case expect (CHR ''-'') s1 of None \<Rightarrow> None | Some s2 \<Rightarrow>
     (case fixed_digits 2 s2 of None \<Rightarrow> None | Some (m, s3) \<Rightarrow>
     (case expect (CHR ''-'') s3 of None \<Rightarrow> None | Some s4 \<Rightarrow>
     (case fixed_digits 2 s4 of None \<Rightarrow> None | Some (d, s5) \<Rightarrow>
        if 1 \<le> y \<and> 1 \<le> m \<and> m \<le> 12 \<and> 1 \<le> d \<and> d \<le> month_days y m
        then Some (days_before_year y + days_before_month y m + d - 1, s5) else None)))))"

text \<open>Hours, minutes, seconds and microseconds; what follows the last field is the rest.\<close>

definition read_fraction :: "str \<Rightarrow> (int \<times> str) option" where
  "read_fraction s =
     (let ds = takeWhile (\<lambda>c. digit c \<noteq> None) s
      in if ds = [] then None
         else Some (digits_value (take 6 (ds @ ''000000'')), drop (length ds) s))"

definition read_clock :: "str \<Rightarrow> (int \<times> str) option" where
  "read_clock s = (case fixed_digits 2 s of None \<Rightarrow> None | Some (h, s1) \<Rightarrow>
     if h > 23 then None else
     (case expect (CHR '':'') s1 of None \<Rightarrow> Some (h * 3600000000, s1) | Some s2 \<Rightarrow>
     (case fixed_digits 2 s2 of None \<Rightarrow> None | Some (m, s3) \<Rightarrow>
     if m > 59 then None else
     (case expect (CHR '':'') s3 of None \<Rightarrow> Some (h * 3600000000 + m * 60000000, s3) | Some s4 \<Rightarrow>
     (case fixed_digits 2 s4 of None \<Rightarrow> None | Some (sec, s5) \<Rightarrow>
     if sec > 59 then None else
     (let base = h * 3600000000 + m * 60000000 + sec * 1000000
      in case expect (CHR ''.'') s5 of None \<Rightarrow> Some (base, s5) | Some s6 \<Rightarrow>
         (case read_fraction s6 of None \<Rightarrow> None | Some (us, s7) \<Rightarrow> Some (base + us, s7))))))))"

definition read_offset :: "str \<Rightarrow> int option option" where
  "read_offset s = (case s of [] \<Rightarrow> Some None
     | c # rest \<Rightarrow>
         if c = CHR ''Z'' \<and> rest = [] then Some (Some 0)
         else if c = CHR ''+'' \<or> c = CHR ''-'' then
           (case read_clock rest of
              Some (off, []) \<Rightarrow> Some (Some (if c = CHR ''-'' then - off else off)) | _ \<Rightarrow> None)
         else None)"

definition fromisoformat :: "str \<Rightarrow> dt option" where
  "fromisoformat s = (case read_date s of None \<Rightarrow> None | Some (days, rest) \<Rightarrow>
     (case rest of [] \<Rightarrow> Some (Naive (days * 86400000000))
      | _ # clock \<Rightarrow> (case read_clock clock of None \<Rightarrow> None | Some (us, tail) \<Rightarrow>
          (case read_offset tail of None \<Rightarrow> None
           | Some None \<Rightarrow> Some (Naive (days * 86400000000 + us))
           | Some (Some off) \<Rightarrow> Some (Aware (days * 86400000000 + us) off)))))"

lemma fromisoformat_samples:
  "fromisoformat ''1970-01-01T00:00:00+00:00'' = Some (Aware (719162 * 86400000000) 0)"
  "fromisoformat ''2024-02-29T12:30:15.25-05:00'' =
     Some (Aware (738944 * 86400000000 + 45015250000) (- 18000000000))"
  "fromisoformat ''2023-02-29'' = None"
  "py_int ''1_024'' = Some 1024"
  "py_int (after_last (CHR ''/'') ''https://github.com/o/r/pull/42'') = Some 42"
  by code_simp+

end
