(* ===== verification/Detection.thy ===== *)
theory Detection
  imports Task_Graph Base_Resolver Text_Values
begin

text \<open>
  What the upstream state of a task is and what it permits: core/reconcile/detect.py, the
  decision matrix of core/reconcile/gate.py, core/reconcile/dependency_stale.py, and
  \<open>is_ready\<close> of core/task_graph.py. A field of a \<open>Decision\<close> that may come from the cache file
  keeps the JSON value found there; \<open>finished_at\<close> keeps the datetime whose text the code stores.
\<close>

section \<open>Detection\<close>

datatype upstream_state = In_Sync | Merged | Closed | Diverged | Base_Changed | Missing | Dependency_Stale

record pr_snapshot =
  ps_head_ref :: str
  ps_state :: str
  ps_base_ref :: str
  ps_merge_commit :: "str option"
  ps_url :: str
  ps_updated_at :: str

record git_snapshot =
  gs_has_upstream :: bool
  gs_behind :: int
  gs_ahead :: int

record detection =
  dn_state :: upstream_state
  dn_pr_url :: "str option"
  dn_pr_number :: "int option"
  dn_base :: "str option"
  dn_merge_commit :: "str option"
  dn_updated_at :: "str option"

definition pr_number :: "str option \<Rightarrow> int option" where
  "pr_number url = (case url of None \<Rightarrow> None
     | Some u \<Rightarrow> if u = [] then None else py_int (after_last (CHR ''/'') u))"

text \<open>The base a task may target: unknown, one branch, or any of a set.\<close>

datatype task_base = No_Base | One_Base str | Any_Base "str set"

definition valid_bases :: "task_base \<Rightarrow> str set option" where
  "valid_bases b = (case b of No_Base \<Rightarrow> None | One_Base s \<Rightarrow> Some {s} | Any_Base S \<Rightarrow> Some S)"

definition detected :: "upstream_state \<Rightarrow> pr_snapshot \<Rightarrow> str option \<Rightarrow> detection" where
  "detected st pr merge = \<lparr>dn_state = st, dn_pr_url = Some (ps_url pr),
     dn_pr_number = pr_number (Some (ps_url pr)), dn_base = Some (ps_base_ref pr),
     dn_merge_commit = merge, dn_updated_at = Some (ps_updated_at pr)\<rparr>"

definition detect_one :: "str \<Rightarrow> task_base \<Rightarrow> pr_snapshot option \<Rightarrow> git_snapshot \<Rightarrow> detection" where
  "detect_one branch base pr git = (case pr of
       None \<Rightarrow> \<lparr>dn_state = Missing, dn_pr_url = None, dn_pr_number = None, dn_base = None,
                dn_merge_commit = None, dn_updated_at = None\<rparr>
     | Some p \<Rightarrow>
         if ps_state p = ''MERGED'' then detected Merged p (ps_merge_commit p)
         else if ps_state p = ''CLOSED'' then detected Closed p None
         else if (case valid_bases base of None \<Rightarrow> False | Some S \<Rightarrow> ps_base_ref p \<notin> S)
         then detected Base_Changed p None
         else if gs_has_upstream git \<and> gs_behind git > 0 then detected Diverged p None
         else detected In_Sync p None)"

definition detect_many ::
  "(str \<times> str \<times> task_base) list \<Rightarrow> pr_snapshot dict \<Rightarrow> git_snapshot dict \<Rightarrow> detection dict" where
  "detect_many tasks prs gits = dict_of (List.map (\<lambda>(slug, branch, base).
     (slug, detect_one branch base (map_of prs branch)
        (case map_of gits branch of Some g \<Rightarrow> g
         | None \<Rightarrow> \<lparr>gs_has_upstream = False, gs_behind = 0, gs_ahead = 0\<rparr>))) tasks)"

section \<open>Decisions\<close>

record decision =
  dc_slug :: str
  dc_state :: upstream_state
  dc_pr_url :: json
  dc_pr_number :: json
  dc_base :: json
  dc_merge_commit :: json
  dc_updated_at :: json
  dc_finished_at :: "dt option"

definition finished_at_for :: "str \<Rightarrow> tasks \<Rightarrow> dt option" where
  "finished_at_for slug ts = (case map_of ts slug of None \<Rightarrow> None | Some t \<Rightarrow> tk_finished_at t)"

definition int_json :: "int option \<Rightarrow> json" where
  "int_json n = (case n of None \<Rightarrow> JNull | Some k \<Rightarrow> JNum k)"

definition decision_from_detection :: "str \<Rightarrow> detection \<Rightarrow> tasks \<Rightarrow> decision" where
  "decision_from_detection slug d ts = \<lparr>dc_slug = slug, dc_state = dn_state d,
     dc_pr_url = opt_json (dn_pr_url d), dc_pr_number = int_json (dn_pr_number d),
     dc_base = opt_json (dn_base d), dc_merge_commit = opt_json (dn_merge_commit d),
     dc_updated_at = opt_json (dn_updated_at d), dc_finished_at = finished_at_for slug ts\<rparr>"

datatype gate_command = Spawn | Finish | Close | Precommit

datatype gate_action = Allow | Warn | Block

fun gate_matrix :: "upstream_state \<Rightarrow> gate_command \<Rightarrow> gate_action" where
  "gate_matrix In_Sync _ = Allow"
| "gate_matrix Merged c = (if c = Close then Allow else Block)"
| "gate_matrix Closed c = (if c = Close then Allow else Block)"
| "gate_matrix Diverged Spawn = Warn"
| "gate_matrix Diverged Finish = Block"
| "gate_matrix Diverged Close = Allow"
| "gate_matrix Diverged Precommit = Block"
| "gate_matrix Base_Changed Spawn = Warn"
| "gate_matrix Base_Changed Finish = Block"
| "gate_matrix Base_Changed Close = Allow"
| "gate_matrix Base_Changed Precommit = Allow"
| "gate_matrix Missing _ = Allow"
| "gate_matrix Dependency_Stale Spawn = Warn"
| "gate_matrix Dependency_Stale Finish = Block"
| "gate_matrix Dependency_Stale Close = Allow"
| "gate_matrix Dependency_Stale Precommit = Warn"

definition should_block :: "decision \<Rightarrow> gate_command \<Rightarrow> str list \<Rightarrow> gate_action" where
  "should_block d command ignored =
     (if dc_slug d \<in> set ignored then Allow
      else if dc_finished_at d \<noteq> None \<and> dc_state d \<in> {Merged, Closed} \<and> command \<in> {Spawn, Finish}
      then Allow
      else gate_matrix (dc_state d) command)"

definition is_ready :: "tasks \<Rightarrow> str \<Rightarrow> decision dict \<Rightarrow> bool" where
  "is_ready ts slug decisions = (case map_of ts slug of None \<Rightarrow> False
     | Some t \<Rightarrow> (if tk_finished_at t = None then False
         else case map_of decisions slug of None \<Rightarrow> False | Some d \<Rightarrow> dc_state d = Merged))"

section \<open>Stale dependencies\<close>

definition merge_time :: "decision \<Rightarrow> dt option" where
  "merge_time d = (case dc_updated_at d of
     JStr s \<Rightarrow> (if s = [] then None else fromisoformat (replace_z s)) | _ \<Rightarrow> None)"

text \<open>The inner loop: the first edge whose upstream merged after the task was created.\<close>

fun stale_edge :: "decision dict \<Rightarrow> dt \<Rightarrow> dependency_edge list \<Rightarrow> exn + bool" where
  "stale_edge out created [] = Inr False"
| "stale_edge out created (e # es) = (case map_of out (upstream_slug e) of
       None \<Rightarrow> stale_edge out created es
     | Some up \<Rightarrow> if dc_state up \<noteq> Merged then stale_edge out created es
         else (case merge_time up of None \<Rightarrow> stale_edge out created es
           | Some t \<Rightarrow> rbind (dt_gt t created) (\<lambda>later. if later then Inr True else stale_edge out created es)))"

definition stale_step :: "str \<times> task \<Rightarrow> decision dict \<Rightarrow> exn + decision dict" where
  "stale_step st out = (case map_of out (fst st) of None \<Rightarrow> Inr out
     | Some d \<Rightarrow> if dc_state d \<noteq> In_Sync then Inr out
         else rbind (stale_edge out (tk_created_at (snd st)) (tk_depends_on (snd st)))
           (\<lambda>stale. Inr (if stale then AList.update (fst st) (d\<lparr>dc_state := Dependency_Stale\<rparr>) out else out)))"

definition apply_dependency_stale :: "tasks \<Rightarrow> decision dict \<Rightarrow> exn + decision dict" where
  "apply_dependency_stale ts decisions = rfold stale_step ts decisions"

section \<open>Order independence of the stale pass\<close>

text \<open>
  The pass reads the dictionary it is updating, but only its merged entries, which it never
  changes; so its result is a map over the decisions it was given.
\<close>

definition merged_view :: "decision dict \<Rightarrow> str \<Rightarrow> decision option" where
  "merged_view out k = (case map_of out k of None \<Rightarrow> None
     | Some d \<Rightarrow> if dc_state d = Merged then Some d else None)"

lemma stale_edge_view:
  assumes "\<And>k. merged_view out k = merged_view dec k"
  shows "stale_edge out created es = stale_edge dec created es"
proof (induction es)
  case (Cons e es)
  from assms [of "upstream_slug e"] Cons show ?case
    by (auto simp: merged_view_def split: option.splits if_splits cong del: if_weak_cong)
qed simp

definition stale_decision :: "tasks \<Rightarrow> decision dict \<Rightarrow> str \<Rightarrow> decision \<Rightarrow> decision" where
  "stale_decision ts dec k d = (case map_of ts k of None \<Rightarrow> d
     | Some t \<Rightarrow> if dc_state d = In_Sync \<and> stale_edge dec (tk_created_at t) (tk_depends_on t) = Inr True
         then d\<lparr>dc_state := Dependency_Stale\<rparr> else d)"

definition stale_map :: "tasks \<Rightarrow> decision dict \<Rightarrow> decision dict" where
  "stale_map ts dec = List.map (\<lambda>kd. (fst kd, stale_decision ts dec (fst kd) (snd kd))) dec"

lemma map_of_stale_map:
  "map_of (stale_map ts dec) k = map_option (stale_decision ts dec k) (map_of dec k)"
  unfolding stale_map_def by (rule map_of_map_pair)

lemma stale_decision_merged: "dc_state (stale_decision ts dec k d) = Merged \<longleftrightarrow> dc_state d = Merged"
  by (auto simp: stale_decision_def split: option.split)

lemma stale_decision_keeps: "dc_state d = Merged \<Longrightarrow> stale_decision ts dec k d = d"
  by (auto simp: stale_decision_def split: option.split)

lemma stale_map_view: "merged_view (stale_map ts dec) k = merged_view dec k"
  by (cases "map_of dec k")
    (auto simp: merged_view_def map_of_stale_map stale_decision_merged stale_decision_keeps)

lemma stale_decision_snoc:
  assumes "fst x \<notin> set (dict_keys ts)"
  shows "stale_decision (ts @ [x]) dec k d =
    (if k = fst x then stale_decision [x] dec k d else stale_decision ts dec k d)"
proof (cases "k = fst x")
  case True
  with assms have "map_of ts k = None" by (simp add: map_of_eq_None_iff)
  with True show ?thesis by (simp add: stale_decision_def map_of_append map_add_def)
next
  case False
  then show ?thesis
    by (cases x) (auto simp: stale_decision_def map_of_append map_add_def split: option.splits)
qed

lemma stale_step_map:
  assumes "dict_ok dec" and "fst x \<notin> set (dict_keys ts)"
    and "stale_step x (stale_map ts dec) = Inr out"
  shows "out = stale_map (ts @ [x]) dec"
proof -
  let ?k = "fst x" and ?t = "snd x"
  have none: "map_of ts ?k = None" using assms(2) by (simp add: map_of_eq_None_iff)
  have edge: "stale_edge (stale_map ts dec) c es = stale_edge dec c es" for c es
    by (rule stale_edge_view) (rule stale_map_view)
  have snoc: "stale_map (ts @ [x]) dec = List.map (\<lambda>kd. (fst kd,
      if fst kd = ?k then stale_decision [x] dec ?k (snd kd) else stale_decision ts dec (fst kd) (snd kd))) dec"
    unfolding stale_map_def by (intro map_cong refl) (simp add: stale_decision_snoc [OF assms(2)])
  have at: "map_of (stale_map ts dec) ?k = map_of dec ?k"
    using none by (cases "map_of dec ?k") (simp_all add: map_of_stale_map stale_decision_def)
  have same: "stale_map (ts @ [x]) dec = stale_map ts dec"
    if "\<And>d. map_of dec ?k = Some d \<Longrightarrow> stale_decision [x] dec ?k d = d"
    unfolding snoc unfolding stale_map_def
  proof (intro map_cong refl)
    fix kd assume "kd \<in> set dec"
    then have "map_of dec (fst kd) = Some (snd kd)" using assms(1) by (simp add: dict_ok_map_of [symmetric])
    then show "(fst kd, if fst kd = ?k then stale_decision [x] dec ?k (snd kd)
        else stale_decision ts dec (fst kd) (snd kd)) = (fst kd, stale_decision ts dec (fst kd) (snd kd))"
      using that none by (auto simp: stale_decision_def)
  qed
  show ?thesis
  proof (cases "map_of dec ?k")
    case None
    with assms(3) at same show ?thesis by (simp add: stale_step_def)
  next
    case (Some d)
    have one: "map_of [x] ?k = Some ?t" by (cases x) simp
    show ?thesis
    proof (cases "dc_state d = In_Sync \<and> stale_edge dec (tk_created_at ?t) (tk_depends_on ?t) = Inr True")
      case True
      then have st: "stale_decision [x] dec ?k d = d\<lparr>dc_state := Dependency_Stale\<rparr>"
        using one by (simp add: stale_decision_def)
      from assms(3) at Some True
      have "out = AList.update ?k (d\<lparr>dc_state := Dependency_Stale\<rparr>) (stale_map ts dec)"
        by (simp add: stale_step_def edge)
      also have "\<dots> = List.map (\<lambda>kd. (fst kd, if fst kd = ?k then d\<lparr>dc_state := Dependency_Stale\<rparr>
          else stale_decision ts dec (fst kd) (snd kd))) dec"
        unfolding stale_map_def using assms(1) Some by (intro update_map_pair) (simp_all add: dict_ok_def)
      also have "\<dots> = stale_map (ts @ [x]) dec"
        unfolding snoc
      proof (intro map_cong refl)
        fix kd assume "kd \<in> set dec"
        then have "map_of dec (fst kd) = Some (snd kd)"
          using assms(1) by (simp add: dict_ok_map_of [symmetric])
        with Some st show "(fst kd, if fst kd = ?k then d\<lparr>dc_state := Dependency_Stale\<rparr>
            else stale_decision ts dec (fst kd) (snd kd)) =
          (fst kd, if fst kd = ?k then stale_decision [x] dec ?k (snd kd)
            else stale_decision ts dec (fst kd) (snd kd))" by auto
      qed
      finally show ?thesis .
    next
      case False
      then have "stale_decision [x] dec ?k d = d" using one by (auto simp: stale_decision_def)
      with Some same have eq: "stale_map (ts @ [x]) dec = stale_map ts dec" by auto
      from assms(3) at Some False have "out = stale_map ts dec"
        by (auto simp: stale_step_def edge result_simps split: if_splits)
      with eq show ?thesis by simp
    qed
  qed
qed

lemma apply_dependency_stale_map:
  assumes "dict_ok dec"
  shows "distinct (dict_keys ts) \<Longrightarrow> apply_dependency_stale ts dec = Inr out \<Longrightarrow> out = stale_map ts dec"
proof (induction ts arbitrary: out rule: rev_induct)
  case Nil
  then show ?case by (simp add: apply_dependency_stale_def stale_map_def stale_decision_def)
next
  case (snoc x ts)
  from snoc.prems(2) obtain mid where mid: "apply_dependency_stale ts dec = Inr mid"
    and last: "stale_step x mid = Inr out"
    by (auto simp: apply_dependency_stale_def rfold_append result_simps)
  from snoc.prems(1) have "distinct (dict_keys ts)" and fresh: "fst x \<notin> set (dict_keys ts)" by auto
  with snoc.IH [OF _ mid] last have "stale_step x (stale_map ts dec) = Inr out" by simp
  from stale_step_map [OF assms fresh this] show ?case .
qed

text \<open>When the loop over the edges decides.\<close>

definition merged_later :: "decision dict \<Rightarrow> dt \<Rightarrow> str \<Rightarrow> bool" where
  "merged_later dec created u = (case map_of dec u of None \<Rightarrow> False
     | Some up \<Rightarrow> dc_state up = Merged \<and>
         (case merge_time up of None \<Rightarrow> False | Some t \<Rightarrow> instant t > instant created))"

lemma stale_edge_iff:
  "stale_edge dec created es = Inr b \<Longrightarrow> b \<longleftrightarrow> (\<exists>e \<in> set es. merged_later dec created (upstream_slug e))"
proof (induction es)
  case (Cons e es)
  then show ?case
    by (auto simp: merged_later_def dt_gt_def result_simps split: option.splits if_splits)
qed simp

lemma stale_edge_total:
  assumes "\<not> is_naive created"
    and "\<And>k d t. map_of dec k = Some d \<Longrightarrow> dc_state d = Merged \<Longrightarrow> merge_time d = Some t \<Longrightarrow> \<not> is_naive t"
  shows "\<exists>b. stale_edge dec created es = Inr b"
proof (induction es)
  case (Cons e es)
  then show ?case using assms
    by (auto simp: dt_gt_def split: option.split)
qed auto

definition aware_inputs :: "tasks \<Rightarrow> decision dict \<Rightarrow> bool" where
  "aware_inputs ts dec \<longleftrightarrow> (\<forall>st \<in> set ts. \<not> is_naive (tk_created_at (snd st))) \<and>
     (\<forall>kd \<in> set dec. dc_state (snd kd) = Merged \<longrightarrow>
        (case merge_time (snd kd) of None \<Rightarrow> True | Some t \<Rightarrow> \<not> is_naive t))"

lemma stale_step_total:
  assumes "\<And>k. merged_view out k = merged_view dec k" and "aware_inputs [x] dec"
  shows "\<exists>out'. stale_step x out = Inr out'"
proof -
  have "\<exists>b. stale_edge dec (tk_created_at (snd x)) (tk_depends_on (snd x)) = Inr b"
  proof (rule stale_edge_total)
    show "\<not> is_naive (tk_created_at (snd x))" using assms(2) by (simp add: aware_inputs_def)
    fix k d t
    assume "map_of dec k = Some d" "dc_state d = Merged" "merge_time d = Some t"
    moreover from this(1) have "(k, d) \<in> set dec" by (rule map_of_SomeD)
    ultimately show "\<not> is_naive t" using assms(2) unfolding aware_inputs_def by force
  qed
  with stale_edge_view [OF assms(1)] show ?thesis
    by (auto simp: stale_step_def split: option.split)
qed

lemma apply_dependency_stale_total:
  assumes "dict_ok dec"
  shows "distinct (dict_keys ts) \<Longrightarrow> aware_inputs ts dec \<Longrightarrow>
    apply_dependency_stale ts dec = Inr (stale_map ts dec)"
proof (induction ts rule: rev_induct)
  case Nil
  then show ?case by (simp add: apply_dependency_stale_def stale_map_def stale_decision_def)
next
  case (snoc x ts)
  have "aware_inputs ts dec" "aware_inputs [x] dec" using snoc.prems(2) by (simp_all add: aware_inputs_def)
  with snoc have mid: "apply_dependency_stale ts dec = Inr (stale_map ts dec)" by simp
  obtain out where "stale_step x (stale_map ts dec) = Inr out"
    using stale_step_total [OF stale_map_view \<open>aware_inputs [x] dec\<close>] by blast
  with mid have all: "apply_dependency_stale (ts @ [x]) dec = Inr out"
    by (simp add: apply_dependency_stale_def rfold_append)
  from apply_dependency_stale_map [OF assms snoc.prems(1) all] all show ?case by simp
qed

section \<open>Properties\<close>

text \<open>C7: the stale pass, on aware timestamps, never fails, keeps every entry in place, and
  turns a decision into \<open>dependency_stale\<close> exactly when it was \<open>in_sync\<close> and an upstream of
  its task merged after the task was created, whatever the order of the tasks.\<close>

theorem dependency_stale_exact:
  assumes "dict_ok ts" and "dict_ok dec" and "aware_inputs ts dec"
  shows "\<exists>out. apply_dependency_stale ts dec = Inr out \<and> dict_keys out = dict_keys dec
    \<and> (\<forall>k d. map_of dec k = Some d \<longrightarrow> map_of out k = Some
        (if dc_state d = In_Sync \<and> (case map_of ts k of None \<Rightarrow> False
             | Some t \<Rightarrow> list_ex (\<lambda>e. merged_later dec (tk_created_at t) (upstream_slug e)) (tk_depends_on t))
         then d\<lparr>dc_state := Dependency_Stale\<rparr> else d))"
proof (intro exI conjI allI impI)
  show "apply_dependency_stale ts dec = Inr (stale_map ts dec)"
    using apply_dependency_stale_total assms by (simp add: dict_ok_def)
  show "dict_keys (stale_map ts dec) = dict_keys dec" by (simp add: stale_map_def)
  fix k d assume d: "map_of dec k = Some d"
  have "stale_edge dec (tk_created_at t) es = Inr True \<longleftrightarrow>
      list_ex (\<lambda>e. merged_later dec (tk_created_at t) (upstream_slug e)) es"
    if t: "map_of ts k = Some t" for t es
  proof -
    have "\<exists>b. stale_edge dec (tk_created_at t) es = Inr b"
    proof (rule stale_edge_total)
      have "(k, t) \<in> set ts" using t by (rule map_of_SomeD)
      then show "\<not> is_naive (tk_created_at t)" using assms(3) unfolding aware_inputs_def by force
      fix k' d' t'
      assume "map_of dec k' = Some d'" "dc_state d' = Merged" "merge_time d' = Some t'"
      moreover from this(1) have "(k', d') \<in> set dec" by (rule map_of_SomeD)
      ultimately show "\<not> is_naive t'" using assms(3) unfolding aware_inputs_def by force
    qed
    then obtain b where b: "stale_edge dec (tk_created_at t) es = Inr b" ..
    from stale_edge_iff [OF this] b show ?thesis by (simp add: list_ex_iff)
  qed
  then show "map_of (stale_map ts dec) k = Some
      (if dc_state d = In_Sync \<and> (case map_of ts k of None \<Rightarrow> False
           | Some t \<Rightarrow> list_ex (\<lambda>e. merged_later dec (tk_created_at t) (upstream_slug e)) (tk_depends_on t))
       then d\<lparr>dc_state := Dependency_Stale\<rparr> else d)"
    using d by (simp add: map_of_stale_map stale_decision_def split: option.split)
qed

definition sample_decision :: "str \<Rightarrow> upstream_state \<Rightarrow> decision" where
  "sample_decision slug st = \<lparr>dc_slug = slug, dc_state = st, dc_pr_url = JNull, dc_pr_number = JNull,
     dc_base = JNull, dc_merge_commit = JNull, dc_updated_at = JStr ''2024-01-02T00:00:00Z'',
     dc_finished_at = None\<rparr>"

definition sample_decisions :: "decision dict" where
  "sample_decisions = [(''c'', sample_decision ''c'' In_Sync), (''b'', sample_decision ''b'' In_Sync),
     (''a'', sample_decision ''a'' Merged)]"

theorem dependency_stale_exact_witness:
  "\<exists>out. apply_dependency_stale sample_tasks sample_decisions = Inr out
    \<and> map_of out ''c'' = Some (sample_decision ''c'' Dependency_Stale)"
proof -
  have ok: "dict_ok sample_tasks" "dict_ok sample_decisions"
    "aware_inputs sample_tasks sample_decisions" by code_simp+
  have c: "map_of sample_decisions ''c'' = Some (sample_decision ''c'' In_Sync)" by code_simp
  let ?stale = "dc_state (sample_decision ''c'' In_Sync) = In_Sync \<and>
      (case map_of sample_tasks ''c'' of None \<Rightarrow> False | Some t \<Rightarrow> list_ex
        (\<lambda>e. merged_later sample_decisions (tk_created_at t) (upstream_slug e)) (tk_depends_on t))"
  have st: "?stale" by code_simp
  have eq: "(sample_decision ''c'' In_Sync)\<lparr>dc_state := Dependency_Stale\<rparr> = sample_decision ''c'' Dependency_Stale"
    by (simp add: sample_decision_def)
  from dependency_stale_exact [OF ok] c obtain out where
    out: "apply_dependency_stale sample_tasks sample_decisions = Inr out"
      "map_of out ''c'' = Some (if ?stale then (sample_decision ''c'' In_Sync)\<lparr>dc_state := Dependency_Stale\<rparr>
         else sample_decision ''c'' In_Sync)" by blast
  from out(2) have "map_of out ''c'' = Some (sample_decision ''c'' Dependency_Stale)"
    by (simp only: st eq simp_thms if_True)
  with out(1) show ?thesis by blast
qed


end
