(* ===== verification/Reconcile.thy ===== *)
theory Reconcile
  imports Detection Config
begin

text \<open>
  The reconcile cache (core/reconcile/cache.py) and the cache-first reconciliation of a
  workspace (core/reconcile/gate.py). The cache file is the JSON value it decodes to, \<open>None\<close>
  when it is missing or does not decode; a locked section is one step on it. The fetcher is an
  argument, \<open>None\<close> when it raises \<open>FetchError\<close>; the clock is an argument, in ticks.
\<close>

section \<open>The cache\<close>

definition schema_version :: int where
  "schema_version = 2"

definition default_ttl_seconds :: int where
  "default_ttl_seconds = 300"

record cache_payload =
  cp_fetched_at :: int
  cp_ttl_seconds :: int
  cp_results :: "json dict"
  cp_ignored :: "json list"
  cp_schema_version :: int
  cp_base_context :: "str list option dict option"

text \<open>\<open>float(v)\<close> and \<open>int(v)\<close>, \<open>dict(v)\<close> and \<open>list(v)\<close>; \<open>None\<close> where they raise.\<close>

definition json_number :: "json \<Rightarrow> int option" where
  "json_number v = (case v of JNum n \<Rightarrow> Some n | JBool b \<Rightarrow> Some (if b then 1 else 0)
     | JStr s \<Rightarrow> py_int s | _ \<Rightarrow> None)"

definition json_pair :: "json \<Rightarrow> (str \<times> json) option" where
  "json_pair v = (case v of JList [JStr k, x] \<Rightarrow> Some (k, x) | _ \<Rightarrow> None)"

definition json_dict :: "json \<Rightarrow> json dict option" where
  "json_dict v = (case v of JObj d \<Rightarrow> Some d
     | JList xs \<Rightarrow> (if list_all (\<lambda>x. json_pair x \<noteq> None) xs
                   then Some (dict_of (List.map (\<lambda>x. the (json_pair x)) xs)) else None)
     | _ \<Rightarrow> None)"

definition json_list :: "json \<Rightarrow> json list option" where
  "json_list v = (case v of JList xs \<Rightarrow> Some xs | JObj d \<Rightarrow> Some (List.map JStr (dict_keys d))
     | JStr s \<Rightarrow> Some (List.map (\<lambda>c. JStr [c]) s) | _ \<Rightarrow> None)"

definition json_strings :: "json list \<Rightarrow> str list option" where
  "json_strings xs = (if list_all (\<lambda>x. case x of JStr _ \<Rightarrow> True | _ \<Rightarrow> False) xs
     then Some (List.map (\<lambda>x. case x of JStr s \<Rightarrow> s | _ \<Rightarrow> []) xs) else None)"

text \<open>One entry of \<open>base_context\<close>: absent bases, or a list of strings; \<open>None\<close> is malformed.\<close>

definition read_bases :: "json \<Rightarrow> str list option option" where
  "read_bases v = (case v of JNull \<Rightarrow> Some None
     | JList xs \<Rightarrow> (case json_strings xs of None \<Rightarrow> None | Some ss \<Rightarrow> Some (Some ss)) | _ \<Rightarrow> None)"

definition read_base_context :: "json \<Rightarrow> str list option dict option option" where
  "read_base_context v = (case v of JNull \<Rightarrow> Some None
     | JObj d \<Rightarrow> (if list_all (\<lambda>kv. read_bases (snd kv) \<noteq> None) d
                 then Some (Some (List.map (\<lambda>kv. (fst kv, the (read_bases (snd kv)))) d)) else None)
     | _ \<Rightarrow> None)"

definition json_get_default :: "json dict \<Rightarrow> str \<Rightarrow> json \<Rightarrow> json" where
  "json_get_default d k v = (case map_of d k of None \<Rightarrow> v | Some x \<Rightarrow> x)"

definition cache_read :: "json option \<Rightarrow> cache_payload option" where
  "cache_read file = (case file of
     Some (JObj data) \<Rightarrow> (case read_base_context (json_get data ''base_context'') of
        None \<Rightarrow> None
      | Some context \<Rightarrow>
         (case (case map_of data ''fetched_at'' of None \<Rightarrow> None | Some v \<Rightarrow> json_number v,
                json_number (json_get_default data ''ttl_seconds'' (JNum default_ttl_seconds)),
                json_dict (json_get_default data ''results'' (JObj [])),
                json_list (json_get_default data ''ignored'' (JList [])),
                json_number (json_get_default data ''schema_version'' (JNum 0))) of
            (Some fetched, Some ttl, Some results, Some ignored, Some version) \<Rightarrow>
               Some \<lparr>cp_fetched_at = fetched, cp_ttl_seconds = ttl, cp_results = results,
                 cp_ignored = ignored, cp_schema_version = version, cp_base_context = context\<rparr>
          | _ \<Rightarrow> None))
   | _ \<Rightarrow> None)"

definition bases_json :: "str list option \<Rightarrow> json" where
  "bases_json b = (case b of None \<Rightarrow> JNull | Some ss \<Rightarrow> JList (List.map JStr ss))"

definition write_unlocked :: "cache_payload \<Rightarrow> json option" where
  "write_unlocked p = Some (JObj [
     (''fetched_at'', JNum (cp_fetched_at p)), (''ttl_seconds'', JNum (cp_ttl_seconds p)),
     (''results'', JObj (cp_results p)), (''ignored'', JList (cp_ignored p)),
     (''base_context'', case cp_base_context p of None \<Rightarrow> JNull
        | Some c \<Rightarrow> JObj (List.map (\<lambda>kb. (fst kb, bases_json (snd kb))) c)),
     (''schema_version'', JNum (cp_schema_version p))])"

definition cache_write :: "cache_payload \<Rightarrow> bool \<Rightarrow> json option \<Rightarrow> json option" where
  "cache_write p preserve_ignores file =
     (if preserve_ignores
      then write_unlocked (p\<lparr>cp_ignored :=
             (case cache_read file of None \<Rightarrow> [] | Some c \<Rightarrow> cp_ignored c)\<rparr>)
      else write_unlocked p)"

definition invalidate :: "json option \<Rightarrow> json option" where
  "invalidate file = (case cache_read file of None \<Rightarrow> file
     | Some p \<Rightarrow> write_unlocked (p\<lparr>cp_fetched_at := 0\<rparr>))"

definition is_fresh :: "int \<Rightarrow> cache_payload \<Rightarrow> bool" where
  "is_fresh now p \<longleftrightarrow>
     cp_schema_version p = schema_version \<and> now - cp_fetched_at p < cp_ttl_seconds p"

definition current :: "cache_payload option \<Rightarrow> str list option dict \<Rightarrow> str list option \<Rightarrow> cache_payload option" where
  "current payload base_context only_slugs = (case payload of None \<Rightarrow> None
     | Some p \<Rightarrow>
        if cp_schema_version p \<noteq> schema_version then None
        else (case only_slugs of
            None \<Rightarrow> (case cp_base_context p of None \<Rightarrow> None
              | Some c \<Rightarrow> if dict_eq (=) c base_context then Some p else None)
          | Some slugs \<Rightarrow> (case cp_base_context p of None \<Rightarrow> None
              | Some c \<Rightarrow>
                 if \<exists>s \<in> set slugs. s \<notin> set (dict_keys c) \<or> s \<notin> set (dict_keys (cp_results p))
                      \<or> s \<notin> set (dict_keys base_context) \<or> map_of c s \<noteq> map_of base_context s
                 then None else Some p)))"

definition read_ignores :: "json option \<Rightarrow> json list" where
  "read_ignores file = (case cache_read file of None \<Rightarrow> [] | Some p \<Rightarrow> cp_ignored p)"

definition empty_payload :: cache_payload where
  "empty_payload = \<lparr>cp_fetched_at = 0, cp_ttl_seconds = default_ttl_seconds, cp_results = [],
     cp_ignored = [], cp_schema_version = schema_version, cp_base_context = None\<rparr>"

definition add_ignore :: "str \<Rightarrow> json option \<Rightarrow> json option" where
  "add_ignore slug file =
     (let p = (case cache_read file of None \<Rightarrow> empty_payload | Some p \<Rightarrow> p)
      in write_unlocked (if JStr slug \<in> set (cp_ignored p) then p
           else p\<lparr>cp_ignored := cp_ignored p @ [JStr slug]\<rparr>))"

definition remove_ignore :: "str \<Rightarrow> json option \<Rightarrow> json option" where
  "remove_ignore slug file = (case cache_read file of None \<Rightarrow> file
     | Some p \<Rightarrow> if JStr slug \<notin> set (cp_ignored p) then file
         else write_unlocked (p\<lparr>cp_ignored := filter (\<lambda>s. s \<noteq> JStr slug) (cp_ignored p)\<rparr>))"

definition clear_ignores :: "json option \<Rightarrow> json option" where
  "clear_ignores file = (case cache_read file of None \<Rightarrow> file
     | Some p \<Rightarrow> write_unlocked (p\<lparr>cp_ignored := []\<rparr>))"

section \<open>What is written is read back\<close>

lemma read_bases_json: "read_bases (bases_json b) = Some b"
  by (cases b) (simp_all add: read_bases_def bases_json_def json_strings_def list_all_iff o_def)

lemma cache_read_write [simp]: "cache_read (write_unlocked p) = Some p"
proof (cases "cp_base_context p")
  case None
  then show ?thesis
    by (simp add: cache_read_def write_unlocked_def json_get_def json_get_default_def json_number_def
        json_dict_def json_list_def read_base_context_def)
next
  case (Some c)
  have "read_base_context (JObj (List.map (\<lambda>kb. (fst kb, bases_json (snd kb))) c)) = Some (Some c)"
    by (simp add: read_base_context_def list_all_iff read_bases_json o_def)
  with Some show ?thesis
    by (simp add: cache_read_def write_unlocked_def json_get_def json_get_default_def json_number_def
        json_dict_def json_list_def)
qed

text \<open>Changing the ignore list never makes results newer, and never changes them.\<close>

definition same_results :: "cache_payload \<Rightarrow> cache_payload \<Rightarrow> bool" where
  "same_results p q \<longleftrightarrow> q = p\<lparr>cp_ignored := cp_ignored q\<rparr>"

lemma ignore_ops_keep_results:
  assumes "cache_read file = Some p" and "op \<in> {add_ignore s, remove_ignore s, clear_ignores}"
  shows "\<exists>q. cache_read (op file) = Some q \<and> same_results p q"
  using assms
  by (auto simp: add_ignore_def remove_ignore_def clear_ignores_def same_results_def Let_def)

section \<open>Resolved bases\<close>

definition config_base :: "workspace_config option \<Rightarrow> str \<Rightarrow> str option" where
  "config_base config repo = (case config of None \<Rightarrow> None
     | Some wc \<Rightarrow> (case map_of (wc_repos wc) repo of None \<Rightarrow> None | Some rc \<Rightarrow> rc_base_branch rc))"

definition add_base ::
  "task \<Rightarrow> workspace_config option \<Rightarrow> str option \<Rightarrow> str dict \<Rightarrow> str \<Rightarrow> str set \<Rightarrow> exn + str set" where
  "add_base t config cli_base base_map repo bases =
     (let known = (case config of Some wc \<Rightarrow> dict_keys (wc_repos wc) | None \<Rightarrow> tk_affected_repos t)
      in rbind (resolve_base repo (config_base config repo) cli_base base_map known (tk_base_override t))
           (\<lambda>resolved. Inr (case (if resolved \<noteq> None then resolved else tk_base_branch t) of
               None \<Rightarrow> bases | Some b \<Rightarrow> insert b bases)))"

definition resolved_task_bases ::
  "task \<Rightarrow> workspace_config option \<Rightarrow> str option \<Rightarrow> str dict \<Rightarrow> exn + str set option" where
  "resolved_task_bases t config cli_base base_map =
     (if tk_affected_repos t = []
      then Inr (case tk_base_branch t of None \<Rightarrow> None | Some b \<Rightarrow> Some {b})
      else rbind (rfold (add_base t config cli_base base_map) (tk_affected_repos t) {})
             (\<lambda>bases. Inr (if bases = {} then None else Some bases)))"

type_synonym base_inputs = "(str option \<times> str dict) dict"

definition resolve_task_bases ::
  "tasks \<Rightarrow> workspace_config option \<Rightarrow> base_inputs \<Rightarrow> exn + str set option dict" where
  "resolve_task_bases ts config inputs = rfold (\<lambda>kt out.
     (let t = snd kt;
          ci = (case map_of inputs (tk_slug t) of None \<Rightarrow> (None, []) | Some ci \<Rightarrow> ci)
      in rbind (resolved_task_bases t config (fst ci) (snd ci))
           (\<lambda>b. Inr (AList.update (tk_slug t) b out)))) ts []"

section \<open>Decisions from the cache\<close>

definition valid_merged_timestamp :: "json \<Rightarrow> bool" where
  "valid_merged_timestamp v = (case v of JStr s \<Rightarrow>
       (case fromisoformat (replace_z s) of None \<Rightarrow> False | Some t \<Rightarrow> \<not> is_naive t)
     | _ \<Rightarrow> False)"

fun state_name :: "upstream_state \<Rightarrow> str" where
  "state_name In_Sync = ''in_sync''"
| "state_name Merged = ''merged''"
| "state_name Closed = ''closed''"
| "state_name Diverged = ''diverged''"
| "state_name Base_Changed = ''base_changed''"
| "state_name Missing = ''missing''"
| "state_name Dependency_Stale = ''dependency_stale''"

definition state_of_name :: "str \<Rightarrow> upstream_state option" where
  "state_of_name s = List.find (\<lambda>st. state_name st = s)
     [In_Sync, Merged, Closed, Diverged, Base_Changed, Missing, Dependency_Stale]"

lemma state_of_state_name [simp]: "state_of_name (state_name st) = Some st"
  by (cases st) (simp_all add: state_of_name_def)

definition decision_from_cache_entry :: "str \<Rightarrow> json \<Rightarrow> tasks \<Rightarrow> decision option" where
  "decision_from_cache_entry slug raw ts = (case raw of
     JObj d \<Rightarrow> (case map_of d ''state'' of
         Some (JStr s) \<Rightarrow> (case state_of_name s of None \<Rightarrow> None
           | Some st \<Rightarrow>
              if st = Merged \<and> \<not> valid_merged_timestamp (json_get d ''updated_at'') then None
              else Some \<lparr>dc_slug = slug, dc_state = st, dc_pr_url = json_get d ''pr_url'',
                dc_pr_number = json_get d ''pr_number'', dc_base = json_get d ''base'',
                dc_merge_commit = json_get d ''merge_commit'', dc_updated_at = json_get d ''updated_at'',
                dc_finished_at = finished_at_for slug ts\<rparr>)
       | _ \<Rightarrow> None)
   | _ \<Rightarrow> None)"

definition cached_entries :: "tasks \<Rightarrow> cache_payload \<Rightarrow> str list \<Rightarrow> decision dict" where
  "cached_entries ts p slugs = dict_of (List.map_filter (\<lambda>slug.
     (case map_of (cp_results p) slug of None \<Rightarrow> None
      | Some raw \<Rightarrow> if raw = JNull then None
          else map_option (\<lambda>d. (slug, d)) (decision_from_cache_entry slug raw ts))) slugs)"

definition only_in :: "str list option \<Rightarrow> decision dict \<Rightarrow> decision dict" where
  "only_in only_slugs ds = (case only_slugs of None \<Rightarrow> ds
     | Some slugs \<Rightarrow> filter (\<lambda>kd. fst kd \<in> set slugs) ds)"

definition decisions_from_cache ::
  "tasks \<Rightarrow> cache_payload \<Rightarrow> str list option \<Rightarrow> exn + decision dict" where
  "decisions_from_cache ts p only_slugs =
     rbind (apply_dependency_stale ts
              (cached_entries ts p (case only_slugs of None \<Rightarrow> dict_keys ts | Some s \<Rightarrow> s)))
       (\<lambda>ds. Inr (only_in only_slugs ds))"

section \<open>Reconciliation\<close>

type_synonym fetcher = "str list \<Rightarrow> str dict \<Rightarrow> (pr_snapshot dict \<times> git_snapshot dict) option"

text \<open>The selected tasks and everything upstream of them.\<close>

definition reconciliation_closure :: "tasks \<Rightarrow> str list \<Rightarrow> str list" where
  "reconciliation_closure ts only = upstream_loop ts only (rev only)"

definition result_json :: "detection \<Rightarrow> json" where
  "result_json d = JObj [(''state'', JStr (state_name (dn_state d))),
     (''pr_url'', opt_json (dn_pr_url d)), (''pr_number'', int_json (dn_pr_number d)),
     (''base'', opt_json (dn_base d)), (''merge_commit'', opt_json (dn_merge_commit d)),
     (''updated_at'', opt_json (dn_updated_at d))]"

definition base_context_of :: "str set option dict \<Rightarrow> str list option dict" where
  "base_context_of bases = List.map (\<lambda>kb. (fst kb, map_option sorted_list_of_set (snd kb))) bases"

definition bases_arg :: "str set option \<Rightarrow> task_base" where
  "bases_arg b = (case b of None \<Rightarrow> No_Base | Some S \<Rightarrow> Any_Base S)"

definition worktrees_by_branch :: "task list \<Rightarrow> str dict" where
  "worktrees_by_branch sel = dict_of (List.map_filter (\<lambda>t. case tk_worktrees t of [] \<Rightarrow> None
     | kv # _ \<Rightarrow> Some (tk_branch t, snd kv)) sel)"

definition selected_tasks :: "tasks \<Rightarrow> str list option \<Rightarrow> task list" where
  "selected_tasks ts slugs = filter (\<lambda>t. case slugs of None \<Rightarrow> True | Some s \<Rightarrow> tk_slug t \<in> set s)
     (dict_values ts)"

definition fresh_detections ::
  "task list \<Rightarrow> str set option dict \<Rightarrow> pr_snapshot dict \<Rightarrow> git_snapshot dict \<Rightarrow> detection dict" where
  "fresh_detections sel bases prs gits = detect_many (List.map (\<lambda>t. (tk_slug t, tk_branch t,
     case map_of bases (tk_slug t) of None \<Rightarrow> No_Base | Some b \<Rightarrow> bases_arg b)) sel) prs gits"

definition fetched_step ::
  "tasks \<Rightarrow> str list option \<Rightarrow> decision dict option \<Rightarrow> detection dict \<Rightarrow> exn + decision dict" where
  "fetched_step ts only_slugs cached detections =
     (let fresh = List.map (\<lambda>kd. (fst kd, decision_from_detection (fst kd) (snd kd) ts)) detections;
          ds = (case (cached, only_slugs) of (Some c, Some _) \<Rightarrow> dict_update c fresh | _ \<Rightarrow> fresh)
      in rbind (apply_dependency_stale ts ds) (\<lambda>out. Inr (only_in only_slugs out)))"

text \<open>The outcome, and the cache file, which stays written when a later step raises.\<close>

definition fetch_and_decide ::
  "tasks \<Rightarrow> json option \<Rightarrow> int \<Rightarrow> fetcher \<Rightarrow> int \<Rightarrow> str list option \<Rightarrow> task list
   \<Rightarrow> str set option dict \<Rightarrow> decision dict option \<Rightarrow> bool \<Rightarrow> (exn + decision dict) \<times> json option" where
  "fetch_and_decide ts file now fetcher ttl only_slugs sel bases cached complete =
     (case fetcher (List.map tk_branch sel) (worktrees_by_branch sel) of
        None \<Rightarrow> (Inr (if complete then only_in only_slugs (the cached) else []), file)
      | Some (prs, gits) \<Rightarrow>
         (let detections = fresh_detections sel bases prs gits
          in (fetched_step ts only_slugs cached detections,
              if only_slugs = None
              then cache_write \<lparr>cp_fetched_at = now, cp_ttl_seconds = ttl,
                cp_results = List.map (\<lambda>kd. (fst kd, result_json (snd kd))) detections,
                cp_ignored = [], cp_schema_version = schema_version,
                cp_base_context = Some (base_context_of bases)\<rparr> True file
              else file)))"

definition cached_decisions ::
  "tasks \<Rightarrow> cache_payload option \<Rightarrow> str list option \<Rightarrow> exn + decision dict option" where
  "cached_decisions ts payload slugs = (case payload of None \<Rightarrow> Inr None
     | Some p \<Rightarrow> rbind (decisions_from_cache ts p slugs) (\<lambda>ds. Inr (Some ds)))"

definition reconcile_now ::
  "tasks \<Rightarrow> json option \<Rightarrow> int \<Rightarrow> fetcher \<Rightarrow> int \<Rightarrow> workspace_config option \<Rightarrow> base_inputs
   \<Rightarrow> str list option \<Rightarrow> (exn + decision dict) \<times> json option" where
  "reconcile_now ts file now fetcher ttl config inputs only_slugs =
     (case resolve_task_bases ts config inputs of Inl e \<Rightarrow> (Inl e, file) | Inr bases \<Rightarrow>
     let slugs = map_option (reconciliation_closure ts) only_slugs;
         sel = selected_tasks ts slugs;
         payload = current (cache_read file) (base_context_of bases) slugs
     in case cached_decisions ts payload slugs of Inl e \<Rightarrow> (Inl e, file) | Inr cached \<Rightarrow>
     let required = (case slugs of None \<Rightarrow> dict_keys ts | Some s \<Rightarrow> s);
         complete = (case cached of None \<Rightarrow> False | Some c \<Rightarrow> set required \<subseteq> set (dict_keys c))
     in if (case payload of None \<Rightarrow> False | Some p \<Rightarrow> is_fresh now p) \<and> complete
        then (Inr (only_in only_slugs (the cached)), file)
        else fetch_and_decide ts file now fetcher ttl only_slugs sel bases cached complete)"

section \<open>A warm cache answers like the fetch that filled it\<close>

lemma entry_of_result:
  "decision_from_cache_entry slug (result_json d) ts =
     (if dn_state d = Merged \<and> \<not> valid_merged_timestamp (opt_json (dn_updated_at d)) then None
      else Some (decision_from_detection slug d ts))"
  by (simp add: decision_from_cache_entry_def result_json_def json_get_def decision_from_detection_def)

lemma current_Some: "current payload context slugs = Some p \<Longrightarrow> payload = Some p"
  by (auto simp: current_def split: option.splits if_splits)

lemma dict_eq_refl: "dict_ok d \<Longrightarrow> dict_eq (=) d d"
  using dict_ok_map_of [of d] unfolding dict_eq_def by auto

lemma resolve_task_bases_ok: "resolve_task_bases ts config inputs = Inr bases \<Longrightarrow> dict_ok bases"
  unfolding resolve_task_bases_def
  by (erule rfold_invariant) (auto simp: Let_def result_simps)

lemma map_filter_total:
  "(\<And>x. x \<in> set xs \<Longrightarrow> f x = Some (g x)) \<Longrightarrow> List.map_filter f xs = List.map g xs"
  by (induction xs) (simp_all add: List.map_filter_def)

lemma keyed_values: "keyed ts \<Longrightarrow> List.map tk_slug (dict_values ts) = dict_keys ts"
  unfolding keyed_def by (induction ts) auto

lemma detect_many_keys:
  "distinct (List.map fst xs) \<Longrightarrow> dict_keys (detect_many xs prs gits) = List.map fst xs"
  unfolding detect_many_def by (subst dict_of_id) (simp_all add: case_prod_beta o_def)

lemma detect_one_state_merged:
  "dn_state (detect_one b base pr git) = Merged \<Longrightarrow>
   \<exists>p. pr = Some p \<and> ps_state p = ''MERGED'' \<and> dn_updated_at (detect_one b base pr git) = Some (ps_updated_at p)"
  by (auto simp: detect_one_def detected_def split: option.splits if_splits)

lemma detect_many_merged:
  assumes "(k, d) \<in> set (detect_many xs prs gits)" and "distinct (List.map fst xs)" and "dn_state d = Merged"
  shows "\<exists>p. p \<in> set (dict_values prs) \<and> ps_state p = ''MERGED'' \<and> dn_updated_at d = Some (ps_updated_at p)"
proof -
  have "detect_many xs prs gits = List.map (\<lambda>(slug, branch, base).
     (slug, detect_one branch base (map_of prs branch)
        (case map_of gits branch of Some g \<Rightarrow> g
         | None \<Rightarrow> \<lparr>gs_has_upstream = False, gs_behind = 0, gs_ahead = 0\<rparr>))) xs"
    unfolding detect_many_def using assms(2) by (intro dict_of_id) (simp add: case_prod_beta o_def)
  with assms(1) obtain branch base git where "d = detect_one branch base (map_of prs branch) git" by auto
  with detect_one_state_merged assms(3) obtain p where
    "map_of prs branch = Some p" "ps_state p = ''MERGED''" "dn_updated_at d = Some (ps_updated_at p)" by blast
  then show ?thesis by (metis map_of_SomeD imageI set_map snd_conv)
qed

lemma cached_entries_of_results:
  assumes "dict_ok dets" and "cp_results p = List.map (\<lambda>kd. (fst kd, result_json (snd kd))) dets"
    and "\<And>k d. (k, d) \<in> set dets \<Longrightarrow> dn_state d = Merged \<Longrightarrow>
      valid_merged_timestamp (opt_json (dn_updated_at d))"
  shows "cached_entries ts p (dict_keys dets) =
    List.map (\<lambda>kd. (fst kd, decision_from_detection (fst kd) (snd kd) ts)) dets"
proof -
  let ?f = "\<lambda>slug. (case map_of (cp_results p) slug of None \<Rightarrow> None
      | Some raw \<Rightarrow> if raw = JNull then None
          else map_option (\<lambda>d. (slug, d)) (decision_from_cache_entry slug raw ts))"
  have "?f (fst kd) = Some (fst kd, decision_from_detection (fst kd) (snd kd) ts)" if "kd \<in> set dets" for kd
  proof -
    from that assms(1) have "map_of dets (fst kd) = Some (snd kd)" by (simp add: dict_ok_map_of [symmetric])
    then have "map_of (cp_results p) (fst kd) = Some (result_json (snd kd))"
      unfolding assms(2) using map_of_map_pair [of "\<lambda>_. result_json" dets] by simp
    moreover have "result_json (snd kd) \<noteq> JNull" by (simp add: result_json_def)
    ultimately show ?thesis using assms(3) [of "fst kd" "snd kd"] that by (simp add: entry_of_result)
  qed
  then have "List.map_filter (\<lambda>kd. ?f (fst kd)) dets =
      List.map (\<lambda>kd. (fst kd, decision_from_detection (fst kd) (snd kd) ts)) dets"
    by (rule map_filter_total)
  moreover have "List.map_filter ?f (dict_keys dets) = List.map_filter (\<lambda>kd. ?f (fst kd)) dets"
    by (simp add: List.map_filter_def filter_map o_def)
  moreover have "distinct (dict_keys (List.map (\<lambda>kd. (fst kd, decision_from_detection (fst kd) (snd kd) ts)) dets))"
    using assms(1) by (simp add: o_def dict_ok_def)
  ultimately show ?thesis unfolding cached_entries_def by simp
qed

definition merged_stamped :: "pr_snapshot dict \<Rightarrow> bool" where
  "merged_stamped prs \<longleftrightarrow> (\<forall>p \<in> set (dict_values prs).
     ps_state p = ''MERGED'' \<longrightarrow> valid_merged_timestamp (JStr (ps_updated_at p)))"

text \<open>A full reconciliation without a fresh cache fetches.\<close>

lemma reconcile_fetches:
  assumes "case cache_read file of None \<Rightarrow> True | Some p \<Rightarrow> \<not> is_fresh now p"
    and "reconcile_now ts file now fetcher ttl config inputs None = (Inr ds, file')"
  obtains bases cached complete where "resolve_task_bases ts config inputs = Inr bases"
    and "fetch_and_decide ts file now fetcher ttl None (dict_values ts) bases cached complete = (Inr ds, file')"
proof -
  from assms(2) obtain bases where bases: "resolve_task_bases ts config inputs = Inr bases"
    by (simp add: reconcile_now_def split: sum.splits)
  let ?payload = "current (cache_read file) (base_context_of bases) None"
  have sel: "selected_tasks ts None = dict_values ts" by (simp add: selected_tasks_def)
  have stale: "\<not> (case ?payload of None \<Rightarrow> False | Some p \<Rightarrow> is_fresh now p)"
    using current_Some [of "cache_read file"] assms(1) by (cases ?payload) (simp, fastforce)
  from assms(2) bases obtain cached where "cached_decisions ts ?payload None = Inr cached"
    by (simp add: reconcile_now_def Let_def split: sum.splits)
  with assms(2) bases stale that show ?thesis
    by (simp add: reconcile_now_def Let_def sel del: map_map)
qed

lemma fetched_step_full:
  "fetched_step ts None cached dets = apply_dependency_stale ts
     (List.map (\<lambda>kd. (fst kd, decision_from_detection (fst kd) (snd kd) ts)) dets)"
  by (cases "apply_dependency_stale ts
      (List.map (\<lambda>kd. (fst kd, decision_from_detection (fst kd) (snd kd) ts)) dets)")
    (simp_all add: fetched_step_def Let_def only_in_def split: option.split)

lemma reconcile_warm:
  assumes "resolve_task_bases ts config inputs = Inr bases"
    and "cache_read file = Some p" and "is_fresh now p" and "cp_base_context p = Some (base_context_of bases)"
    and "decisions_from_cache ts p None = Inr ds" and "set (dict_keys ts) \<subseteq> set (dict_keys ds)"
  shows "reconcile_now ts file now fetcher ttl config inputs None = (Inr ds, file)"
proof -
  have "dict_ok (base_context_of bases)"
    using resolve_task_bases_ok [OF assms(1)] by (simp add: base_context_of_def dict_ok_def o_def)
  then have "current (cache_read file) (base_context_of bases) None = Some p"
    using assms(2-4) by (simp add: current_def is_fresh_def dict_eq_refl)
  with assms show ?thesis
    by (simp add: reconcile_now_def Let_def cached_decisions_def only_in_def)
qed

section \<open>Properties\<close>

text \<open>C9: a full reconciliation that had to fetch fills the cache so that, until the time to
  live elapses, reconciling the same tasks under the same bases returns the same decisions from
  the cache, dependency-stale overrides included, without consulting the fetcher, as long as
  the merged pull requests carried aware timestamps.\<close>

theorem warm_cache_agrees:
  assumes "dict_ok ts" and "keyed ts"
    and fetch: "fetcher (List.map tk_branch (dict_values ts)) (worktrees_by_branch (dict_values ts)) = Some (prs, gits)"
    and "merged_stamped prs"
    and "case cache_read file of None \<Rightarrow> True | Some p \<Rightarrow> \<not> is_fresh now p"
    and "reconcile_now ts file now fetcher ttl config inputs None = (Inr ds, file')"
    and "later - now < ttl"
  shows "reconcile_now ts file' later other_fetcher other_ttl config inputs None = (Inr ds, file')"
proof -
  obtain bases cached complete where bases: "resolve_task_bases ts config inputs = Inr bases"
    and run: "fetch_and_decide ts file now fetcher ttl None (dict_values ts) bases cached complete = (Inr ds, file')"
    using reconcile_fetches [OF assms(5,6)] .
  let ?xs = "List.map (\<lambda>t. (tk_slug t, tk_branch t,
     case map_of bases (tk_slug t) of None \<Rightarrow> No_Base | Some b \<Rightarrow> bases_arg b)) (dict_values ts)"
  define dets where "dets = detect_many ?xs prs gits"
  let ?fresh = "List.map (\<lambda>kd. (fst kd, decision_from_detection (fst kd) (snd kd) ts)) dets"
  have xs: "List.map fst ?xs = dict_keys ts" using keyed_values [OF assms(2)] by (simp add: o_def)
  then have dist: "distinct (List.map fst ?xs)" using assms(1) by (simp only: dict_ok_def)
  have keys: "dict_keys dets = dict_keys ts"
    unfolding dets_def detect_many_keys [OF dist] by (rule xs)
  then have ok: "dict_ok dets" using assms(1) by (simp add: dict_ok_def)
  define p where "p = \<lparr>cp_fetched_at = now, cp_ttl_seconds = ttl,
      cp_results = List.map (\<lambda>kd. (fst kd, result_json (snd kd))) dets,
      cp_ignored = (case cache_read file of None \<Rightarrow> [] | Some c \<Rightarrow> cp_ignored c),
      cp_schema_version = schema_version, cp_base_context = Some (base_context_of bases)\<rparr>"
  have "fetch_and_decide ts file now fetcher ttl None (dict_values ts) bases cached complete =
      (apply_dependency_stale ts ?fresh, write_unlocked p)"
    by (simp add: fetch_and_decide_def fetch fetched_step_full fresh_detections_def cache_write_def
        dets_def p_def Let_def del: map_map)
  with run have applied: "apply_dependency_stale ts ?fresh = Inr ds"
    and written: "file' = write_unlocked p" by simp_all
  have p: "cp_results p = List.map (\<lambda>kd. (fst kd, result_json (snd kd))) dets"
      "cp_fetched_at p = now" "cp_ttl_seconds p = ttl" "cp_schema_version p = schema_version"
      "cp_base_context p = Some (base_context_of bases)"
    by (simp_all add: p_def)
  have "cached_entries ts p (dict_keys dets) = ?fresh"
  proof (rule cached_entries_of_results [OF ok p(1)])
    fix k d assume "(k, d) \<in> set dets" "dn_state d = Merged"
    with detect_many_merged [OF _ dist] obtain pr where
      "pr \<in> set (dict_values prs)" "ps_state pr = ''MERGED''" "dn_updated_at d = Some (ps_updated_at pr)"
      unfolding dets_def by blast
    moreover from this assms(4) have "valid_merged_timestamp (JStr (ps_updated_at pr))"
      unfolding merged_stamped_def by blast
    ultimately show "valid_merged_timestamp (opt_json (dn_updated_at d))"
      by (simp add: opt_json_def)
  qed
  then have cache: "decisions_from_cache ts p None = Inr ds"
    using applied keys by (simp add: decisions_from_cache_def only_in_def)
  have "dict_ok ?fresh" using ok by (simp add: dict_ok_def o_def)
  from apply_dependency_stale_map [OF this _ applied] assms(1)
  have "dict_keys ds = dict_keys dets" by (simp add: stale_map_def dict_ok_def o_def)
  with keys have sub: "set (dict_keys ts) \<subseteq> set (dict_keys ds)" by simp
  have fresh: "is_fresh later p" using p(2-4) assms(7) by (simp add: is_fresh_def)
  show ?thesis
    by (rule reconcile_warm [OF bases _ fresh p(5) cache sub]) (simp add: written)
qed

definition sample_prs :: "pr_snapshot dict" where
  "sample_prs = [(''a'', \<lparr>ps_head_ref = ''a'', ps_state = ''MERGED'', ps_base_ref = ''main'',
     ps_merge_commit = None, ps_url = ''https://github.com/o/r/pull/7'',
     ps_updated_at = ''2024-01-02T00:00:00Z''\<rparr>),
   (''b'', \<lparr>ps_head_ref = ''b'', ps_state = ''OPEN'', ps_base_ref = ''main'',
     ps_merge_commit = None, ps_url = ''https://github.com/o/r/pull/8'',
     ps_updated_at = ''2024-01-03T00:00:00Z''\<rparr>)]"

definition sample_fetch :: fetcher where
  "sample_fetch branches worktrees = Some (sample_prs, [])"

definition sample_cold :: "(exn + decision dict) \<times> json option" where
  "sample_cold = reconcile_now sample_tasks None 1000 sample_fetch 300 None [] None"

theorem warm_cache_agrees_witness:
  "reconcile_now sample_tasks (snd sample_cold) 1299 (\<lambda>_ _. None) 300 None [] None = sample_cold
   \<and> (case fst sample_cold of Inl _ \<Rightarrow> False
      | Inr ds \<Rightarrow> map_option dc_state (map_of ds ''b'') = Some Dependency_Stale)"
proof -
  have stale: "case fst sample_cold of Inl _ \<Rightarrow> False
      | Inr ds \<Rightarrow> map_option dc_state (map_of ds ''b'') = Some Dependency_Stale" by code_simp
  then obtain ds where ds: "fst sample_cold = Inr ds" by (cases "fst sample_cold") simp_all
  have ok: "dict_ok sample_tasks" "keyed sample_tasks" "merged_stamped sample_prs"
    "case cache_read None of None \<Rightarrow> True | Some p \<Rightarrow> \<not> is_fresh 1000 p" "(1299::int) - 1000 < 300"
    by code_simp+
  have f: "sample_fetch (List.map tk_branch (dict_values sample_tasks))
      (worktrees_by_branch (dict_values sample_tasks)) = Some (sample_prs, [])"
    by (simp add: sample_fetch_def)
  have run: "reconcile_now sample_tasks None 1000 sample_fetch 300 None [] None = (Inr ds, snd sample_cold)"
    using ds by (simp add: sample_cold_def prod_eq_iff)
  from warm_cache_agrees [OF ok(1,2) f ok(3,4) run ok(5)] stale ds show ?thesis
    by (simp add: prod_eq_iff)
qed

lemma closure_rtrancl: "set (reconciliation_closure ts only) = (depends ts)\<^sup>* `` set only"
proof
  show "set (reconciliation_closure ts only) \<subseteq> (depends ts)\<^sup>* `` set only"
    unfolding reconciliation_closure_def
    by (rule upstream_loop_sound) (auto intro: rtrancl_into_rtrancl)
  have "depends ts `` (set (rev only) \<union> set (reconciliation_closure ts only))
      \<subseteq> set (reconciliation_closure ts only)"
    unfolding reconciliation_closure_def by (rule upstream_loop_closed) auto
  moreover have "set only \<subseteq> set (reconciliation_closure ts only)"
    unfolding reconciliation_closure_def by (rule upstream_loop_mono)
  ultimately show "(depends ts)\<^sup>* `` set only \<subseteq> set (reconciliation_closure ts only)"
    by (intro closed_rtrancl) blast+
qed

lemma fetched_step_only: "Inr ds = fetched_step ts only_slugs cached dets \<Longrightarrow> \<exists>out. ds = only_in only_slugs out"
  unfolding fetched_step_def Let_def by (drule sym) (auto simp: result_simps)

lemma only_in_subset: "set (dict_keys (only_in (Some only) ds)) \<subseteq> set only"
  by (auto simp: only_in_def)



text \<open>Editing the ignore list of a stored cache leaves the results, their age, their schema
  and their base context as they were, so no stale entry becomes fresh; a slug is on the list
  afterwards exactly when it was added, or was there and was not removed.\<close>

theorem ignore_edits_keep_results:
  assumes "cache_read file = Some p"
  shows "\<exists>q r. cache_read (add_ignore s file) = Some q \<and> cache_read (remove_ignore s file) = Some r
    \<and> same_results p q \<and> same_results p r
    \<and> (is_fresh now q \<longleftrightarrow> is_fresh now p) \<and> (is_fresh now r \<longleftrightarrow> is_fresh now p)
    \<and> set (read_ignores (add_ignore s file)) = insert (JStr s) (set (cp_ignored p))
    \<and> set (read_ignores (remove_ignore s file)) = set (cp_ignored p) - {JStr s}"
  using assms
  by (auto simp: add_ignore_def remove_ignore_def same_results_def Let_def is_fresh_def read_ignores_def)

theorem ignore_edits_keep_results_witness:
  "JStr ''a'' \<in> set (read_ignores (add_ignore ''a'' (write_unlocked empty_payload)))"
  using ignore_edits_keep_results [OF cache_read_write [of empty_payload], of "''a''" 0] by auto

end
