(* ===== verification/Tables.thy ===== *)
theory Tables
  imports Prelude "HOL-Library.Product_Lexorder"
begin

text \<open>
  The part of SQL the repositories rely on: a table is a list of rows in insertion order; an
  insertion checks the row constraints and the uniqueness of its key and otherwise raises
  \<open>IntegrityError\<close>; \<open>ORDER BY\<close> is a stable sort. The facts at the end say when a query does
  not depend on the order in which rows were stored.
\<close>

definition insert_row :: "str \<Rightarrow> ('r \<Rightarrow> 'k) \<Rightarrow> ('r \<Rightarrow> bool) \<Rightarrow> 'r \<Rightarrow> 'r list \<Rightarrow> exn + 'r list" where
  "insert_row table key ok r t =
     (if ok r \<and> key r \<notin> key ` set t then Inr (t @ [r]) else Inl (IntegrityError table))"

definition insert_many :: "str \<Rightarrow> ('r \<Rightarrow> 'k) \<Rightarrow> ('r \<Rightarrow> bool) \<Rightarrow> 'r list \<Rightarrow> 'r list \<Rightarrow> exn + 'r list" where
  "insert_many table key ok rows t = rfold (insert_row table key ok) rows t"

lemma insert_many_Inr:
  "insert_many table key ok rows t = Inr t' \<longleftrightarrow>
     t' = t @ rows \<and> list_all ok rows \<and> distinct (List.map key rows)
     \<and> key ` set rows \<inter> key ` set t = {}"
proof (induction rows arbitrary: t)
  case Nil
  then show ?case by (auto simp: insert_many_def)
next
  case (Cons r rows)
  show ?case
  proof (cases "ok r \<and> key r \<notin> key ` set t")
    case True
    then have "insert_many table key ok (r # rows) t = insert_many table key ok rows (t @ [r])"
      by (simp add: insert_many_def insert_row_def)
    with Cons [of "t @ [r]"] True show ?thesis by auto
  next
    case False
    then show ?thesis by (auto simp: insert_many_def insert_row_def)
  qed
qed

lemma insert_many_ok:
  assumes "list_all ok rows" and "distinct (List.map key rows)" and "key ` set rows \<inter> key ` set t = {}"
  shows "insert_many table key ok rows t = Inr (t @ rows)"
  using assms by (simp add: insert_many_Inr)

lemma find_append:
  "List.find P (xs @ ys) = (case List.find P xs of Some x \<Rightarrow> Some x | None \<Rightarrow> List.find P ys)"
  by (induction xs) simp_all

lemma find_filter_other: "(\<And>x. P x \<Longrightarrow> Q x) \<Longrightarrow> List.find P (filter Q xs) = List.find P xs"
  by (induction xs) auto

section \<open>Sorting\<close>

lemma insort_key_map: "insort_key f (g x) (List.map g xs) = List.map g (insort_key (\<lambda>x. f (g x)) x xs)"
  by (induction xs) auto

lemma sort_key_map: "sort_key f (List.map g xs) = List.map g (sort_key (\<lambda>x. f (g x)) xs)"
  by (induction xs) (simp_all add: insort_key_map)

lemma insort_key_mono:
  assumes "\<forall>y \<in> set xs. f x \<le> f y \<longleftrightarrow> g x \<le> g y"
  shows "insort_key f x xs = insort_key g x xs"
  using assms by (induction xs) auto

lemma sort_key_mono:
  assumes "\<forall>x \<in> set xs. \<forall>y \<in> set xs. f x \<le> f y \<longleftrightarrow> g x \<le> g y"
  shows "sort_key f xs = sort_key g xs"
  using assms
proof (induction xs)
  case (Cons x xs)
  then have "sort_key f xs = sort_key g xs" by simp
  moreover have "insort_key f x (sort_key g xs) = insort_key g x (sort_key g xs)"
    using Cons.prems by (intro insort_key_mono) simp
  ultimately show ?case by simp
qed simp

text \<open>Two lists in strictly increasing key order with the same elements are equal.\<close>

lemma sorted_key_unique:
  assumes "sorted (List.map f xs)" and "distinct (List.map f xs)"
    and "sorted (List.map f ys)" and "distinct (List.map f ys)" and "set xs = set ys"
  shows "xs = ys"
proof (rule map_sorted_distinct_set_unique [of f])
  show "inj_on f (set xs \<union> set ys)"
    using assms(2,5) by (simp add: distinct_map)
qed (use assms in simp_all)

lemma distinct_map_sort_key: "distinct (List.map f (sort_key g xs)) \<longleftrightarrow> distinct (List.map f xs)"
  by (simp add: distinct_map distinct_sort)

lemma sort_key_set_unique:
  assumes "distinct (List.map f xs)" and "distinct (List.map f ys)" and "set xs = set ys"
  shows "sort_key f xs = sort_key f ys"
  by (rule sorted_key_unique [of f]) (use assms in \<open>simp_all add: distinct_map_sort_key\<close>)

lemma sort_key_filter: "filter P (sort_key f xs) = sort_key f (filter P xs)"
  by (rule filter_sort)

text \<open>A dictionary in key order.\<close>

definition by_key :: "'v dict \<Rightarrow> 'v dict" where
  "by_key d = sort_key fst d"

lemma dict_ok_by_key [simp]: "dict_ok (by_key d) \<longleftrightarrow> dict_ok d"
  by (simp add: by_key_def dict_ok_def distinct_map_sort_key)

lemma distinct_by_key [simp]: "distinct (dict_keys (by_key d)) \<longleftrightarrow> distinct (dict_keys d)"
  by (simp add: by_key_def distinct_map_sort_key)

lemma set_by_key [simp]: "set (by_key d) = set d"
  by (simp add: by_key_def)

lemma map_of_by_key [simp]:
  assumes "dict_ok d"
  shows "map_of (by_key d) = map_of d"
proof
  fix k
  have "map_of (by_key d) k = Some v \<longleftrightarrow> map_of d k = Some v" for v
    using assms dict_ok_map_of [of d k v] dict_ok_map_of [of "by_key d" k v] by simp
  then show "map_of (by_key d) k = map_of d k"
    by (metis not_None_eq)
qed

end
