(* ===== verification/Task_Store.thy ===== *)
theory Task_Store
  imports Task_State Tables
begin

text \<open>
  Tasks in the relational store: the tables of core/persistence/schema.py that hold a task,
  and the operations of core/persistence/task_repository.py on them. A timestamp column holds
  ISO 8601 text in UTC, which orders as the instants do; it is represented by the instant.
  The foreign keys are those of the schema: child rows cascade with their task, dependency
  rows with either end, and rows of \<open>app_runs\<close> (task and repository) restrict deletion.
\<close>

section \<open>Tables\<close>

record task_row =
  w_slug :: str
  w_description :: str
  w_phase :: task_phase
  w_created_at :: int
  w_branch :: str
  w_blocked_reason :: "str option"
  w_blocked_at :: "int option"
  w_finished_at :: "int option"
  w_phase_entered_at :: "int option"
  w_last_activity_at :: "int option"
  w_active_repo :: "str option"
  w_test_iteration :: int
  w_base_branch :: "str option"
  w_base_override :: "str option"
  w_spec_id :: "str option"
  w_work_item_id :: "str option"
  w_revision :: int

record repo_row =
  rr_task :: str
  rr_repo :: str
  rr_ordinal :: "nat option"
  rr_passive :: bool
  rr_worktree :: "str option"

record result_row =
  rt_task :: str
  rt_repo :: str
  rt_status :: test_status
  rt_at :: int

record pr_row =
  pw_task :: str
  pw_repo :: str
  pw_url :: str

record source_row =
  so_task :: str
  so_source :: str

record anchor_row =
  an_task :: str
  an_source :: str
  an_dependency :: str
  an_sha :: str

record dep_row =
  dp_task :: str
  dp_upstream :: str
  dp_created_at :: int

record task_db =
  db_tasks :: "task_row list"
  db_task_repos :: "repo_row list"
  db_test_results :: "result_row list"
  db_pr_urls :: "pr_row list"
  db_switch_sources :: "source_row list"
  db_switch_anchors :: "anchor_row list"
  db_dependencies :: "dep_row list"
  db_app_runs :: "(str \<times> str) list"

definition db_slugs :: "task_db \<Rightarrow> str list" where
  "db_slugs db = List.map w_slug (db_tasks db)"

section \<open>Encoding\<close>

definition encode_datetime :: "dt \<Rightarrow> int" where
  "encode_datetime t = instant t"

definition decode_datetime :: "int \<Rightarrow> dt" where
  "decode_datetime i = Aware i 0"

definition scalar_values :: "int \<Rightarrow> task \<Rightarrow> task_row" where
  "scalar_values revision t = \<lparr>w_slug = tk_slug t, w_description = tk_description t,
     w_phase = tk_phase t, w_created_at = encode_datetime (tk_created_at t), w_branch = tk_branch t,
     w_blocked_reason = tk_blocked_reason t,
     w_blocked_at = map_option encode_datetime (tk_blocked_at t),
     w_finished_at = map_option encode_datetime (tk_finished_at t),
     w_phase_entered_at = map_option encode_datetime (tk_phase_entered_at t),
     w_last_activity_at = map_option encode_datetime (tk_last_activity_at t),
     w_active_repo = tk_active_repo t, w_test_iteration = tk_test_iteration t,
     w_base_branch = tk_base_branch t, w_base_override = tk_base_override t,
     w_spec_id = tk_spec_id t, w_work_item_id = tk_work_item_id t, w_revision = revision\<rparr>"

text \<open>\<open>{repo: ordinal for ordinal, repo in enumerate(affected_repos)}\<close>: a repeat overrides.\<close>

definition affected_ordinals :: "str list \<Rightarrow> str \<Rightarrow> nat option" where
  "affected_ordinals xs = foldl (\<lambda>m ix. m(snd ix \<mapsto> fst ix)) Map.empty (enumerate 0 xs)"

definition repo_names :: "task \<Rightarrow> str list" where
  "repo_names t =
     (let affected = fromkeys (tk_affected_repos t);
          trees = affected @ filter (\<lambda>r. r \<notin> set affected) (dict_keys (tk_worktrees t))
      in trees @ filter (\<lambda>r. r \<notin> set trees) (sorted_list_of_set (tk_passive_repos t)))"

definition task_repo_values :: "task \<Rightarrow> repo_row list" where
  "task_repo_values t = List.map (\<lambda>r. \<lparr>rr_task = tk_slug t, rr_repo = r,
     rr_ordinal = affected_ordinals (tk_affected_repos t) r,
     rr_passive = (r \<in> tk_passive_repos t), rr_worktree = map_of (tk_worktrees t) r\<rparr>) (repo_names t)"

definition result_rows :: "task \<Rightarrow> result_row list" where
  "result_rows t = List.map (\<lambda>kv. \<lparr>rt_task = tk_slug t, rt_repo = fst kv,
     rt_status = tr_status (snd kv), rt_at = encode_datetime (tr_at (snd kv))\<rparr>) (tk_test_results t)"

definition pr_rows :: "task \<Rightarrow> pr_row list" where
  "pr_rows t = List.map (\<lambda>kv. \<lparr>pw_task = tk_slug t, pw_repo = fst kv, pw_url = snd kv\<rparr>) (tk_pr_urls t)"

definition source_rows :: "task \<Rightarrow> source_row list" where
  "source_rows t = List.map (\<lambda>kv. \<lparr>so_task = tk_slug t, so_source = fst kv\<rparr>) (tk_last_switched_at_sha t)"

definition anchors_from :: "str \<Rightarrow> str \<times> str dict \<Rightarrow> anchor_row list" where
  "anchors_from slug kd = List.map (\<lambda>ds. \<lparr>an_task = slug, an_source = fst kd,
     an_dependency = fst ds, an_sha = snd ds\<rparr>) (snd kd)"

definition anchor_rows :: "task \<Rightarrow> anchor_row list" where
  "anchor_rows t = concat (List.map (anchors_from (tk_slug t)) (tk_last_switched_at_sha t))"

definition dep_rows :: "task \<Rightarrow> dep_row list" where
  "dep_rows t = List.map (\<lambda>e. \<lparr>dp_task = tk_slug t, dp_upstream = upstream_slug e,
     dp_created_at = encode_datetime (de_created_at e)\<rparr>) (tk_depends_on t)"

section \<open>Writing\<close>

definition anchor_key :: "anchor_row \<Rightarrow> str \<times> str \<times> str" where
  "anchor_key r = (an_task r, an_source r, an_dependency r)"

definition insert_children :: "task \<Rightarrow> task_db \<Rightarrow> exn + task_db" where
  "insert_children t db =
     (let known = (\<lambda>s. s \<in> set (db_slugs db)) in
      rbind (insert_many ''task_test_results'' (\<lambda>r. (rt_task r, rt_repo r)) (\<lambda>r. known (rt_task r))
               (result_rows t) (db_test_results db)) (\<lambda>results.
      rbind (insert_many ''task_pr_urls'' (\<lambda>r. (pw_task r, pw_repo r)) (\<lambda>r. known (pw_task r))
               (pr_rows t) (db_pr_urls db)) (\<lambda>prs.
      rbind (insert_many ''task_switch_sources'' (\<lambda>r. (so_task r, so_source r)) (\<lambda>r. known (so_task r))
               (source_rows t) (db_switch_sources db)) (\<lambda>sources.
      rbind (insert_many ''task_switch_anchors'' anchor_key (\<lambda>r. known (an_task r))
               (anchor_rows t) (db_switch_anchors db)) (\<lambda>anchors.
      rbind (insert_many ''task_dependencies'' (\<lambda>r. (dp_task r, dp_upstream r))
               (\<lambda>r. known (dp_task r) \<and> known (dp_upstream r) \<and> dp_task r \<noteq> dp_upstream r)
               (dep_rows t) (db_dependencies db)) (\<lambda>deps.
        Inr (db\<lparr>db_test_results := results, db_pr_urls := prs, db_switch_sources := sources,
               db_switch_anchors := anchors, db_dependencies := deps\<rparr>)))))))"

definition ordinal_clash :: "repo_row \<Rightarrow> repo_row \<Rightarrow> bool" where
  "ordinal_clash r q \<longleftrightarrow> rr_task q = rr_task r \<and> rr_ordinal r \<noteq> None \<and> rr_ordinal q = rr_ordinal r"

definition insert_repo_row :: "str list \<Rightarrow> repo_row \<Rightarrow> repo_row list \<Rightarrow> exn + repo_row list" where
  "insert_repo_row slugs r t =
     (if rr_task r \<in> set slugs \<and> \<not> list_ex (\<lambda>q. rr_task q = rr_task r \<and> rr_repo q = rr_repo r) t
         \<and> \<not> list_ex (ordinal_clash r) t
      then Inr (t @ [r]) else Inl (IntegrityError ''task_repos''))"

definition check_scalars :: "task \<Rightarrow> exn + unit" where
  "check_scalars t = (if 0 \<le> tk_test_iteration t then Inr () else Inl (IntegrityError ''tasks''))"

definition task_insert :: "task \<Rightarrow> task_db \<Rightarrow> exn + task_db" where
  "task_insert t db =
     rbind (check_scalars t) (\<lambda>_.
     rbind (insert_row ''tasks'' w_slug (\<lambda>_. True) (scalar_values 0 t) (db_tasks db)) (\<lambda>ts.
     let db1 = db\<lparr>db_tasks := ts\<rparr> in
     rbind (rfold (insert_repo_row (db_slugs db1)) (task_repo_values t) (db_task_repos db1)) (\<lambda>repos.
       insert_children t (db1\<lparr>db_task_repos := repos\<rparr>))))"

definition delete_children :: "str \<Rightarrow> task_db \<Rightarrow> task_db" where
  "delete_children slug db = db\<lparr>
     db_dependencies := filter (\<lambda>r. dp_task r \<noteq> slug) (db_dependencies db),
     db_switch_anchors := filter (\<lambda>r. an_task r \<noteq> slug) (db_switch_anchors db),
     db_switch_sources := filter (\<lambda>r. so_task r \<noteq> slug) (db_switch_sources db),
     db_pr_urls := filter (\<lambda>r. pw_task r \<noteq> slug) (db_pr_urls db),
     db_test_results := filter (\<lambda>r. rt_task r \<noteq> slug) (db_test_results db)\<rparr>"

text \<open>
  \<open>_replace_task_repos\<close>: delete the rows that go (restricted by app runs), clear the ordinals
  that change, then update the shared rows one by one, each update checked, then insert.
\<close>

definition desired_row :: "task \<Rightarrow> str \<Rightarrow> repo_row option" where
  "desired_row t repo = List.find (\<lambda>r. rr_repo r = repo) (task_repo_values t)"

definition update_shared :: "task \<Rightarrow> str \<Rightarrow> repo_row list \<Rightarrow> exn + repo_row list" where
  "update_shared t repo rows = (case desired_row t repo of None \<Rightarrow> Inr rows
     | Some d \<Rightarrow>
         if list_ex (\<lambda>q. rr_repo q \<noteq> repo \<and> ordinal_clash d q) rows
         then Inl (IntegrityError ''task_repos'')
         else Inr (List.map (\<lambda>q. if rr_task q = tk_slug t \<and> rr_repo q = repo then d else q) rows))"

definition clear_reordered :: "task \<Rightarrow> repo_row list \<Rightarrow> repo_row list" where
  "clear_reordered t rows = List.map (\<lambda>q. if rr_task q = tk_slug t
       \<and> (case desired_row t (rr_repo q) of None \<Rightarrow> False | Some d \<Rightarrow> rr_ordinal d \<noteq> rr_ordinal q)
     then q\<lparr>rr_ordinal := None\<rparr> else q) rows"

definition replace_task_repos :: "task \<Rightarrow> task_db \<Rightarrow> exn + task_db" where
  "replace_task_repos t db =
     (let own = filter (\<lambda>r. rr_task r = tk_slug t) (db_task_repos db);
          removed = filter (\<lambda>r. desired_row t r = None) (List.map rr_repo own);
          shared = filter (\<lambda>r. desired_row t r \<noteq> None) (List.map rr_repo own)
      in if \<exists>r \<in> set removed. (tk_slug t, r) \<in> set (db_app_runs db)
         then Inl (IntegrityError ''task_repos'')
         else let kept = filter (\<lambda>r. \<not> (rr_task r = tk_slug t \<and> rr_repo r \<in> set removed)) (db_task_repos db)
              in rbind (rfold (update_shared t) shared (clear_reordered t kept)) (\<lambda>rows.
                 rbind (rfold (insert_repo_row (db_slugs db))
                          (filter (\<lambda>r. rr_repo r \<notin> set shared) (task_repo_values t)) rows) (\<lambda>rows'.
                   Inr (db\<lparr>db_task_repos := rows'\<rparr>))))"

definition revision_matches :: "str \<Rightarrow> int option \<Rightarrow> task_row \<Rightarrow> bool" where
  "revision_matches slug expected r \<longleftrightarrow> w_slug r = slug
     \<and> (case expected of None \<Rightarrow> True | Some n \<Rightarrow> w_revision r = n)"

definition task_replace :: "task \<Rightarrow> int option \<Rightarrow> task_db \<Rightarrow> exn + int \<times> task_db" where
  "task_replace t expected db =
     (case List.find (revision_matches (tk_slug t) expected) (db_tasks db) of
        None \<Rightarrow> Inl (case expected of Some n \<Rightarrow> ConcurrentUpdate ''tasks'' (tk_slug t) n
                   | None \<Rightarrow> KeyError (tk_slug t))
      | Some old \<Rightarrow>
         rbind (check_scalars t) (\<lambda>_.
         let revision = w_revision old + 1;
             db1 = db\<lparr>db_tasks := List.map (\<lambda>r. if revision_matches (tk_slug t) expected r
               then scalar_values revision t else r) (db_tasks db)\<rparr>
         in rbind (replace_task_repos t (delete_children (tk_slug t) db1)) (\<lambda>db2.
            rbind (insert_children t db2) (\<lambda>db3. Inr (revision, db3)))))"

definition task_delete :: "str \<Rightarrow> task_db \<Rightarrow> exn + bool \<times> task_db" where
  "task_delete slug db =
     (if slug \<notin> set (db_slugs db) then Inr (False, db)
      else if list_ex (\<lambda>r. fst r = slug) (db_app_runs db) then Inl (IntegrityError ''tasks'')
      else let db1 = delete_children slug db
           in Inr (True, db1\<lparr>db_tasks := filter (\<lambda>r. w_slug r \<noteq> slug) (db_tasks db1),
                db_task_repos := filter (\<lambda>r. rr_task r \<noteq> slug) (db_task_repos db1),
                db_dependencies := filter (\<lambda>r. dp_upstream r \<noteq> slug) (db_dependencies db1)\<rparr>))"

section \<open>Reading\<close>

text \<open>\<open>switched.setdefault(source, {})[dependency] = sha\<close> for the anchors in order.\<close>

definition add_anchor :: "anchor_row \<Rightarrow> str dict dict \<Rightarrow> str dict dict" where
  "add_anchor a switched =
     (let inner = (case map_of switched (an_source a) of None \<Rightarrow> [] | Some d \<Rightarrow> d)
      in AList.update (an_source a) (AList.update (an_dependency a) (an_sha a) inner) switched)"

definition decode_task :: "task_db \<Rightarrow> task_row \<Rightarrow> task" where
  "decode_task db row =
     (let slug = w_slug row;
          repo_rows = sort_key rr_repo (filter (\<lambda>r. rr_task r = slug) (db_task_repos db));
          sources = sort_key so_source (filter (\<lambda>r. so_task r = slug) (db_switch_sources db));
          anchors = sort_key (\<lambda>r. (an_source r, an_dependency r))
            (filter (\<lambda>r. an_task r = slug) (db_switch_anchors db))
      in \<lparr>tk_slug = slug, tk_description = w_description row, tk_phase = w_phase row,
        tk_created_at = decode_datetime (w_created_at row),
        tk_affected_repos = List.map rr_repo (sort_key (\<lambda>r. the (rr_ordinal r))
          (filter (\<lambda>r. rr_ordinal r \<noteq> None) repo_rows)),
        tk_worktrees = List.map (\<lambda>r. (rr_repo r, the (rr_worktree r)))
          (filter (\<lambda>r. rr_worktree r \<noteq> None) repo_rows),
        tk_branch = w_branch row,
        tk_test_results = List.map (\<lambda>r. (rt_repo r,
            \<lparr>tr_status = rt_status r, tr_at = decode_datetime (rt_at r)\<rparr>))
          (sort_key rt_repo (filter (\<lambda>r. rt_task r = slug) (db_test_results db))),
        tk_blocked_reason = w_blocked_reason row,
        tk_blocked_at = map_option decode_datetime (w_blocked_at row),
        tk_pr_urls = List.map (\<lambda>r. (pw_repo r, pw_url r))
          (sort_key pw_repo (filter (\<lambda>r. pw_task r = slug) (db_pr_urls db))),
        tk_finished_at = map_option decode_datetime (w_finished_at row),
        tk_phase_entered_at = map_option decode_datetime (w_phase_entered_at row),
        tk_last_activity_at = map_option decode_datetime (w_last_activity_at row),
        tk_active_repo = w_active_repo row,
        tk_last_switched_at_sha = fold add_anchor anchors (List.map (\<lambda>r. (so_source r, [])) sources),
        tk_test_iteration = w_test_iteration row, tk_base_branch = w_base_branch row,
        tk_base_override = w_base_override row,
        tk_passive_repos = rr_repo ` set (filter rr_passive repo_rows),
        tk_spec_id = w_spec_id row,
        tk_depends_on = List.map (\<lambda>r. \<lparr>upstream_slug = dp_upstream r,
            de_created_at = decode_datetime (dp_created_at r)\<rparr>)
          (sort_key (\<lambda>r. (dp_created_at r, dp_upstream r))
            (filter (\<lambda>r. dp_task r = slug) (db_dependencies db))),
        tk_work_item_id = w_work_item_id row\<rparr>)"

definition task_get :: "task_db \<Rightarrow> str \<Rightarrow> task option" where
  "task_get db slug = map_option (decode_task db) (List.find (\<lambda>r. w_slug r = slug) (db_tasks db))"

definition task_list :: "task_db \<Rightarrow> tasks" where
  "task_list db = List.map_filter (\<lambda>s. map_option (\<lambda>t. (s, t)) (task_get db s)) (sort (db_slugs db))"

end
