(* ===== verification/Task_Roundtrip.thy ===== *)
theory Task_Roundtrip
  imports Task_Store
begin

text \<open>
  What is written is read back: a stored task decodes to its normal form (timestamps in UTC,
  dictionaries in key order, dependencies in creation order, a repeated affected repository
  at its last position), whatever else the tables hold.
\<close>

section \<open>Normal form\<close>

definition norm_dt :: "dt \<Rightarrow> dt" where
  "norm_dt t = Aware (instant t) 0"

definition norm_task :: "task \<Rightarrow> task" where
  "norm_task t = t\<lparr>tk_created_at := norm_dt (tk_created_at t),
     tk_affected_repos := remdups (tk_affected_repos t),
     tk_worktrees := by_key (tk_worktrees t),
     tk_test_results := List.map (\<lambda>kv. (fst kv, (snd kv)\<lparr>tr_at := norm_dt (tr_at (snd kv))\<rparr>))
       (by_key (tk_test_results t)),
     tk_blocked_at := map_option norm_dt (tk_blocked_at t),
     tk_pr_urls := by_key (tk_pr_urls t),
     tk_finished_at := map_option norm_dt (tk_finished_at t),
     tk_phase_entered_at := map_option norm_dt (tk_phase_entered_at t),
     tk_last_activity_at := map_option norm_dt (tk_last_activity_at t),
     tk_last_switched_at_sha := List.map (\<lambda>kd. (fst kd, by_key (snd kd))) (by_key (tk_last_switched_at_sha t)),
     tk_depends_on := List.map (\<lambda>e. e\<lparr>de_created_at := norm_dt (de_created_at e)\<rparr>)
       (sort_key (\<lambda>e. (instant (de_created_at e), upstream_slug e)) (tk_depends_on t))\<rparr>"

text \<open>What the Python type of a task guarantees, and what the row constraints require.\<close>

definition valid_task :: "task \<Rightarrow> bool" where
  "valid_task t \<longleftrightarrow> dict_ok (tk_worktrees t) \<and> dict_ok (tk_test_results t) \<and> dict_ok (tk_pr_urls t)
     \<and> dict_ok (tk_last_switched_at_sha t) \<and> list_all (\<lambda>kd. dict_ok (snd kd)) (tk_last_switched_at_sha t)
     \<and> finite (tk_passive_repos t) \<and> 0 \<le> tk_test_iteration t
     \<and> distinct (List.map upstream_slug (tk_depends_on t))
     \<and> tk_slug t \<notin> set (List.map upstream_slug (tk_depends_on t))"

section \<open>Ordinals\<close>

lemma affected_ordinals_snoc:
  "affected_ordinals (xs @ [x]) = (affected_ordinals xs)(x \<mapsto> length xs)"
  by (simp add: affected_ordinals_def enumerate_append_eq)

lemma affected_ordinals_Nil [simp]: "affected_ordinals [] = Map.empty"
  by (simp add: affected_ordinals_def)

lemma affected_ordinals_Some: "affected_ordinals xs r = Some i \<Longrightarrow> i < length xs \<and> xs ! i = r"
  by (induction xs arbitrary: i rule: rev_induct)
    (auto simp: affected_ordinals_snoc nth_append split: if_splits)

lemma affected_ordinals_dom: "affected_ordinals xs r \<noteq> None \<longleftrightarrow> r \<in> set xs"
  by (induction xs rule: rev_induct) (auto simp: affected_ordinals_snoc)

lemma affected_ordinals_in: "r \<in> set xs \<Longrightarrow> \<exists>i < length xs. affected_ordinals xs r = Some i \<and> xs ! i = r"
  using affected_ordinals_dom [of xs r] affected_ordinals_Some [of xs r] by blast

lemma remdups_snoc: "remdups (xs @ [x]) = filter (\<lambda>y. y \<noteq> x) (remdups xs) @ [x]"
  by (induction xs) auto

lemma affected_ordinals_sorted:
  "sorted (List.map (\<lambda>r. the (affected_ordinals xs r)) (remdups xs))"
proof (induction xs rule: rev_induct)
  case (snoc x xs)
  have eq: "List.map (\<lambda>r. the (affected_ordinals (xs @ [x]) r)) (remdups (xs @ [x])) =
      List.map (\<lambda>r. the (affected_ordinals xs r)) (filter (\<lambda>y. y \<noteq> x) (remdups xs)) @ [length xs]"
    by (simp add: remdups_snoc affected_ordinals_snoc)
  have "sorted (List.map (\<lambda>r. the (affected_ordinals xs r)) (filter (\<lambda>y. y \<noteq> x) (remdups xs)))"
    using sorted_filter [OF snoc] .
  moreover have "the (affected_ordinals xs r) \<le> length xs" if "r \<in> set xs" for r
    using affected_ordinals_in [OF that] by auto
  ultimately show ?case unfolding eq by (auto simp: sorted_append)
qed simp

section \<open>Repository rows\<close>

definition row_of :: "task \<Rightarrow> str \<Rightarrow> repo_row" where
  "row_of t r = \<lparr>rr_task = tk_slug t, rr_repo = r,
     rr_ordinal = affected_ordinals (tk_affected_repos t) r,
     rr_passive = (r \<in> tk_passive_repos t), rr_worktree = map_of (tk_worktrees t) r\<rparr>"

lemma task_repo_values_rows: "task_repo_values t = List.map (row_of t) (repo_names t)"
  by (simp add: task_repo_values_def row_of_def)

lemma row_of_simps [simp]:
  "rr_task (row_of t r) = tk_slug t" "rr_repo (row_of t r) = r"
  "rr_ordinal (row_of t r) = affected_ordinals (tk_affected_repos t) r"
  "rr_passive (row_of t r) \<longleftrightarrow> r \<in> tk_passive_repos t"
  "rr_worktree (row_of t r) = map_of (tk_worktrees t) r"
  by (simp_all add: row_of_def)

lemma set_repo_names:
  "finite (tk_passive_repos t) \<Longrightarrow> set (repo_names t) =
     set (tk_affected_repos t) \<union> set (dict_keys (tk_worktrees t)) \<union> tk_passive_repos t"
  by (auto simp: repo_names_def Let_def)

lemma distinct_repo_names:
  "dict_ok (tk_worktrees t) \<Longrightarrow> distinct (repo_names t)"
  by (auto simp: repo_names_def Let_def dict_ok_def)

lemma distinct_repo_values:
  "dict_ok (tk_worktrees t) \<Longrightarrow> distinct (List.map rr_repo (task_repo_values t))"
  by (simp add: task_repo_values_rows o_def distinct_repo_names)

lemma image_Collect_mem: "{q \<in> f ` A. P q} = f ` {r \<in> A. P (f r)}"
  by blast

lemma decode_affected:
  assumes "valid_task t" and "distinct (List.map rr_repo rows)" and "set rows = set (task_repo_values t)"
  shows "List.map rr_repo (sort_key (\<lambda>r. the (rr_ordinal r)) (filter (\<lambda>r. rr_ordinal r \<noteq> None) rows))
    = remdups (tk_affected_repos t)"
proof -
  let ?ord = "\<lambda>r. the (rr_ordinal r)"
  let ?a = "tk_affected_repos t"
  let ?xs = "sort_key ?ord (filter (\<lambda>r. rr_ordinal r \<noteq> None) rows)"
  let ?ys = "List.map (row_of t) (remdups ?a)"
  have sub: "set ?a \<subseteq> set (repo_names t)"
    using assms(1) by (simp add: set_repo_names valid_task_def le_supI1)
  have "set ?xs = {q \<in> row_of t ` set (repo_names t). rr_ordinal q \<noteq> None}"
    using assms(3) by (simp add: task_repo_values_rows)
  also have "\<dots> = row_of t ` {r \<in> set (repo_names t). r \<in> set ?a}"
    by (simp only: image_Collect_mem row_of_simps affected_ordinals_dom)
  also have "{r \<in> set (repo_names t). r \<in> set ?a} = set ?a" using sub by blast
  also have "row_of t ` set ?a = set ?ys" by simp
  finally have sets: "set ?xs = set ?ys" .
  have inj: "inj_on ?ord (set ?ys)"
  proof (rule inj_onI)
    fix p q
    assume "p \<in> set ?ys" "q \<in> set ?ys" and eq: "?ord p = ?ord q"
    then obtain r s where rs: "p = row_of t r" "q = row_of t s" "r \<in> set ?a" "s \<in> set ?a" by auto
    with affected_ordinals_in [OF rs(3)] affected_ordinals_in [OF rs(4)] eq show "p = q" by auto
  qed
  have "?xs = ?ys"
  proof (rule sorted_key_unique [of ?ord])
    show "sorted (List.map ?ord ?ys)" using affected_ordinals_sorted [of ?a] by (simp add: o_def)
    have "distinct ?xs" using assms(2) by (simp add: distinct_map distinct_sort)
    then show "distinct (List.map ?ord ?xs)" using inj sets by (simp only: distinct_map)
    have "distinct ?ys" by (simp add: distinct_map inj_on_def row_of_def)
    then show "distinct (List.map ?ord ?ys)" using inj by (simp only: distinct_map)
  qed (use sets in simp_all)
  then show ?thesis by (simp add: o_def)
qed

lemma dict_ok_image:
  assumes "dict_ok d"
  shows "(\<lambda>k. (k, the (map_of d k))) ` set (dict_keys d) = set d"
proof -
  have "(\<lambda>k. (k, the (map_of d k))) ` set (dict_keys d) = (\<lambda>kv. (fst kv, the (map_of d (fst kv)))) ` set d"
    by (simp add: image_image)
  also have "\<dots> = (\<lambda>kv. kv) ` set d"
  proof (rule image_cong [OF refl])
    fix kv assume "kv \<in> set d"
    then have "map_of d (fst kv) = Some (snd kv)" using dict_ok_map_of [OF assms, of "fst kv" "snd kv"] by simp
    then show "(fst kv, the (map_of d (fst kv))) = kv" by simp
  qed
  finally show ?thesis by simp
qed

lemma decode_worktrees:
  assumes "valid_task t" and "distinct (List.map rr_repo rows)" and "set rows = set (task_repo_values t)"
  shows "List.map (\<lambda>r. (rr_repo r, the (rr_worktree r))) (filter (\<lambda>r. rr_worktree r \<noteq> None) (sort_key rr_repo rows))
    = by_key (tk_worktrees t)"
    (is "?xs = _")
proof (rule sorted_key_unique [of fst])
  have ok: "dict_ok (tk_worktrees t)" and sub: "set (dict_keys (tk_worktrees t)) \<subseteq> set (repo_names t)"
    using assms(1) by (simp_all add: set_repo_names valid_task_def le_supI1)
  show "sorted (List.map fst ?xs)"
    using sorted_filter [of rr_repo "sort_key rr_repo rows"] by (simp add: o_def)
  have "distinct (List.map rr_repo (filter (\<lambda>r. rr_worktree r \<noteq> None) (sort_key rr_repo rows)))"
    using assms(2) by (intro distinct_map_filter) (simp only: distinct_map_sort_key)
  then show "distinct (List.map fst ?xs)" by (simp add: o_def)
  show "sorted (List.map fst (by_key (tk_worktrees t)))" by (simp add: by_key_def)
  show "distinct (List.map fst (by_key (tk_worktrees t)))"
    using ok by (metis dict_ok_by_key dict_ok_def)
  have "set ?xs = (\<lambda>r. (rr_repo r, the (rr_worktree r))) `
      {q \<in> row_of t ` set (repo_names t). rr_worktree q \<noteq> None}"
    using assms(3) by (simp add: task_repo_values_rows)
  also have "\<dots> = (\<lambda>r. (r, the (map_of (tk_worktrees t) r))) `
      {r \<in> set (repo_names t). map_of (tk_worktrees t) r \<noteq> None}"
    by (simp only: image_Collect_mem image_image row_of_simps)
  also have "{r \<in> set (repo_names t). map_of (tk_worktrees t) r \<noteq> None} = set (dict_keys (tk_worktrees t))"
    using sub unfolding map_of_eq_None_iff by (simp only: not_not set_map) blast
  also have "(\<lambda>r. (r, the (map_of (tk_worktrees t) r))) ` set (dict_keys (tk_worktrees t)) = set (tk_worktrees t)"
    by (rule dict_ok_image [OF ok])
  finally show "set ?xs = set (by_key (tk_worktrees t))" by simp
qed

lemma decode_passive:
  assumes "valid_task t" and "set rows = set (task_repo_values t)"
  shows "rr_repo ` set (filter rr_passive (sort_key rr_repo rows)) = tk_passive_repos t"
proof -
  have "rr_repo ` set (filter rr_passive (sort_key rr_repo rows)) =
      rr_repo ` {q \<in> row_of t ` set (repo_names t). rr_passive q}"
    using assms(2) by (simp add: task_repo_values_rows)
  also have "\<dots> = {r \<in> set (repo_names t). r \<in> tk_passive_repos t}" by force
  also have "\<dots> = tk_passive_repos t" using assms(1) by (auto simp: set_repo_names valid_task_def)
  finally show ?thesis .
qed

section \<open>Child rows\<close>

lemma decode_results:
  "List.map (\<lambda>r. (rt_repo r, \<lparr>tr_status = rt_status r, tr_at = decode_datetime (rt_at r)\<rparr>))
     (sort_key rt_repo (result_rows t)) =
   List.map (\<lambda>kv. (fst kv, (snd kv)\<lparr>tr_at := norm_dt (tr_at (snd kv))\<rparr>)) (by_key (tk_test_results t))"
  by (simp add: result_rows_def sort_key_map by_key_def norm_dt_def decode_datetime_def encode_datetime_def)

lemma decode_prs:
  "List.map (\<lambda>r. (pw_repo r, pw_url r)) (sort_key pw_repo (pr_rows t)) = by_key (tk_pr_urls t)"
  by (simp add: pr_rows_def sort_key_map by_key_def o_def)

lemma decode_deps:
  "List.map (\<lambda>r. \<lparr>upstream_slug = dp_upstream r, de_created_at = decode_datetime (dp_created_at r)\<rparr>)
     (sort_key (\<lambda>r. (dp_created_at r, dp_upstream r)) (dep_rows t)) =
   List.map (\<lambda>e. e\<lparr>de_created_at := norm_dt (de_created_at e)\<rparr>)
     (sort_key (\<lambda>e. (instant (de_created_at e), upstream_slug e)) (tk_depends_on t))"
  by (simp add: dep_rows_def sort_key_map norm_dt_def decode_datetime_def encode_datetime_def)

lemma add_anchor_map:
  assumes "dict_ok B" and "map_of B (an_source a) = Some d" and "an_dependency a \<notin> set (dict_keys d)"
  shows "add_anchor a B = List.map (\<lambda>sd. (fst sd,
    if fst sd = an_source a then snd sd @ [(an_dependency a, an_sha a)] else snd sd)) B"
proof -
  have "add_anchor a B = AList.update (an_source a) (d @ [(an_dependency a, an_sha a)]) B"
    using assms(2,3) by (simp add: add_anchor_def update_fresh)
  also have "\<dots> = AList.update (an_source a) (d @ [(an_dependency a, an_sha a)])
      (List.map (\<lambda>kd. (fst kd, snd kd)) B)" by simp
  also have "\<dots> = List.map (\<lambda>kd. (fst kd,
      if fst kd = an_source a then d @ [(an_dependency a, an_sha a)] else snd kd)) B"
    using assms(1,2) unfolding dict_ok_def by (rule update_map_pair)
  also have "\<dots> = List.map (\<lambda>sd. (fst sd,
      if fst sd = an_source a then snd sd @ [(an_dependency a, an_sha a)] else snd sd)) B"
  proof (intro map_cong refl)
    fix kd assume "kd \<in> set B"
    then have "map_of B (fst kd) = Some (snd kd)"
      using dict_ok_map_of [OF assms(1), of "fst kd" "snd kd"] by simp
    then show "(fst kd, if fst kd = an_source a then d @ [(an_dependency a, an_sha a)] else snd kd) =
        (fst kd, if fst kd = an_source a then snd kd @ [(an_dependency a, an_sha a)] else snd kd)"
      using assms(2) by auto
  qed
  finally show ?thesis .
qed

definition own_anchors :: "anchor_row list \<Rightarrow> str \<Rightarrow> str dict" where
  "own_anchors L s = List.map (\<lambda>a. (an_dependency a, an_sha a)) (filter (\<lambda>a. an_source a = s) L)"

lemma fold_add_anchor:
  "dict_ok B \<Longrightarrow> distinct (List.map (\<lambda>a. (an_source a, an_dependency a)) L) \<Longrightarrow>
   \<forall>a \<in> set L. \<exists>d. map_of B (an_source a) = Some d \<and> an_dependency a \<notin> set (dict_keys d) \<Longrightarrow>
   fold add_anchor L B = List.map (\<lambda>sd. (fst sd, snd sd @ own_anchors L (fst sd))) B"
proof (induction L arbitrary: B)
  case Nil
  then show ?case by (simp add: own_anchors_def)
next
  case (Cons a L)
  let ?f = "\<lambda>s d. if s = an_source a then d @ [(an_dependency a, an_sha a)] else d"
  obtain d where d: "map_of B (an_source a) = Some d" "an_dependency a \<notin> set (dict_keys d)"
    using Cons.prems(3) by auto
  have B': "add_anchor a B = List.map (\<lambda>sd. (fst sd, ?f (fst sd) (snd sd))) B"
    by (rule add_anchor_map [OF Cons.prems(1) d])
  have ok: "dict_ok (add_anchor a B)" unfolding B' using Cons.prems(1) by (simp add: dict_ok_def o_def)
  have "\<exists>d. map_of (add_anchor a B) (an_source x) = Some d \<and> an_dependency x \<notin> set (dict_keys d)"
    if x: "x \<in> set L" for x
  proof -
    obtain e where e: "map_of B (an_source x) = Some e" "an_dependency x \<notin> set (dict_keys e)"
      using Cons.prems(3) x by auto
    have "(an_source x, an_dependency x) \<in> (\<lambda>a. (an_source a, an_dependency a)) ` set L"
      using x by (rule imageI)
    moreover have "(an_source a, an_dependency a) \<notin> (\<lambda>a. (an_source a, an_dependency a)) ` set L"
      using Cons.prems(2) by simp
    ultimately have "an_source x = an_source a \<longrightarrow> an_dependency x \<noteq> an_dependency a" by metis
    with e show ?thesis unfolding B' map_of_map_pair [of ?f] by auto
  qed
  then have "fold add_anchor L (add_anchor a B) =
      List.map (\<lambda>sd. (fst sd, snd sd @ own_anchors L (fst sd))) (add_anchor a B)"
    using Cons.prems(2) by (intro Cons.IH [OF ok]) simp_all
  also have "\<dots> = List.map (\<lambda>sd. (fst sd, snd sd @ own_anchors (a # L) (fst sd))) B"
    unfolding B' map_map o_def by (intro map_cong refl) (simp add: own_anchors_def)
  finally show ?case by simp
qed

lemma anchors_of_source:
  "distinct (dict_keys sw) \<Longrightarrow> (s, d) \<in> set sw \<Longrightarrow>
   filter (\<lambda>a. an_source a = s) (concat (List.map (anchors_from slug) sw)) = anchors_from slug (s, d)"
proof (induction sw)
  case (Cons x sw)
  have no: "filter (\<lambda>a. an_source a = s) (anchors_from slug y) = []" if "fst y \<noteq> s" for y
    using that by (simp add: anchors_from_def filter_empty_conv)
  have all: "filter (\<lambda>a. an_source a = s) (anchors_from slug y) = anchors_from slug y" if "fst y = s" for y
    using that by (simp add: anchors_from_def filter_id_conv)
  show ?case
  proof (cases "x = (s, d)")
    case True
    with Cons.prems(1) have "s \<notin> fst ` set sw" by simp
    then have "filter (\<lambda>a. an_source a = s) (concat (List.map (anchors_from slug) sw)) = []"
      by (simp add: filter_empty_conv anchors_from_def) fastforce
    with True all [of x] show ?thesis by simp
  next
    case False
    with Cons.prems(2) have mem: "(s, d) \<in> set sw" by simp
    then have "s \<in> fst ` set sw" by (rule rev_image_eqI) simp
    with Cons.prems(1) have "fst x \<noteq> s" by auto
    with no Cons.IH [OF _ mem] Cons.prems(1) show ?thesis by simp
  qed
qed simp

lemma anchor_source_mem:
  "a \<in> set (concat (List.map (anchors_from slug) sw)) \<Longrightarrow> an_source a \<in> set (dict_keys sw)"
  by (induction sw) (auto simp: anchors_from_def)

lemma anchors_from_keys [simp]:
  "List.map (\<lambda>a. (an_source a, an_dependency a)) (anchors_from slug sd) = List.map (\<lambda>ds. (fst sd, fst ds)) (snd sd)"
  by (auto simp: anchors_from_def o_def)

lemma distinct_anchor_keys:
  "distinct (dict_keys sw) \<Longrightarrow> \<forall>sd \<in> set sw. dict_ok (snd sd) \<Longrightarrow>
   distinct (List.map (\<lambda>a. (an_source a, an_dependency a)) (concat (List.map (anchors_from slug) sw)))"
proof (induction sw)
  case (Cons x sw)
  let ?C = "concat (List.map (anchors_from slug) sw)"
  have "distinct (List.map fst (snd x))" using Cons.prems(2) by (simp add: dict_ok_def)
  then have "distinct (List.map (\<lambda>ds. (fst x, fst ds)) (snd x))"
    by (simp add: distinct_map inj_on_def)
  moreover have "distinct (List.map (\<lambda>a. (an_source a, an_dependency a)) (concat (List.map (anchors_from slug) sw)))"
    using Cons by simp
  moreover have "set (List.map (\<lambda>ds. (fst x, fst ds)) (snd x)) \<inter>
      set (List.map (\<lambda>a. (an_source a, an_dependency a)) ?C) = {}" (is "?A \<inter> ?B = {}")
  proof (rule equals0I)
    fix p assume "p \<in> ?A \<inter> ?B"
    then have "p \<in> ?A" and "p \<in> ?B" by (rule IntD1, rule IntD2)
    from \<open>p \<in> ?A\<close> have "fst p = fst x" by auto
    moreover from \<open>p \<in> ?B\<close> have "fst p \<in> an_source ` set ?C" by (auto simp del: set_concat)
    then obtain a where "fst p = an_source a" "a \<in> set ?C" by (rule imageE)
    with anchor_source_mem have "fst p \<in> set (dict_keys sw)" by (simp only:)
    ultimately show False using Cons.prems(1) by simp
  qed
  ultimately show ?case by (simp only: list.map concat.simps map_append anchors_from_keys distinct_append simp_thms)
qed simp

lemma decode_switched:
  assumes "valid_task t"
  shows "fold add_anchor (sort_key (\<lambda>r. (an_source r, an_dependency r)) (anchor_rows t))
      (List.map (\<lambda>r. (so_source r, [])) (sort_key so_source (source_rows t))) =
    List.map (\<lambda>kd. (fst kd, by_key (snd kd))) (by_key (tk_last_switched_at_sha t))"
proof -
  let ?sw = "tk_last_switched_at_sha t"
  let ?L = "sort_key (\<lambda>r. (an_source r, an_dependency r)) (anchor_rows t)"
  let ?B = "List.map (\<lambda>kd. (fst kd, [])) (by_key ?sw)"
  have sw: "dict_ok ?sw" "distinct (dict_keys ?sw)"
    and inner: "\<And>s d. (s, d) \<in> set ?sw \<Longrightarrow> dict_ok d"
    using assms by (auto simp: valid_task_def dict_ok_def list_all_iff)
  have B: "List.map (\<lambda>r. (so_source r, [])) (sort_key so_source (source_rows t)) = ?B"
    by (simp add: source_rows_def sort_key_map by_key_def o_def)
  have okB: "dict_ok ?B" using sw(1) dict_ok_by_key [of ?sw] by (simp add: dict_ok_def o_def)
  have rows: "anchor_rows t = concat (List.map (anchors_from (tk_slug t)) ?sw)"
    by (simp add: anchor_rows_def)
  have "fold add_anchor ?L ?B = List.map (\<lambda>sd. (fst sd, snd sd @ own_anchors ?L (fst sd))) ?B"
  proof (rule fold_add_anchor [OF okB])
    show "distinct (List.map (\<lambda>a. (an_source a, an_dependency a)) ?L)"
      unfolding distinct_map_sort_key rows
      by (rule distinct_anchor_keys [OF sw(2)]) (use inner in force)
    show "\<forall>a \<in> set ?L. \<exists>d. map_of ?B (an_source a) = Some d \<and> an_dependency a \<notin> set (dict_keys d)"
    proof
      fix a assume "a \<in> set ?L"
      then have "an_source a \<in> set (dict_keys (by_key ?sw))"
        using anchor_source_mem [of a "tk_slug t" ?sw] by (simp only: rows set_sort set_map set_by_key)
      then have "map_of (by_key ?sw) (an_source a) \<noteq> None" by (simp add: map_of_eq_None_iff)
      then show "\<exists>d. map_of ?B (an_source a) = Some d \<and> an_dependency a \<notin> set (dict_keys d)"
        using map_of_map_pair [of "\<lambda>_ _. []" "by_key ?sw" "an_source a"] by auto
    qed
  qed
  also have "\<dots> = List.map (\<lambda>kd. (fst kd, own_anchors ?L (fst kd))) (by_key ?sw)" by simp
  also have "\<dots> = List.map (\<lambda>kd. (fst kd, by_key (snd kd))) (by_key ?sw)"
  proof (intro map_cong refl)
    fix kd assume "kd \<in> set (by_key ?sw)"
    then have mem: "kd \<in> set ?sw" by (simp only: set_by_key)
    obtain s d where "kd = (s, d)" by (cases kd)
    with mem have kd: "kd = (s, d)" "(s, d) \<in> set ?sw" by simp_all
    have "filter (\<lambda>a. an_source a = s) ?L =
        sort_key (\<lambda>r. (an_source r, an_dependency r)) (anchors_from (tk_slug t) (s, d))"
      unfolding sort_key_filter rows anchors_of_source [OF sw(2) kd(2)] ..
    also have "\<dots> = anchors_from (tk_slug t) (s, by_key d)"
    proof -
      have "sort_key (\<lambda>x. (s, fst x)) d = sort_key fst d" by (rule sort_key_mono) simp
      then show ?thesis by (simp add: anchors_from_def sort_key_map by_key_def)
    qed
    finally show "(fst kd, own_anchors ?L (fst kd)) = (fst kd, by_key (snd kd))"
      by (simp add: own_anchors_def kd(1) anchors_from_def o_def)
  qed
  finally show ?thesis unfolding B .
qed

section \<open>The rows of one task\<close>

record own_rows =
  ow_repos :: "repo_row list"
  ow_results :: "result_row list"
  ow_prs :: "pr_row list"
  ow_sources :: "source_row list"
  ow_anchors :: "anchor_row list"
  ow_deps :: "dep_row list"

definition own :: "task_db \<Rightarrow> str \<Rightarrow> own_rows" where
  "own db s = \<lparr>ow_repos = filter (\<lambda>r. rr_task r = s) (db_task_repos db),
     ow_results = filter (\<lambda>r. rt_task r = s) (db_test_results db),
     ow_prs = filter (\<lambda>r. pw_task r = s) (db_pr_urls db),
     ow_sources = filter (\<lambda>r. so_task r = s) (db_switch_sources db),
     ow_anchors = filter (\<lambda>r. an_task r = s) (db_switch_anchors db),
     ow_deps = filter (\<lambda>r. dp_task r = s) (db_dependencies db)\<rparr>"

lemma own_simps [simp]:
  "ow_repos (own db s) = filter (\<lambda>r. rr_task r = s) (db_task_repos db)"
  "ow_results (own db s) = filter (\<lambda>r. rt_task r = s) (db_test_results db)"
  "ow_prs (own db s) = filter (\<lambda>r. pw_task r = s) (db_pr_urls db)"
  "ow_sources (own db s) = filter (\<lambda>r. so_task r = s) (db_switch_sources db)"
  "ow_anchors (own db s) = filter (\<lambda>r. an_task r = s) (db_switch_anchors db)"
  "ow_deps (own db s) = filter (\<lambda>r. dp_task r = s) (db_dependencies db)"
  by (simp_all add: own_def)

lemma own_eqD:
  assumes "own db s = w"
  shows "filter (\<lambda>r. rr_task r = s) (db_task_repos db) = ow_repos w"
    "filter (\<lambda>r. rt_task r = s) (db_test_results db) = ow_results w"
    "filter (\<lambda>r. pw_task r = s) (db_pr_urls db) = ow_prs w"
    "filter (\<lambda>r. so_task r = s) (db_switch_sources db) = ow_sources w"
    "filter (\<lambda>r. an_task r = s) (db_switch_anchors db) = ow_anchors w"
    "filter (\<lambda>r. dp_task r = s) (db_dependencies db) = ow_deps w"
  unfolding assms [symmetric] by simp_all

definition row_for :: "task_db \<Rightarrow> str \<Rightarrow> task_row option" where
  "row_for db s = List.find (\<lambda>r. w_slug r = s) (db_tasks db)"

text \<open>The database holds exactly the rows that encode the task.\<close>

definition holds :: "task_db \<Rightarrow> task \<Rightarrow> bool" where
  "holds db t \<longleftrightarrow> distinct (List.map rr_repo (ow_repos (own db (tk_slug t))))
     \<and> set (ow_repos (own db (tk_slug t))) = set (task_repo_values t)
     \<and> ow_results (own db (tk_slug t)) = result_rows t \<and> ow_prs (own db (tk_slug t)) = pr_rows t
     \<and> ow_sources (own db (tk_slug t)) = source_rows t \<and> ow_anchors (own db (tk_slug t)) = anchor_rows t
     \<and> ow_deps (own db (tk_slug t)) = dep_rows t"

lemma decode_holds:
  assumes "valid_task t" and "holds db t"
  shows "decode_task db (scalar_values n t) = norm_task t"
proof -
  let ?rows = "filter (\<lambda>r. rr_task r = tk_slug t) (db_task_repos db)"
  have rows: "distinct (List.map rr_repo ?rows)" "set ?rows = set (task_repo_values t)"
    and others: "filter (\<lambda>r. rt_task r = tk_slug t) (db_test_results db) = result_rows t"
      "filter (\<lambda>r. pw_task r = tk_slug t) (db_pr_urls db) = pr_rows t"
      "filter (\<lambda>r. so_task r = tk_slug t) (db_switch_sources db) = source_rows t"
      "filter (\<lambda>r. an_task r = tk_slug t) (db_switch_anchors db) = anchor_rows t"
      "filter (\<lambda>r. dp_task r = tk_slug t) (db_dependencies db) = dep_rows t"
    using assms(2) by (simp_all only: holds_def own_simps)
  let ?sorted = "sort_key rr_repo ?rows"
  have sorted: "distinct (List.map rr_repo ?sorted)" "set ?sorted = set (task_repo_values t)"
    using rows by (simp_all only: distinct_map_sort_key set_sort)
  note parts = decode_affected [OF assms(1) sorted] decode_worktrees [OF assms(1) rows]
    decode_passive [OF assms(1) rows(2)] decode_results decode_prs decode_deps decode_switched [OF assms(1)]
  show ?thesis
    unfolding decode_task_def Let_def
    by (simp only: scalar_values_def task_row.simps others parts, rule task.equality)
      (simp_all add: norm_task_def norm_dt_def [abs_def] encode_datetime_def [abs_def]
        decode_datetime_def [abs_def] option.map_comp o_def)
qed

lemma row_for_slug: "row_for db s = Some r \<Longrightarrow> w_slug r = s"
  by (auto simp: row_for_def find_Some_iff)

lemma task_get_row: "task_get db s = map_option (decode_task db) (row_for db s)"
  by (simp add: task_get_def row_for_def)

lemma decode_own:
  assumes "own db' (w_slug r) = own db (w_slug r)"
  shows "decode_task db' r = decode_task db r"
  unfolding decode_task_def Let_def by (simp only: own_eqD [OF assms] own_simps)

text \<open>A task whose rows are left alone reads the same.\<close>

lemma task_get_frame:
  assumes "row_for db' s = row_for db s" and "own db' s = own db s"
  shows "task_get db' s = task_get db s"
proof (cases "row_for db s")
  case None
  with assms(1) show ?thesis by (simp add: task_get_row)
next
  case (Some r)
  then have "own db' (w_slug r) = own db (w_slug r)" using assms(2) row_for_slug by simp
  from decode_own [OF this] Some assms(1) show ?thesis by (simp add: task_get_row)
qed

lemma task_get_holds:
  assumes "valid_task t" and "holds db t" and "row_for db (tk_slug t) = Some (scalar_values n t)"
  shows "task_get db (tk_slug t) = Some (norm_task t)"
  using assms decode_holds by (simp add: task_get_row)

section \<open>Well-formed databases\<close>

definition refs_ok :: "task_db \<Rightarrow> bool" where
  "refs_ok db \<longleftrightarrow> (\<forall>r \<in> set (db_task_repos db). rr_task r \<in> set (db_slugs db))
     \<and> (\<forall>r \<in> set (db_test_results db). rt_task r \<in> set (db_slugs db))
     \<and> (\<forall>r \<in> set (db_pr_urls db). pw_task r \<in> set (db_slugs db))
     \<and> (\<forall>r \<in> set (db_switch_sources db). so_task r \<in> set (db_slugs db))
     \<and> (\<forall>r \<in> set (db_switch_anchors db). an_task r \<in> set (db_slugs db))
     \<and> (\<forall>r \<in> set (db_dependencies db). dp_task r \<in> set (db_slugs db) \<and> dp_upstream r \<in> set (db_slugs db))
     \<and> (\<forall>r \<in> set (db_app_runs db). fst r \<in> set (db_slugs db))"

definition wf_db :: "task_db \<Rightarrow> bool" where
  "wf_db db \<longleftrightarrow> distinct (db_slugs db) \<and> refs_ok db
     \<and> distinct (List.map (\<lambda>r. (rr_task r, rr_repo r)) (db_task_repos db))"

lemma filter_none: "\<forall>r \<in> set xs. f r \<in> A \<Longrightarrow> s \<notin> A \<Longrightarrow> filter (\<lambda>r. f r = s) xs = []"
  by (auto simp: filter_empty_conv)

lemma own_absent:
  assumes "refs_ok db" and "s \<notin> set (db_slugs db)"
  shows "own db s = \<lparr>ow_repos = [], ow_results = [], ow_prs = [], ow_sources = [], ow_anchors = [], ow_deps = []\<rparr>"
  using assms unfolding own_def refs_ok_def by (simp add: filter_none [of _ _ "set (db_slugs db)"])

section \<open>Insertion\<close>

lemma insert_repo_rows_Inr:
  assumes "rfold (insert_repo_row slugs) rows t = Inr t'"
  shows "t' = t @ rows \<and> (\<forall>r \<in> set rows. rr_task r \<in> set slugs)
    \<and> distinct (List.map (\<lambda>r. (rr_task r, rr_repo r)) rows)
    \<and> (\<lambda>r. (rr_task r, rr_repo r)) ` set rows \<inter> (\<lambda>r. (rr_task r, rr_repo r)) ` set t = {}"
  using assms
proof (induction rows arbitrary: t)
  case (Cons r rows)
  from Cons.prems obtain t1 where one: "insert_repo_row slugs r t = Inr t1"
    and rfold: "rfold (insert_repo_row slugs) rows t1 = Inr t'" by (auto simp: result_simps)
  from one have t1: "t1 = t @ [r]" and ok: "rr_task r \<in> set slugs"
    "\<forall>q \<in> set t. \<not> (rr_task q = rr_task r \<and> rr_repo q = rr_repo r)"
    by (auto simp: insert_repo_row_def list_ex_iff split: if_splits)
  note rest = rfold [unfolded t1]
  from Cons.IH [OF rest] ok show ?case by fastforce
qed simp

text \<open>Appending rows of one task.\<close>

lemma filter_own_append:
  assumes "\<forall>r \<in> set new. f r = k"
  shows "filter (\<lambda>r. f r = s) (old @ new) = filter (\<lambda>r. f r = s) old @ (if s = k then new else [])"
  using assms by (auto simp: filter_empty_conv filter_id_conv)

lemma rows_of_task:
  "\<forall>r \<in> set (task_repo_values t). rr_task r = tk_slug t"
  "\<forall>r \<in> set (result_rows t). rt_task r = tk_slug t"
  "\<forall>r \<in> set (pr_rows t). pw_task r = tk_slug t"
  "\<forall>r \<in> set (source_rows t). so_task r = tk_slug t"
  "\<forall>r \<in> set (anchor_rows t). an_task r = tk_slug t"
  "\<forall>r \<in> set (dep_rows t). dp_task r = tk_slug t"
  by (auto simp: task_repo_values_rows result_rows_def pr_rows_def source_rows_def anchor_rows_def
      anchors_from_def dep_rows_def)

lemma insert_children_Inr:
  assumes "insert_children t db = Inr db'"
  shows "db' = db\<lparr>db_test_results := db_test_results db @ result_rows t,
      db_pr_urls := db_pr_urls db @ pr_rows t,
      db_switch_sources := db_switch_sources db @ source_rows t,
      db_switch_anchors := db_switch_anchors db @ anchor_rows t,
      db_dependencies := db_dependencies db @ dep_rows t\<rparr>
    \<and> (\<forall>u \<in> upstream_slug ` set (tk_depends_on t). u \<in> set (db_slugs db) \<and> u \<noteq> tk_slug t)"
proof -
  have ups: "upstream_slug ` set (tk_depends_on t) = dp_upstream ` set (dep_rows t)"
    by (simp add: dep_rows_def image_image)
  from assms show ?thesis unfolding ups
    using rows_of_task(6) [of t]
    by (auto simp: insert_children_def Let_def result_simps insert_many_Inr list_all_iff)
qed

lemma fresh_keys:
  "filter (\<lambda>r. f r = s) old = [] \<Longrightarrow> \<forall>r \<in> set new. f r = s \<Longrightarrow>
   (\<lambda>r. (f r, g r)) ` set new \<inter> (\<lambda>r. (f r, g r)) ` set old = {}"
  by (auto simp: filter_empty_conv)

lemma distinct_tagged: "distinct (List.map g xs) \<Longrightarrow> distinct (List.map (\<lambda>r. (f r, g r)) xs)"
  by (auto simp: distinct_map inj_on_def)

lemma distinct_child_keys:
  assumes "valid_task t"
  shows "distinct (List.map rt_repo (result_rows t))" "distinct (List.map pw_repo (pr_rows t))"
    "distinct (List.map so_source (source_rows t))"
    "distinct (List.map (\<lambda>r. (an_source r, an_dependency r)) (anchor_rows t))"
    "distinct (List.map dp_upstream (dep_rows t))"
proof -
  show "distinct (List.map (\<lambda>r. (an_source r, an_dependency r)) (anchor_rows t))"
    unfolding anchor_rows_def
    by (rule distinct_anchor_keys) (use assms in \<open>simp_all add: valid_task_def dict_ok_def list_all_iff\<close>)
qed (use assms in \<open>simp_all add: valid_task_def dict_ok_def result_rows_def pr_rows_def source_rows_def
    dep_rows_def o_def\<close>)

lemma insert_children_ok:
  assumes "valid_task t" and "tk_slug t \<in> set (db_slugs db)"
    and "\<forall>u \<in> upstream_slug ` set (tk_depends_on t). u \<in> set (db_slugs db)"
    and "own db (tk_slug t) = \<lparr>ow_repos = rs, ow_results = [], ow_prs = [], ow_sources = [], ow_anchors = [], ow_deps = []\<rparr>"
  shows "\<exists>db'. insert_children t db = Inr db'"
proof -
  have none: "filter (\<lambda>r. rt_task r = tk_slug t) (db_test_results db) = []"
    "filter (\<lambda>r. pw_task r = tk_slug t) (db_pr_urls db) = []"
    "filter (\<lambda>r. so_task r = tk_slug t) (db_switch_sources db) = []"
    "filter (\<lambda>r. an_task r = tk_slug t) (db_switch_anchors db) = []"
    "filter (\<lambda>r. dp_task r = tk_slug t) (db_dependencies db) = []"
    using own_eqD [OF assms(4)] by simp_all
  note keys = distinct_child_keys [OF assms(1), THEN distinct_tagged]
  have deps: "list_all (\<lambda>r. dp_task r \<in> set (db_slugs db) \<and> dp_upstream r \<in> set (db_slugs db)
      \<and> dp_task r \<noteq> dp_upstream r) (dep_rows t)"
    using assms(1-3) by (auto simp: dep_rows_def valid_task_def list_all_iff)
  have known: "list_all (\<lambda>r. rt_task r \<in> set (db_slugs db)) (result_rows t)"
    "list_all (\<lambda>r. pw_task r \<in> set (db_slugs db)) (pr_rows t)"
    "list_all (\<lambda>r. so_task r \<in> set (db_slugs db)) (source_rows t)"
    "list_all (\<lambda>r. an_task r \<in> set (db_slugs db)) (anchor_rows t)"
    using assms(2) rows_of_task [of t] by (simp_all add: list_all_iff)
  note ins = insert_many_ok [OF known(1) keys(1) fresh_keys [OF none(1) rows_of_task(2)]]
    insert_many_ok [OF known(2) keys(2) fresh_keys [OF none(2) rows_of_task(3)]]
    insert_many_ok [OF known(3) keys(3) fresh_keys [OF none(3) rows_of_task(4)]]
    insert_many_ok [OF known(4) keys(4) fresh_keys [OF none(4) rows_of_task(5)]]
    insert_many_ok [OF deps keys(5) fresh_keys [OF none(5) rows_of_task(6)]]
  show ?thesis
    unfolding insert_children_def Let_def anchor_key_def [abs_def] by (simp only: ins rbind_Inr) blast
qed

lemma task_insert_Inr:
  assumes "task_insert t db = Inr db'"
  shows "tk_slug t \<notin> set (db_slugs db)"
    and "db' = db\<lparr>db_tasks := db_tasks db @ [scalar_values 0 t],
      db_task_repos := db_task_repos db @ task_repo_values t,
      db_test_results := db_test_results db @ result_rows t,
      db_pr_urls := db_pr_urls db @ pr_rows t,
      db_switch_sources := db_switch_sources db @ source_rows t,
      db_switch_anchors := db_switch_anchors db @ anchor_rows t,
      db_dependencies := db_dependencies db @ dep_rows t\<rparr>"
    and "\<forall>u \<in> upstream_slug ` set (tk_depends_on t). u \<in> set (db_slugs db) \<and> u \<noteq> tk_slug t"
    and "distinct (List.map (\<lambda>r. (rr_task r, rr_repo r)) (task_repo_values t))"
    and "(\<lambda>r. (rr_task r, rr_repo r)) ` set (task_repo_values t)
      \<inter> (\<lambda>r. (rr_task r, rr_repo r)) ` set (db_task_repos db) = {}"
proof -
  let ?db1 = "db\<lparr>db_tasks := db_tasks db @ [scalar_values 0 t]\<rparr>"
  from assms obtain repos where fresh: "tk_slug t \<notin> w_slug ` set (db_tasks db)"
    and repos: "rfold (insert_repo_row (db_slugs ?db1)) (task_repo_values t) (db_task_repos db) = Inr repos"
    and kids: "insert_children t (?db1\<lparr>db_task_repos := repos\<rparr>) = Inr db'"
    by (auto simp: task_insert_def insert_row_def Let_def result_simps scalar_values_def split: if_splits)
  note R = insert_repo_rows_Inr [OF repos] and K = insert_children_Inr [OF kids]
  show f: "tk_slug t \<notin> set (db_slugs db)" using fresh by (simp add: db_slugs_def)
  show "db' = db\<lparr>db_tasks := db_tasks db @ [scalar_values 0 t],
      db_task_repos := db_task_repos db @ task_repo_values t,
      db_test_results := db_test_results db @ result_rows t,
      db_pr_urls := db_pr_urls db @ pr_rows t,
      db_switch_sources := db_switch_sources db @ source_rows t,
      db_switch_anchors := db_switch_anchors db @ anchor_rows t,
      db_dependencies := db_dependencies db @ dep_rows t\<rparr>"
    using R K by simp
  show "\<forall>u \<in> upstream_slug ` set (tk_depends_on t). u \<in> set (db_slugs db) \<and> u \<noteq> tk_slug t"
    using K by (auto simp: db_slugs_def scalar_values_def)
  show "distinct (List.map (\<lambda>r. (rr_task r, rr_repo r)) (task_repo_values t))" using R by simp
  show "(\<lambda>r. (rr_task r, rr_repo r)) ` set (task_repo_values t)
      \<inter> (\<lambda>r. (rr_task r, rr_repo r)) ` set (db_task_repos db) = {}" using R by simp
qed

lemma insert_own:
  assumes "task_insert t db = Inr db'" and "refs_ok db"
  shows "own db' s = (if s = tk_slug t
    then \<lparr>ow_repos = task_repo_values t, ow_results = result_rows t, ow_prs = pr_rows t,
      ow_sources = source_rows t, ow_anchors = anchor_rows t, ow_deps = dep_rows t\<rparr>
    else own db s)"
proof -
  note none = own_eqD [OF own_absent [OF assms(2) task_insert_Inr(1) [OF assms(1)]], unfolded own_rows.simps]
  have db': "own db' s = \<lparr>
      ow_repos = filter (\<lambda>r. rr_task r = s) (db_task_repos db @ task_repo_values t),
      ow_results = filter (\<lambda>r. rt_task r = s) (db_test_results db @ result_rows t),
      ow_prs = filter (\<lambda>r. pw_task r = s) (db_pr_urls db @ pr_rows t),
      ow_sources = filter (\<lambda>r. so_task r = s) (db_switch_sources db @ source_rows t),
      ow_anchors = filter (\<lambda>r. an_task r = s) (db_switch_anchors db @ anchor_rows t),
      ow_deps = filter (\<lambda>r. dp_task r = s) (db_dependencies db @ dep_rows t)\<rparr>"
    unfolding task_insert_Inr(2) [OF assms(1)] own_def by simp
  show ?thesis
    unfolding db' filter_own_append [OF rows_of_task(1)] filter_own_append [OF rows_of_task(2)]
      filter_own_append [OF rows_of_task(3)] filter_own_append [OF rows_of_task(4)]
      filter_own_append [OF rows_of_task(5)] filter_own_append [OF rows_of_task(6)]
    by (cases "s = tk_slug t") (simp_all add: none own_def)
qed

lemma row_for_append:
  "row_for (db\<lparr>db_tasks := db_tasks db @ [r]\<rparr>) s =
    (case row_for db s of Some q \<Rightarrow> Some q | None \<Rightarrow> if w_slug r = s then Some r else None)"
  by (simp add: row_for_def find_append split: option.split)

lemma row_for_None: "row_for db s = None \<longleftrightarrow> s \<notin> set (db_slugs db)"
  by (auto simp: row_for_def find_None_iff db_slugs_def)

lemma task_get_None: "task_get db s = None \<longleftrightarrow> s \<notin> set (db_slugs db)"
  by (simp add: task_get_row row_for_None)

lemma row_for_cong: "db_tasks db' = db_tasks db \<Longrightarrow> row_for db' s = row_for db s"
  by (simp add: row_for_def)

lemma insert_get:
  assumes "wf_db db" and "valid_task t" and "task_insert t db = Inr db'"
  shows "task_get db' s = (if s = tk_slug t then Some (norm_task t) else task_get db s)"
proof -
  have refs: "refs_ok db" using assms(1) by (simp add: wf_db_def)
  note own = insert_own [OF assms(3) refs]
  have row: "row_for db' s = (case row_for db s of Some q \<Rightarrow> Some q
      | None \<Rightarrow> if tk_slug t = s then Some (scalar_values 0 t) else None)"
    using row_for_append [of db "scalar_values 0 t" s] row_for_cong [of db']
    unfolding task_insert_Inr(2) [OF assms(3)] by (simp add: row_for_def scalar_values_def)
  show ?thesis
  proof (cases "s = tk_slug t")
    case False
    with row have "row_for db' s = row_for db s" by (simp split: option.split)
    from task_get_frame [OF this] own False show ?thesis by simp
  next
    case True
    have "row_for db (tk_slug t) = None"
      using task_insert_Inr(1) [OF assms(3)] by (simp add: row_for_None)
    with row True have r: "row_for db' (tk_slug t) = Some (scalar_values 0 t)" by simp
    have "holds db' t"
      using own [of "tk_slug t"] assms(2) distinct_repo_values [of t]
      by (simp add: holds_def valid_task_def del: own_simps)
    from task_get_holds [OF assms(2) this r] True show ?thesis by simp
  qed
qed

lemma insert_wf:
  assumes "wf_db db" and "task_insert t db = Inr db'"
  shows "wf_db db'"
proof -
  have refs: "refs_ok db" and dist: "distinct (db_slugs db)"
    and keys: "distinct (List.map (\<lambda>r. (rr_task r, rr_repo r)) (db_task_repos db))"
    using assms(1) by (simp_all add: wf_db_def)
  note I = task_insert_Inr [OF assms(2)]
  have slugs: "db_slugs db' = db_slugs db @ [tk_slug t]"
    unfolding I(2) by (simp add: db_slugs_def scalar_values_def)
  have up: "\<forall>r \<in> set (dep_rows t). dp_upstream r \<in> set (db_slugs db)"
    using I(3) by (auto simp: dep_rows_def)
  have "refs_ok db'"
    using refs rows_of_task [of t] up unfolding refs_ok_def slugs unfolding I(2) by (simp add: ball_Un)
  moreover have "distinct (List.map (\<lambda>r. (rr_task r, rr_repo r)) (db_task_repos db'))"
    unfolding I(2) using keys I(4,5) by (simp add: Int_commute)
  ultimately show ?thesis using dist I(1) by (simp add: wf_db_def slugs)
qed

end
