(* ===== verification/Task_Writes.thy ===== *)
theory Task_Writes
  imports Task_Roundtrip
begin

text \<open>
  Deletion, with its cascades, and replacement of a stored task. Replacing rewrites the
  repository rows in place, because app runs refer to them; the section on replacement shows
  that clearing the ordinals that change first lets every reordering through.
\<close>

section \<open>Deletion\<close>

text \<open>What the cascade removes from the other tasks: their edges to the deleted one.\<close>

definition detach :: "str \<Rightarrow> task \<Rightarrow> task" where
  "detach slug t = t\<lparr>tk_depends_on := filter (\<lambda>e. upstream_slug e \<noteq> slug) (tk_depends_on t)\<rparr>"

lemma filter_swap_other: "s \<noteq> slug \<Longrightarrow> filter (\<lambda>r. f r = s) (filter (\<lambda>r. f r \<noteq> slug) xs) = filter (\<lambda>r. f r = s) xs"
  by (auto intro: filter_cong)

lemma task_delete_Inr:
  assumes "task_delete slug db = Inr (b, db')"
  shows "b \<longleftrightarrow> slug \<in> set (db_slugs db)" and "\<not> b \<Longrightarrow> db' = db"
    and "b \<Longrightarrow> db' = db\<lparr>db_tasks := filter (\<lambda>r. w_slug r \<noteq> slug) (db_tasks db),
      db_task_repos := filter (\<lambda>r. rr_task r \<noteq> slug) (db_task_repos db),
      db_test_results := filter (\<lambda>r. rt_task r \<noteq> slug) (db_test_results db),
      db_pr_urls := filter (\<lambda>r. pw_task r \<noteq> slug) (db_pr_urls db),
      db_switch_sources := filter (\<lambda>r. so_task r \<noteq> slug) (db_switch_sources db),
      db_switch_anchors := filter (\<lambda>r. an_task r \<noteq> slug) (db_switch_anchors db),
      db_dependencies := filter (\<lambda>r. dp_upstream r \<noteq> slug) (filter (\<lambda>r. dp_task r \<noteq> slug) (db_dependencies db))\<rparr>"
    and "b \<Longrightarrow> \<forall>r \<in> set (db_app_runs db). fst r \<noteq> slug"
  using assms by (auto simp: task_delete_def delete_children_def Let_def list_ex_iff split: if_splits)

lemma decode_detached:
  assumes "own db' (w_slug r) = (own db (w_slug r))\<lparr>ow_deps :=
      filter (\<lambda>q. dp_upstream q \<noteq> slug) (ow_deps (own db (w_slug r)))\<rparr>"
  shows "decode_task db' r = detach slug (decode_task db r)"
proof -
  note eqs = own_eqD [OF assms]
  have eqs': "filter (\<lambda>q. rr_task q = w_slug r) (db_task_repos db') = filter (\<lambda>q. rr_task q = w_slug r) (db_task_repos db)"
    "filter (\<lambda>q. rt_task q = w_slug r) (db_test_results db') = filter (\<lambda>q. rt_task q = w_slug r) (db_test_results db)"
    "filter (\<lambda>q. pw_task q = w_slug r) (db_pr_urls db') = filter (\<lambda>q. pw_task q = w_slug r) (db_pr_urls db)"
    "filter (\<lambda>q. so_task q = w_slug r) (db_switch_sources db') = filter (\<lambda>q. so_task q = w_slug r) (db_switch_sources db)"
    "filter (\<lambda>q. an_task q = w_slug r) (db_switch_anchors db') = filter (\<lambda>q. an_task q = w_slug r) (db_switch_anchors db)"
    "filter (\<lambda>q. dp_task q = w_slug r) (db_dependencies db') =
      filter (\<lambda>q. dp_upstream q \<noteq> slug) (filter (\<lambda>q. dp_task q = w_slug r) (db_dependencies db))"
    using eqs by (simp_all add: own_def)
  let ?g = "\<lambda>q. \<lparr>upstream_slug = dp_upstream q, de_created_at = decode_datetime (dp_created_at q)\<rparr>"
  have deps: "List.map ?g (sort_key (\<lambda>q. (dp_created_at q, dp_upstream q)) (filter (\<lambda>q. dp_upstream q \<noteq> slug) xs)) =
      filter (\<lambda>e. upstream_slug e \<noteq> slug) (List.map ?g (sort_key (\<lambda>q. (dp_created_at q, dp_upstream q)) xs))" for xs
    unfolding sort_key_filter [symmetric] by (simp add: filter_map o_def)
  show ?thesis
    unfolding decode_task_def Let_def detach_def by (simp only: eqs' deps) simp
qed

lemma delete_get:
  assumes "refs_ok db" and "task_delete slug db = Inr (b, db')"
  shows "task_get db' s = (if s = slug then None else map_option (detach slug) (task_get db s))"
proof (cases "slug \<in> set (db_slugs db)")
  case False
  note D = task_delete_Inr [OF assms(2)]
  have "db' = db" using D(1,2) False by simp
  have no: "\<forall>q \<in> set (db_dependencies db). dp_upstream q \<noteq> slug" using assms(1) False by (auto simp: refs_ok_def)
  have "own db s = (own db s)\<lparr>ow_deps := filter (\<lambda>q. dp_upstream q \<noteq> slug) (ow_deps (own db s))\<rparr>" for s
    using no by (simp add: own_def filter_filter) (auto intro!: filter_cong)
  then have same: "decode_task db r = detach slug (decode_task db r)" for r by (intro decode_detached) blast
  show ?thesis
  proof (cases "s = slug")
    case True
    then show ?thesis using False \<open>db' = db\<close> by (simp add: task_get_None)
  next
    case neq: False
    have "map_option (detach slug) (task_get db s) = task_get db s"
      by (cases "row_for db s") (use same in \<open>simp_all add: task_get_row\<close>)
    with neq \<open>db' = db\<close> show ?thesis by simp
  qed
next
  case True
  note D = task_delete_Inr [OF assms(2)]
  have b: "b" using D(1) True by simp
  have tasks: "db_tasks db' = filter (\<lambda>r. w_slug r \<noteq> slug) (db_tasks db)" using D(3) [OF b] by simp
  show ?thesis
  proof (cases "s = slug")
    case True
    then have "s \<notin> set (db_slugs db')" by (auto simp: db_slugs_def tasks)
    with True show ?thesis by (simp add: task_get_None [symmetric])
  next
    case False
    have row: "row_for db' s = row_for db s"
      unfolding row_for_def tasks using False by (intro find_filter_other) auto
    have own: "own db' s = (own db s)\<lparr>ow_deps := filter (\<lambda>q. dp_upstream q \<noteq> slug) (ow_deps (own db s))\<rparr>"
      using False D(3) [OF b] by (simp add: own_def filter_swap_other) (auto intro!: filter_cong)
    have "decode_task db' r = detach slug (decode_task db r)" if "row_for db s = Some r" for r
      using decode_detached [of db' r slug db] own row_for_slug [OF that] by simp
    with row False show ?thesis by (cases "row_for db s") (simp_all add: task_get_row)
  qed
qed

lemma delete_wf:
  assumes "wf_db db" and "task_delete slug db = Inr (b, db')"
  shows "wf_db db'"
proof (cases b)
  case False
  then show ?thesis using assms(1) task_delete_Inr(2) [OF assms(2)] by simp
next
  case True
  note D = task_delete_Inr(3) [OF assms(2) True] and runs = task_delete_Inr(4) [OF assms(2) True]
  have slugs: "set (db_slugs db') = set (db_slugs db) - {slug}" unfolding D by (auto simp: db_slugs_def)
  have "refs_ok db'" using assms(1) runs unfolding wf_db_def refs_ok_def slugs unfolding D by simp
  moreover have "distinct (db_slugs db')" "distinct (List.map (\<lambda>r. (rr_task r, rr_repo r)) (db_task_repos db'))"
    using assms(1) unfolding D by (simp_all add: wf_db_def db_slugs_def distinct_map_filter)
  ultimately show ?thesis by (simp add: wf_db_def)
qed

section \<open>Replacing the repository rows\<close>

lemma find_map_row:
  "List.find (\<lambda>r. rr_repo r = repo) (List.map (row_of t) names) =
    (if repo \<in> set names then Some (row_of t repo) else None)"
  by (induction names) auto

lemma desired_row_eq: "desired_row t repo = (if repo \<in> set (repo_names t) then Some (row_of t repo) else None)"
  by (simp add: desired_row_def task_repo_values_rows find_map_row)

lemma affected_ordinals_inj:
  "affected_ordinals xs r = affected_ordinals xs s \<Longrightarrow> affected_ordinals xs r \<noteq> None \<Longrightarrow> r = s"
  using affected_ordinals_Some [of xs r] affected_ordinals_Some [of xs s] by auto

text \<open>An own row is on its way to its desired form: its ordinal is cleared or final.\<close>

definition settling :: "task \<Rightarrow> repo_row list \<Rightarrow> bool" where
  "settling t rows \<longleftrightarrow> (\<forall>q \<in> set rows. rr_task q = tk_slug t \<longrightarrow> rr_repo q \<in> set (repo_names t)
     \<and> (rr_ordinal q = None \<or> rr_ordinal q = affected_ordinals (tk_affected_repos t) (rr_repo q)))"

lemma settling_no_clash:
  assumes "settling t rows" and "q \<in> set rows" and "rr_repo q \<noteq> repo"
  shows "\<not> ordinal_clash (row_of t repo) q"
  using assms affected_ordinals_inj [of "tk_affected_repos t" repo "rr_repo q"]
  by (auto simp: settling_def ordinal_clash_def)

definition settle :: "task \<Rightarrow> str set \<Rightarrow> repo_row \<Rightarrow> repo_row" where
  "settle t S q = (if rr_task q = tk_slug t \<and> rr_repo q \<in> S then row_of t (rr_repo q) else q)"

lemma settle_keys [simp]: "rr_task (settle t S q) = rr_task q" "rr_repo (settle t S q) = rr_repo q"
  by (simp_all add: settle_def)

lemma settling_settle: "settling t rows \<Longrightarrow> settling t (List.map (settle t S) rows)"
  by (auto simp: settling_def settle_def)

lemma update_shared_ok:
  assumes "settling t rows" and "repo \<in> set (repo_names t)"
  shows "update_shared t repo rows = Inr (List.map (settle t {repo}) rows)"
proof -
  have "\<not> list_ex (\<lambda>q. rr_repo q \<noteq> repo \<and> ordinal_clash (row_of t repo) q) rows"
    using settling_no_clash [OF assms(1)] by (auto simp: list_ex_iff)
  moreover have "List.map (\<lambda>q. if rr_task q = tk_slug t \<and> rr_repo q = repo then row_of t repo else q) rows =
      List.map (settle t {repo}) rows"
    by (auto simp: settle_def)
  ultimately show ?thesis using assms(2) by (simp add: update_shared_def desired_row_eq)
qed

lemma settle_settle: "settle t S (settle t {r} q) = settle t (insert r S) q"
  by (auto simp: settle_def)

lemma rfold_update_shared:
  "settling t rows \<Longrightarrow> set shared \<subseteq> set (repo_names t) \<Longrightarrow>
   rfold (update_shared t) shared rows = Inr (List.map (settle t (set shared)) rows)"
proof (induction shared arbitrary: rows)
  case Nil
  then show ?case by (simp add: settle_def [abs_def])
next
  case (Cons r shared)
  have "update_shared t r rows = Inr (List.map (settle t {r}) rows)"
    using Cons.prems by (intro update_shared_ok) simp_all
  with Cons.IH [OF settling_settle [OF Cons.prems(1)]] Cons.prems(2) show ?case
    by (simp add: o_def settle_settle)
qed

definition final_rows :: "task \<Rightarrow> repo_row list \<Rightarrow> bool" where
  "final_rows t rows \<longleftrightarrow> (\<forall>q \<in> set rows. rr_task q = tk_slug t \<longrightarrow> q = row_of t (rr_repo q))"

lemma insert_final_rows:
  "tk_slug t \<in> set slugs \<Longrightarrow> final_rows t rows \<Longrightarrow> distinct names \<Longrightarrow>
   \<forall>q \<in> set rows. rr_task q = tk_slug t \<longrightarrow> rr_repo q \<notin> set names \<Longrightarrow>
   rfold (insert_repo_row slugs) (List.map (row_of t) names) rows = Inr (rows @ List.map (row_of t) names)"
proof (induction names arbitrary: rows)
  case (Cons r names)
  have "\<not> ordinal_clash (row_of t r) q" if "q \<in> set rows" for q
  proof
    assume "ordinal_clash (row_of t r) q"
    then have q: "rr_task q = tk_slug t" "affected_ordinals (tk_affected_repos t) r \<noteq> None"
      "rr_ordinal q = affected_ordinals (tk_affected_repos t) r" by (simp_all add: ordinal_clash_def)
    then have "q = row_of t (rr_repo q)" using Cons.prems(2) that by (simp add: final_rows_def)
    then have "rr_ordinal q = affected_ordinals (tk_affected_repos t) (rr_repo q)" by (metis row_of_simps(3))
    with q have "r = rr_repo q" using affected_ordinals_inj by metis
    with q(1) that Cons.prems(4) show False by auto
  qed
  then have one: "insert_repo_row slugs (row_of t r) rows = Inr (rows @ [row_of t r])"
    using Cons.prems(1,4) by (auto simp: insert_repo_row_def list_ex_iff)
  have "final_rows t (rows @ [row_of t r])" using Cons.prems(2) by (simp add: final_rows_def)
  from Cons.IH [OF Cons.prems(1) this] Cons.prems(3,4) one show ?case by auto
qed simp

definition restricted :: "task \<Rightarrow> task_db \<Rightarrow> bool" where
  "restricted t db \<longleftrightarrow> (\<exists>q \<in> set (db_task_repos db). rr_task q = tk_slug t
     \<and> rr_repo q \<notin> set (repo_names t) \<and> (tk_slug t, rr_repo q) \<in> set (db_app_runs db))"

lemma clear_reordered_settling:
  assumes "\<forall>q \<in> set rows. rr_task q = tk_slug t \<longrightarrow> rr_repo q \<in> set (repo_names t)"
  shows "settling t (clear_reordered t rows)"
  using assms by (auto simp: settling_def clear_reordered_def desired_row_eq)

definition cleared :: "task \<Rightarrow> repo_row \<Rightarrow> repo_row" where
  "cleared t q = (if rr_task q = tk_slug t
       \<and> (case desired_row t (rr_repo q) of None \<Rightarrow> False | Some d \<Rightarrow> rr_ordinal d \<noteq> rr_ordinal q)
     then q\<lparr>rr_ordinal := None\<rparr> else q)"

lemma clear_reordered_map: "clear_reordered t rows = List.map (cleared t) rows"
  by (simp add: clear_reordered_def cleared_def)

lemma cleared_keys [simp]: "rr_task (cleared t q) = rr_task q" "rr_repo (cleared t q) = rr_repo q"
  by (simp_all add: cleared_def)

lemma filter_map_keep:
  assumes "\<And>q. rr_task (g q) = rr_task q" and "\<And>q. rr_task q \<noteq> k \<Longrightarrow> g q = q" and "s \<noteq> k"
  shows "filter (\<lambda>q. rr_task q = s) (List.map g rows) = filter (\<lambda>q. rr_task q = s) rows"
  using assms by (induction rows) auto

lemma replace_task_repos_ok:
  assumes slug: "tk_slug t \<in> set (db_slugs db)" and wt: "dict_ok (tk_worktrees t)"
    and dist: "distinct (List.map (\<lambda>r. (rr_task r, rr_repo r)) (db_task_repos db))"
    and free: "\<not> restricted t db"
  shows "\<exists>rows. replace_task_repos t db = Inr (db\<lparr>db_task_repos := rows\<rparr>)
    \<and> distinct (List.map (\<lambda>r. (rr_task r, rr_repo r)) rows)
    \<and> set (filter (\<lambda>q. rr_task q = tk_slug t) rows) = set (task_repo_values t)
    \<and> (\<forall>s. s \<noteq> tk_slug t \<longrightarrow>
        filter (\<lambda>q. rr_task q = s) rows = filter (\<lambda>q. rr_task q = s) (db_task_repos db))"
proof -
  let ?N = "set (repo_names t)" and ?k = "tk_slug t" and ?old = "db_task_repos db"
  let ?own = "List.map rr_repo (filter (\<lambda>r. rr_task r = ?k) ?old)"
  let ?shared = "filter (\<lambda>r. desired_row t r \<noteq> None) ?own"
  let ?removed = "filter (\<lambda>r. desired_row t r = None) ?own"
  define kept where "kept = filter (\<lambda>r. \<not> (rr_task r = ?k \<and> rr_repo r \<in> set ?removed)) ?old"
  define mid where "mid = List.map (settle t (set ?shared)) (clear_reordered t kept)"
  define names where "names = filter (\<lambda>r. r \<notin> set ?shared) (repo_names t)"
  have shared: "set ?shared = {r \<in> set ?own. r \<in> ?N}" and removed: "set ?removed = {r \<in> set ?own. r \<notin> ?N}"
    by (auto simp: desired_row_eq)
  have kept_own: "rr_repo q \<in> ?N" if "q \<in> set kept" "rr_task q = ?k" for q
    using that unfolding kept_def by (auto simp: desired_row_eq split: if_splits)
  have settling: "settling t (clear_reordered t kept)"
    using kept_own by (intro clear_reordered_settling) blast
  have upd: "rfold (update_shared t) ?shared (clear_reordered t kept) = Inr mid"
    unfolding mid_def by (rule rfold_update_shared [OF settling]) (use shared in blast)
  have keys_mid: "List.map (\<lambda>r. (rr_task r, rr_repo r)) mid = List.map (\<lambda>r. (rr_task r, rr_repo r)) kept"
    by (simp add: mid_def clear_reordered_map o_def)
  have own_mid: "q = row_of t (rr_repo q) \<and> rr_repo q \<in> set ?shared" if "q \<in> set mid" "rr_task q = ?k" for q
  proof -
    from that(1) obtain p where p: "p \<in> set kept" "q = settle t (set ?shared) (cleared t p)"
      by (auto simp: mid_def clear_reordered_map)
    with that(2) have own: "rr_task p = ?k" "rr_repo q = rr_repo p" by simp_all
    have "p \<in> set ?old" using p(1) by (simp add: kept_def)
    with own have "rr_repo p \<in> set ?own" by simp
    with kept_own [OF p(1) own(1)] shared have "rr_repo p \<in> set ?shared" by blast
    with p(2) own show ?thesis by (simp add: settle_def)
  qed
  have fresh: "rr_repo q \<notin> set names" if "q \<in> set mid" "rr_task q = ?k" for q
    using own_mid [OF that] unfolding names_def by (simp only: set_filter mem_Collect_eq simp_thms)
  have rest: "filter (\<lambda>r. rr_repo r \<notin> set ?shared) (task_repo_values t) = List.map (row_of t) names"
    by (simp add: task_repo_values_rows names_def filter_map o_def)
  have ins: "rfold (insert_repo_row (db_slugs db)) (List.map (row_of t) names) mid = Inr (mid @ List.map (row_of t) names)"
  proof (rule insert_final_rows [OF slug])
    show "final_rows t mid" using own_mid by (simp add: final_rows_def)
    show "distinct names" unfolding names_def using distinct_repo_names [OF wt] by simp
    show "\<forall>q \<in> set mid. rr_task q = ?k \<longrightarrow> rr_repo q \<notin> set names" using fresh by blast
  qed
  have "\<not> (\<exists>r \<in> set ?removed. (?k, r) \<in> set (db_app_runs db))"
    using free removed by (auto simp: restricted_def)
  with upd ins have result: "replace_task_repos t db = Inr (db\<lparr>db_task_repos := mid @ List.map (row_of t) names\<rparr>)"
    unfolding replace_task_repos_def Let_def kept_def [symmetric] rest by simp
  have "distinct (List.map (\<lambda>r. (rr_task r, rr_repo r)) kept)"
    unfolding kept_def using dist by (rule distinct_map_filter)
  moreover have "distinct (List.map (\<lambda>r. (rr_task r, rr_repo r)) (List.map (row_of t) names))"
    using distinct_repo_names [OF wt] by (simp add: o_def names_def distinct_map inj_on_def)
  moreover have "(\<lambda>r. (rr_task r, rr_repo r)) ` set mid \<inter> (\<lambda>r. (rr_task r, rr_repo r)) ` set (List.map (row_of t) names) = {}"
    using fresh by auto
  ultimately have distinct: "distinct (List.map (\<lambda>r. (rr_task r, rr_repo r)) (mid @ List.map (row_of t) names))"
    using keys_mid by (simp only: map_append distinct_append set_map [symmetric])
  have present: "row_of t r \<in> set mid" if r: "r \<in> set ?shared" for r
  proof -
    from r obtain q where q: "q \<in> set ?old" "rr_task q = ?k" "rr_repo q = r" by auto
    moreover have "r \<notin> set ?removed" using r by auto
    ultimately have "q \<in> set kept" by (simp add: kept_def)
    then have "settle t (set ?shared) (cleared t q) \<in> set mid" by (simp add: mid_def clear_reordered_map)
    then show ?thesis using q r by (simp add: settle_def)
  qed
  have mid_N: "q \<in> row_of t ` ?N" if "q \<in> set mid" "rr_task q = ?k" for q
  proof (rule rev_image_eqI)
    show "rr_repo q \<in> ?N" using own_mid [OF that] shared by blast
    show "q = row_of t (rr_repo q)" using own_mid [OF that] by blast
  qed
  have "set (filter (\<lambda>q. rr_task q = ?k) (mid @ List.map (row_of t) names)) = row_of t ` ?N"
  proof
    show "set (filter (\<lambda>q. rr_task q = ?k) (mid @ List.map (row_of t) names)) \<subseteq> row_of t ` ?N"
      using mid_N by (auto simp: names_def)
    show "row_of t ` ?N \<subseteq> set (filter (\<lambda>q. rr_task q = ?k) (mid @ List.map (row_of t) names))"
    proof
      fix q assume "q \<in> row_of t ` ?N"
      then obtain r where r: "q = row_of t r" "r \<in> ?N" by blast
      show "q \<in> set (filter (\<lambda>q. rr_task q = ?k) (mid @ List.map (row_of t) names))"
      proof (cases "r \<in> set names")
        case True
        with r(1) show ?thesis by simp
      next
        case False
        then have "r \<in> set ?shared" using r(2) unfolding names_def by (simp only: set_filter mem_Collect_eq) blast
        from present [OF this] r(1) show ?thesis by simp
      qed
    qed
  qed
  then have sets: "set (filter (\<lambda>q. rr_task q = ?k) (mid @ List.map (row_of t) names)) = set (task_repo_values t)"
    by (simp add: task_repo_values_rows)
  have others: "filter (\<lambda>q. rr_task q = s) (mid @ List.map (row_of t) names) = filter (\<lambda>q. rr_task q = s) ?old"
    if s: "s \<noteq> ?k" for s
  proof -
    have "filter (\<lambda>q. rr_task q = s) mid = filter (\<lambda>q. rr_task q = s) kept"
      unfolding mid_def clear_reordered_map map_map
      by (rule filter_map_keep [OF _ _ s]) (simp_all add: settle_def cleared_def)
    also have "\<dots> = filter (\<lambda>q. rr_task q = s) ?old"
      unfolding kept_def filter_filter using s by (intro filter_cong) auto
    finally show ?thesis using s by simp
  qed
  from result distinct sets others show ?thesis by blast
qed

section \<open>Replacement\<close>

lemma delete_children_own:
  "own (delete_children k db) s = (if s = k
    then \<lparr>ow_repos = ow_repos (own db k), ow_results = [], ow_prs = [], ow_sources = [], ow_anchors = [], ow_deps = []\<rparr>
    else own db s)"
  by (cases "s = k") (auto simp: own_def delete_children_def intro!: filter_cong)

lemma find_update_other:
  "\<forall>r. P r \<longrightarrow> w_slug r = k \<Longrightarrow> w_slug v = k \<Longrightarrow> s \<noteq> k \<Longrightarrow>
   List.find (\<lambda>r. w_slug r = s) (List.map (\<lambda>r. if P r then v else r) xs) = List.find (\<lambda>r. w_slug r = s) xs"
  by (induction xs) auto

lemma find_update_same:
  "\<forall>r. P r \<longrightarrow> w_slug r = k \<Longrightarrow> w_slug v = k \<Longrightarrow> distinct (List.map w_slug xs) \<Longrightarrow>
   List.find P xs = Some old \<Longrightarrow>
   List.find (\<lambda>r. w_slug r = k) (List.map (\<lambda>r. if P r then v else r) xs) = Some v
   \<and> List.find (\<lambda>r. w_slug r = k) xs = Some old"
proof (induction xs)
  case (Cons x xs)
  show ?case
  proof (cases "P x")
    case True
    with Cons.prems show ?thesis by simp
  next
    case False
    with Cons.prems(4) have "old \<in> set xs" "P old" by (auto simp: find_Some_iff)
    with Cons.prems(1) have "k \<in> w_slug ` set xs" by (metis imageI)
    with Cons.prems(3) have "w_slug x \<noteq> k" by auto
    with False Cons show ?thesis by simp
  qed
qed simp

definition with_row :: "task \<Rightarrow> int option \<Rightarrow> int \<Rightarrow> task_db \<Rightarrow> task_db" where
  "with_row t expected revision db = db\<lparr>db_tasks := List.map (\<lambda>r. if revision_matches (tk_slug t) expected r
     then scalar_values revision t else r) (db_tasks db)\<rparr>"

lemma with_row_slugs: "db_slugs (with_row t expected n db) = db_slugs db"
  by (auto simp: with_row_def db_slugs_def revision_matches_def scalar_values_def)

lemma task_replace_Inr:
  assumes "wf_db db" and "valid_task t" and "task_replace t expected db = Inr (n, db')"
  obtains old rows where "row_for db (tk_slug t) = Some old" and "n = w_revision old + 1"
    and "\<forall>u \<in> upstream_slug ` set (tk_depends_on t). u \<in> set (db_slugs db)"
    and "db' = (delete_children (tk_slug t) (with_row t expected n db))\<lparr>db_task_repos := rows,
      db_test_results := db_test_results (delete_children (tk_slug t) db) @ result_rows t,
      db_pr_urls := db_pr_urls (delete_children (tk_slug t) db) @ pr_rows t,
      db_switch_sources := db_switch_sources (delete_children (tk_slug t) db) @ source_rows t,
      db_switch_anchors := db_switch_anchors (delete_children (tk_slug t) db) @ anchor_rows t,
      db_dependencies := db_dependencies (delete_children (tk_slug t) db) @ dep_rows t\<rparr>"
    and "distinct (List.map (\<lambda>r. (rr_task r, rr_repo r)) rows)"
    and "set (filter (\<lambda>q. rr_task q = tk_slug t) rows) = set (task_repo_values t)"
    and "\<forall>s. s \<noteq> tk_slug t \<longrightarrow>
        filter (\<lambda>q. rr_task q = s) rows = filter (\<lambda>q. rr_task q = s) (db_task_repos db)"
    and "\<not> restricted t db" and "expected = None \<or> expected = Some (w_revision old)"
    and "row_for db' (tk_slug t) = Some (scalar_values n t)"
proof -
  let ?k = "tk_slug t"
  from assms(3) obtain old where old: "List.find (revision_matches ?k expected) (db_tasks db) = Some old"
    by (auto simp: task_replace_def split: option.splits)
  with assms(3) obtain db2 where
    repos: "replace_task_repos t (delete_children ?k (with_row t expected (w_revision old + 1) db)) = Inr db2"
    and kids: "insert_children t db2 = Inr db'" and n: "n = w_revision old + 1"
    by (auto simp: task_replace_def with_row_def Let_def result_simps)
  have m: "revision_matches ?k expected old" using old by (auto simp: find_Some_iff)
  have "distinct (List.map w_slug (db_tasks db))" using assms(1) by (simp add: wf_db_def db_slugs_def)
  note found = find_update_same [OF _ _ this old, of ?k "scalar_values n t"]
  from found have row: "row_for db ?k = Some old"
    by (simp add: row_for_def revision_matches_def scalar_values_def)
  let ?d = "delete_children ?k (with_row t expected n db)"
  have same: "db_task_repos ?d = db_task_repos db" "db_app_runs ?d = db_app_runs db" "db_slugs ?d = db_slugs db"
    using with_row_slugs [of t expected n db] by (simp_all add: delete_children_def with_row_def db_slugs_def)
  have slug: "?k \<in> set (db_slugs ?d)" unfolding same using row row_for_None [of db ?k] by fastforce
  have dist: "distinct (List.map (\<lambda>r. (rr_task r, rr_repo r)) (db_task_repos ?d))"
    using assms(1) by (simp add: same wf_db_def)
  have free: "\<not> restricted t ?d"
  proof
    assume "restricted t ?d"
    then have "\<exists>e. replace_task_repos t ?d = Inl e"
      by (auto simp: restricted_def replace_task_repos_def Let_def desired_row_eq)
    with repos n show False by auto
  qed
  have wt: "dict_ok (tk_worktrees t)" using assms(2) by (simp add: valid_task_def)
  from replace_task_repos_ok [OF slug wt dist free] repos n obtain rows where
    rows: "db2 = ?d\<lparr>db_task_repos := rows\<rparr>" "distinct (List.map (\<lambda>r. (rr_task r, rr_repo r)) rows)"
      "set (filter (\<lambda>q. rr_task q = ?k) rows) = set (task_repo_values t)"
      "\<forall>s. s \<noteq> ?k \<longrightarrow> filter (\<lambda>q. rr_task q = s) rows = filter (\<lambda>q. rr_task q = s) (db_task_repos ?d)"
    by auto
  note K = insert_children_Inr [OF kids]
  have slugs2: "db_slugs db2 = db_slugs db" using rows(1) same(3) by (simp add: db_slugs_def)
  have tasks: "db_tasks db' = List.map (\<lambda>r. if revision_matches ?k expected r
      then scalar_values n t else r) (db_tasks db)"
    using K rows(1) by (simp add: delete_children_def with_row_def)
  show thesis
  proof (rule that [OF row n])
    show "row_for db' ?k = Some (scalar_values n t)"
      unfolding row_for_def tasks using found by (simp add: revision_matches_def scalar_values_def)
    show "\<forall>u \<in> upstream_slug ` set (tk_depends_on t). u \<in> set (db_slugs db)" using K slugs2 by simp
    show "\<not> restricted t db" using free by (simp add: restricted_def same)
    show "expected = None \<or> expected = Some (w_revision old)"
      using m by (auto simp: revision_matches_def split: option.splits)
  qed (use K rows same in \<open>simp_all add: delete_children_def with_row_def\<close>)
qed

lemma replace_own:
  assumes "db' = (delete_children k (with_row t expected n db))\<lparr>db_task_repos := rows,
      db_test_results := db_test_results (delete_children k db) @ result_rows t,
      db_pr_urls := db_pr_urls (delete_children k db) @ pr_rows t,
      db_switch_sources := db_switch_sources (delete_children k db) @ source_rows t,
      db_switch_anchors := db_switch_anchors (delete_children k db) @ anchor_rows t,
      db_dependencies := db_dependencies (delete_children k db) @ dep_rows t\<rparr>"
    and "k = tk_slug t"
    and "\<forall>s. s \<noteq> k \<longrightarrow> filter (\<lambda>q. rr_task q = s) rows = filter (\<lambda>q. rr_task q = s) (db_task_repos db)"
  shows "own db' s = (if s = k
    then \<lparr>ow_repos = filter (\<lambda>q. rr_task q = k) rows, ow_results = result_rows t, ow_prs = pr_rows t,
      ow_sources = source_rows t, ow_anchors = anchor_rows t, ow_deps = dep_rows t\<rparr>
    else own db s)"
proof -
  note dc = own_eqD [OF delete_children_own [of k db s]]
  have db': "own db' s = \<lparr> ow_repos = filter (\<lambda>r. rr_task r = s) rows,
      ow_results = filter (\<lambda>r. rt_task r = s) (db_test_results (delete_children k db) @ result_rows t),
      ow_prs = filter (\<lambda>r. pw_task r = s) (db_pr_urls (delete_children k db) @ pr_rows t),
      ow_sources = filter (\<lambda>r. so_task r = s) (db_switch_sources (delete_children k db) @ source_rows t),
      ow_anchors = filter (\<lambda>r. an_task r = s) (db_switch_anchors (delete_children k db) @ anchor_rows t),
      ow_deps = filter (\<lambda>r. dp_task r = s) (db_dependencies (delete_children k db) @ dep_rows t)\<rparr>"
    unfolding assms(1) own_def by simp
  show ?thesis
    unfolding db' filter_own_append [OF rows_of_task(2)] filter_own_append [OF rows_of_task(3)]
      filter_own_append [OF rows_of_task(4)] filter_own_append [OF rows_of_task(5)]
      filter_own_append [OF rows_of_task(6)] dc
    using assms(2,3) by (cases "s = k") (simp_all add: own_def)
qed

lemma replace_get:
  assumes "wf_db db" and "valid_task t" and "task_replace t expected db = Inr (n, db')"
  shows "task_get db' s = (if s = tk_slug t then Some (norm_task t) else task_get db s)"
    and "task_get db (tk_slug t) \<noteq> None"
proof -
  from task_replace_Inr [OF assms] obtain old rows where old: "row_for db (tk_slug t) = Some old"
    and "n = w_revision old + 1"
    and "\<forall>u \<in> upstream_slug ` set (tk_depends_on t). u \<in> set (db_slugs db)"
    and db': "db' = (delete_children (tk_slug t) (with_row t expected n db))\<lparr>db_task_repos := rows,
      db_test_results := db_test_results (delete_children (tk_slug t) db) @ result_rows t,
      db_pr_urls := db_pr_urls (delete_children (tk_slug t) db) @ pr_rows t,
      db_switch_sources := db_switch_sources (delete_children (tk_slug t) db) @ source_rows t,
      db_switch_anchors := db_switch_anchors (delete_children (tk_slug t) db) @ anchor_rows t,
      db_dependencies := db_dependencies (delete_children (tk_slug t) db) @ dep_rows t\<rparr>"
    and keys: "distinct (List.map (\<lambda>r. (rr_task r, rr_repo r)) rows)"
    and sets: "set (filter (\<lambda>q. rr_task q = tk_slug t) rows) = set (task_repo_values t)"
    and others: "\<forall>s. s \<noteq> tk_slug t \<longrightarrow>
        filter (\<lambda>q. rr_task q = s) rows = filter (\<lambda>q. rr_task q = s) (db_task_repos db)"
    and "\<not> restricted t db" and "expected = None \<or> expected = Some (w_revision old)"
    and row: "row_for db' (tk_slug t) = Some (scalar_values n t)" .
  note own = replace_own [OF db' refl others]
  have tasks: "db_tasks db' = List.map (\<lambda>r. if revision_matches (tk_slug t) expected r
      then scalar_values n t else r) (db_tasks db)"
    unfolding db' by (simp add: delete_children_def with_row_def)
  have m: "\<forall>r. revision_matches (tk_slug t) expected r \<longrightarrow> w_slug r = tk_slug t"
    by (simp add: revision_matches_def)
  have k: "w_slug (scalar_values n t) = tk_slug t" by (simp add: scalar_values_def)
  show "task_get db' s = (if s = tk_slug t then Some (norm_task t) else task_get db s)"
  proof (cases "s = tk_slug t")
    case False
    have "row_for db' s = row_for db s"
      unfolding row_for_def tasks by (rule find_update_other [OF m k False])
    from task_get_frame [OF this] own False show ?thesis by simp
  next
    case True
    have "distinct (List.map (\<lambda>r. (tk_slug t, rr_repo r)) (filter (\<lambda>q. rr_task q = tk_slug t) rows))"
      using distinct_map_filter [OF keys, of "\<lambda>q. rr_task q = tk_slug t"]
      by (rule back_subst [of distinct]) (rule map_cong, auto)
    then have "distinct (List.map rr_repo (filter (\<lambda>q. rr_task q = tk_slug t) rows))"
      by (simp add: distinct_map inj_on_def)
    with own [of "tk_slug t"] sets have "holds db' t" by (simp add: holds_def del: own_simps)
    with row show ?thesis using True task_get_holds [OF assms(2)] by simp
  qed
  show "task_get db (tk_slug t) \<noteq> None" using old by (simp add: task_get_row)
qed

lemma replace_wf:
  assumes "wf_db db" and "valid_task t" and "task_replace t expected db = Inr (n, db')"
  shows "wf_db db'"
proof -
  from task_replace_Inr [OF assms] obtain old rows where old: "row_for db (tk_slug t) = Some old"
    and "n = w_revision old + 1"
    and ups: "\<forall>u \<in> upstream_slug ` set (tk_depends_on t). u \<in> set (db_slugs db)"
    and db': "db' = (delete_children (tk_slug t) (with_row t expected n db))\<lparr>db_task_repos := rows,
      db_test_results := db_test_results (delete_children (tk_slug t) db) @ result_rows t,
      db_pr_urls := db_pr_urls (delete_children (tk_slug t) db) @ pr_rows t,
      db_switch_sources := db_switch_sources (delete_children (tk_slug t) db) @ source_rows t,
      db_switch_anchors := db_switch_anchors (delete_children (tk_slug t) db) @ anchor_rows t,
      db_dependencies := db_dependencies (delete_children (tk_slug t) db) @ dep_rows t\<rparr>"
    and keys: "distinct (List.map (\<lambda>r. (rr_task r, rr_repo r)) rows)"
    and "set (filter (\<lambda>q. rr_task q = tk_slug t) rows) = set (task_repo_values t)"
    and others: "\<forall>s. s \<noteq> tk_slug t \<longrightarrow>
        filter (\<lambda>q. rr_task q = s) rows = filter (\<lambda>q. rr_task q = s) (db_task_repos db)"
    and "\<not> restricted t db" and "expected = None \<or> expected = Some (w_revision old)"
    and row: "row_for db' (tk_slug t) = Some (scalar_values n t)" .
  have slugs: "db_slugs db' = db_slugs db"
    using with_row_slugs [of t expected n db] unfolding db' by (simp add: db_slugs_def delete_children_def)
  have refs: "refs_ok db" and dist: "distinct (db_slugs db)" using assms(1) by (simp_all add: wf_db_def)
  have k: "tk_slug t \<in> set (db_slugs db)" using old row_for_None [of db "tk_slug t"] by fastforce
  have up: "\<forall>r \<in> set (dep_rows t). dp_upstream r \<in> set (db_slugs db)" using ups by (auto simp: dep_rows_def)
  have rr: "rr_task q \<in> set (db_slugs db)" if "q \<in> set rows" for q
  proof (cases "rr_task q = tk_slug t")
    case False
    with others have "filter (\<lambda>p. rr_task p = rr_task q) rows = filter (\<lambda>p. rr_task p = rr_task q) (db_task_repos db)"
      by blast
    moreover have "q \<in> set (filter (\<lambda>p. rr_task p = rr_task q) rows)" using that by simp
    ultimately have "q \<in> set (db_task_repos db)" by (simp only: set_filter mem_Collect_eq)
    with refs show ?thesis by (simp add: refs_ok_def)
  qed (use k in simp)
  have "refs_ok db'"
    using refs rows_of_task [of t] up k rr unfolding refs_ok_def slugs
    unfolding db' by (auto simp: delete_children_def with_row_def)
  with keys dist show ?thesis unfolding wf_db_def slugs by (simp add: db')
qed

text \<open>A replacement that respects the references goes through, whatever order the affected
  repositories take.\<close>

lemma replace_total:
  assumes wf: "wf_db db" and valid: "valid_task t" and row: "row_for db (tk_slug t) = Some old"
    and ups: "\<forall>u \<in> upstream_slug ` set (tk_depends_on t). u \<in> set (db_slugs db)"
    and free: "\<not> restricted t db" and rev: "expected = None \<or> expected = Some (w_revision old)"
  shows "\<exists>db'. task_replace t expected db = Inr (w_revision old + 1, db')"
proof -
  let ?k = "tk_slug t" and ?n = "w_revision old + 1"
  have "List.find (revision_matches ?k expected) (db_tasks db) = Some old"
  proof -
    have "List.find (revision_matches ?k expected) xs = Some old"
      if "List.find (\<lambda>r. w_slug r = ?k) xs = Some old" "distinct (List.map w_slug xs)" for xs
      using that rev by (induction xs) (auto simp: revision_matches_def split: if_splits option.splits)
    then show ?thesis using row wf by (simp add: row_for_def wf_db_def db_slugs_def)
  qed
  moreover have "check_scalars t = Inr ()" using valid by (simp add: check_scalars_def valid_task_def)
  moreover
  let ?d = "delete_children ?k (with_row t expected ?n db)"
  have same: "db_task_repos ?d = db_task_repos db" "db_app_runs ?d = db_app_runs db" "db_slugs ?d = db_slugs db"
    using with_row_slugs [of t expected ?n db] by (simp_all add: delete_children_def with_row_def db_slugs_def)
  have slug: "?k \<in> set (db_slugs ?d)" unfolding same using row row_for_None [of db ?k] by fastforce
  have dist: "distinct (List.map (\<lambda>r. (rr_task r, rr_repo r)) (db_task_repos ?d))"
    using wf by (simp add: same wf_db_def)
  have free': "\<not> restricted t ?d" using free by (simp add: restricted_def same)
  have wt: "dict_ok (tk_worktrees t)" using valid by (simp add: valid_task_def)
  obtain rows where rows: "replace_task_repos t ?d = Inr (?d\<lparr>db_task_repos := rows\<rparr>)"
    using replace_task_repos_ok [OF slug wt dist free'] by blast
  have own: "own (?d\<lparr>db_task_repos := rows\<rparr>) ?k =
      \<lparr>ow_repos = filter (\<lambda>q. rr_task q = ?k) rows, ow_results = [], ow_prs = [], ow_sources = [], ow_anchors = [], ow_deps = []\<rparr>"
    by (simp add: own_def delete_children_def)
  have slugs: "db_slugs (?d\<lparr>db_task_repos := rows\<rparr>) = db_slugs db" using same(3) by (simp add: db_slugs_def)
  obtain db' where "insert_children t (?d\<lparr>db_task_repos := rows\<rparr>) = Inr db'"
    using insert_children_ok [OF valid _ _ own] slug ups slugs same(3) by auto
  with rows have "rbind (replace_task_repos t ?d) (\<lambda>db2. rbind (insert_children t db2) (\<lambda>db3. Inr (?n, db3))) = Inr (?n, db')"
    by simp
  ultimately show ?thesis
    unfolding task_replace_def by (simp add: Let_def with_row_def)
qed

section \<open>Normal forms are stable\<close>

lemma by_key_idem [simp]: "by_key (by_key d) = by_key d"
  unfolding by_key_def by (rule sort_key_id_if_sorted) simp

lemma by_key_map_snd: "by_key (List.map (\<lambda>kv. (fst kv, f kv)) (by_key d)) = List.map (\<lambda>kv. (fst kv, f kv)) (by_key d)"
  unfolding by_key_def by (rule sort_key_id_if_sorted) (simp add: o_def)

lemma norm_dt_idem [simp]: "norm_dt (norm_dt t) = norm_dt t"
  by (simp add: norm_dt_def)

lemma norm_dt_option [simp]: "map_option norm_dt (map_option norm_dt t) = map_option norm_dt t"
  by (cases t) simp_all

lemma norm_deps_sorted:
  "sort_key (\<lambda>e. (instant (de_created_at e), upstream_slug e))
     (List.map (\<lambda>e. e\<lparr>de_created_at := norm_dt (de_created_at e)\<rparr>)
       (sort_key (\<lambda>e. (instant (de_created_at e), upstream_slug e)) es)) =
   List.map (\<lambda>e. e\<lparr>de_created_at := norm_dt (de_created_at e)\<rparr>)
     (sort_key (\<lambda>e. (instant (de_created_at e), upstream_slug e)) es)"
proof (rule sort_key_id_if_sorted)
  have "sorted (List.map (\<lambda>e. (instant (de_created_at e), upstream_slug e))
      (sort_key (\<lambda>e. (instant (de_created_at e), upstream_slug e)) es))" by simp
  then show "sorted (List.map (\<lambda>e. (instant (de_created_at e), upstream_slug e))
      (List.map (\<lambda>e. e\<lparr>de_created_at := norm_dt (de_created_at e)\<rparr>)
        (sort_key (\<lambda>e. (instant (de_created_at e), upstream_slug e)) es)))"
    by (simp add: o_def norm_dt_def)
qed

lemma norm_task_idem: "norm_task (norm_task t) = norm_task t"
proof (rule task.equality)
  show "tk_depends_on (norm_task (norm_task t)) = tk_depends_on (norm_task t)"
    by (simp add: norm_task_def norm_deps_sorted)
qed (simp_all add: norm_task_def by_key_map_snd o_def)

lemma valid_norm_task: "valid_task t \<Longrightarrow> valid_task (norm_task t)"
proof -
  assume v: "valid_task t"
  have "set (List.map upstream_slug (tk_depends_on (norm_task t))) = set (List.map upstream_slug (tk_depends_on t))"
    by (simp add: norm_task_def image_image)
  moreover have "distinct (List.map upstream_slug (tk_depends_on (norm_task t)))"
    using v by (simp add: norm_task_def o_def distinct_map_sort_key valid_task_def)
  moreover have "dict_ok (by_key (tk_test_results t))" "dict_ok (by_key (tk_last_switched_at_sha t))"
    "list_all (\<lambda>kd. dict_ok (snd kd)) (by_key (tk_last_switched_at_sha t))"
    using v by (simp_all add: valid_task_def list_all_iff)
  ultimately show ?thesis using v
    by (simp add: valid_task_def norm_task_def dict_ok_def o_def list_all_iff)
qed

lemma norm_detach: "norm_task (detach s t) = detach s (norm_task t)"
proof (rule task.equality)
  show "tk_depends_on (norm_task (detach s t)) = tk_depends_on (detach s (norm_task t))"
    by (simp add: norm_task_def detach_def filter_map o_def sort_key_filter [symmetric])
qed (simp_all add: norm_task_def detach_def)

lemma valid_detach: "valid_task t \<Longrightarrow> valid_task (detach s t)"
  by (auto simp: valid_task_def detach_def distinct_map_filter)

lemma get_slug: "task_get db s = Some t \<Longrightarrow> tk_slug t = s"
  using row_for_slug [of db s] by (auto simp: task_get_row decode_task_def Let_def)

end
