(* ===== verification/Item_Store.thy ===== *)
theory Item_Store
  imports Task_Writes Text_Values
begin

text \<open>
  Work items: the model of core/workitem.py, the tables of core/persistence/schema.py that hold
  an item, and the operations of core/persistence/workitem_repository.py on them. The five child
  tables have one shape (item, ordinal, value) and differ in what they require to be unique.
  The \<open>extras_json\<close> column is represented by the JSON object its text denotes, whose keys
  \<open>encode_json\<close> sorts at every level.
\<close>

section \<open>Data\<close>

datatype item_kind = Feature | Bug | Chore | Question

datatype item_phase = Inbox | Shaping | Ready | In_flight | In_review | Done

datatype provider = Github | Linear | Notion | Jira | Plain_url

record external_link =
  el_provider :: provider
  el_url :: str
  el_title :: str

record work_item =
  it_id :: str
  it_title :: str
  it_workspace :: str
  it_kind :: item_kind
  it_created_at :: dt
  it_updated_at :: dt
  it_spec_id :: "str option"
  it_plan_path :: "str option"
  it_task_slugs :: "str list"
  it_thread_ids :: "str list"
  it_external_links :: "external_link list"
  it_phase_override :: "item_phase option"
  it_unattended :: bool
  it_archived :: bool
  it_affected_repos :: "str list"
  it_pr_urls :: "str list"
  it_extras :: "json dict"

text \<open>\<open>PHASE_ORDER\<close>.\<close>

definition phase_order :: "item_phase list" where
  "phase_order = [Inbox, Shaping, Ready, In_flight, In_review, Done]"

section \<open>Tables\<close>

record item_row =
  iw_id :: str
  iw_title :: str
  iw_workspace :: str
  iw_kind :: item_kind
  iw_created_at :: int
  iw_updated_at :: int
  iw_spec_id :: "str option"
  iw_plan_path :: "str option"
  iw_phase_override :: "item_phase option"
  iw_unattended :: bool
  iw_archived :: bool
  iw_revision :: int
  iw_extras :: "json dict"

record 'v child_row =
  ch_item :: str
  ch_ordinal :: nat
  ch_value :: 'v

record item_db =
  db_items :: "item_row list"
  db_item_tasks :: "str child_row list"
  db_item_threads :: "str child_row list"
  db_item_links :: "external_link child_row list"
  db_item_repos :: "str child_row list"
  db_item_prs :: "str child_row list"

text \<open>The primary keys and unique constraints, as the rows a new row clashes with.\<close>

definition same_slot :: "'v child_row \<Rightarrow> 'v child_row \<Rightarrow> bool" where
  "same_slot r q \<longleftrightarrow> ch_item q = ch_item r \<and> ch_ordinal q = ch_ordinal r"

definition listed_clash :: "'v child_row \<Rightarrow> 'v child_row \<Rightarrow> bool" where
  "listed_clash r q \<longleftrightarrow> same_slot r q \<or> (ch_item q = ch_item r \<and> ch_value q = ch_value r)"

definition owned_clash :: "'v child_row \<Rightarrow> 'v child_row \<Rightarrow> bool" where
  "owned_clash r q \<longleftrightarrow> same_slot r q \<or> ch_value q = ch_value r"

section \<open>Encoding\<close>

primrec sort_json :: "json \<Rightarrow> json" where
  "sort_json JNull = JNull"
| "sort_json (JBool b) = JBool b"
| "sort_json (JNum i) = JNum i"
| "sort_json (JStr s) = JStr s"
| "sort_json (JList xs) = JList (List.map sort_json xs)"
| "sort_json (JObj d) = JObj (by_key (List.map (map_prod id sort_json) d))"

definition encode_extras :: "json dict \<Rightarrow> json dict" where
  "encode_extras d = by_key (List.map (map_prod id sort_json) d)"

definition item_values :: "int \<Rightarrow> work_item \<Rightarrow> item_row" where
  "item_values revision e = \<lparr>iw_id = it_id e, iw_title = it_title e, iw_workspace = it_workspace e,
     iw_kind = it_kind e, iw_created_at = encode_datetime (it_created_at e),
     iw_updated_at = encode_datetime (it_updated_at e), iw_spec_id = it_spec_id e,
     iw_plan_path = it_plan_path e, iw_phase_override = it_phase_override e,
     iw_unattended = it_unattended e, iw_archived = it_archived e, iw_revision = revision,
     iw_extras = encode_extras (it_extras e)\<rparr>"

definition child_rows :: "str \<Rightarrow> 'v list \<Rightarrow> 'v child_row list" where
  "child_rows i vs = List.map (\<lambda>nv. \<lparr>ch_item = i, ch_ordinal = fst nv, ch_value = snd nv\<rparr>) (enumerate 0 vs)"

section \<open>Writing\<close>

definition item_ids :: "item_db \<Rightarrow> str list" where
  "item_ids db = List.map iw_id (db_items db)"

definition insert_child ::
    "str \<Rightarrow> ('v child_row \<Rightarrow> 'v child_row \<Rightarrow> bool) \<Rightarrow> str list \<Rightarrow> 'v child_row \<Rightarrow> 'v child_row list
      \<Rightarrow> exn + 'v child_row list" where
  "insert_child table clash ids r t =
     (if ch_item r \<in> set ids \<and> \<not> list_ex (clash r) t then Inr (t @ [r]) else Inl (IntegrityError table))"

definition insert_item_children :: "work_item \<Rightarrow> item_db \<Rightarrow> exn + item_db" where
  "insert_item_children e db =
     (let ids = item_ids db in
      rbind (rfold (insert_child ''workitem_tasks'' owned_clash ids)
               (child_rows (it_id e) (it_task_slugs e)) (db_item_tasks db)) (\<lambda>ts.
      rbind (rfold (insert_child ''workitem_threads'' owned_clash ids)
               (child_rows (it_id e) (it_thread_ids e)) (db_item_threads db)) (\<lambda>threads.
      rbind (rfold (insert_child ''workitem_external_links'' same_slot ids)
               (child_rows (it_id e) (it_external_links e)) (db_item_links db)) (\<lambda>links.
      rbind (rfold (insert_child ''workitem_affected_repos'' listed_clash ids)
               (child_rows (it_id e) (it_affected_repos e)) (db_item_repos db)) (\<lambda>repos.
      rbind (rfold (insert_child ''workitem_pr_urls'' listed_clash ids)
               (child_rows (it_id e) (it_pr_urls e)) (db_item_prs db)) (\<lambda>prs.
        Inr (db\<lparr>db_item_tasks := ts, db_item_threads := threads, db_item_links := links,
               db_item_repos := repos, db_item_prs := prs\<rparr>)))))))"

definition item_insert :: "work_item \<Rightarrow> item_db \<Rightarrow> exn + item_db" where
  "item_insert e db =
     rbind (insert_row ''work_items'' iw_id (\<lambda>_. True) (item_values 0 e) (db_items db)) (\<lambda>rows.
       insert_item_children e (db\<lparr>db_items := rows\<rparr>))"

definition delete_item_children :: "str \<Rightarrow> item_db \<Rightarrow> item_db" where
  "delete_item_children i db = db\<lparr>
     db_item_tasks := filter (\<lambda>r. ch_item r \<noteq> i) (db_item_tasks db),
     db_item_threads := filter (\<lambda>r. ch_item r \<noteq> i) (db_item_threads db),
     db_item_links := filter (\<lambda>r. ch_item r \<noteq> i) (db_item_links db),
     db_item_repos := filter (\<lambda>r. ch_item r \<noteq> i) (db_item_repos db),
     db_item_prs := filter (\<lambda>r. ch_item r \<noteq> i) (db_item_prs db)\<rparr>"

definition item_matches :: "str \<Rightarrow> int option \<Rightarrow> item_row \<Rightarrow> bool" where
  "item_matches i expected r \<longleftrightarrow> iw_id r = i
     \<and> (case expected of None \<Rightarrow> True | Some n \<Rightarrow> iw_revision r = n)"

definition item_replace :: "work_item \<Rightarrow> int option \<Rightarrow> item_db \<Rightarrow> exn + int \<times> item_db" where
  "item_replace e expected db =
     (case List.find (item_matches (it_id e) expected) (db_items db) of
        None \<Rightarrow> Inl (case expected of Some n \<Rightarrow> ConcurrentUpdate ''work_items'' (it_id e) n
                   | None \<Rightarrow> KeyError (it_id e))
      | Some old \<Rightarrow>
         let revision = iw_revision old + 1;
             db1 = db\<lparr>db_items := List.map (\<lambda>r. if item_matches (it_id e) expected r
               then item_values revision e else r) (db_items db)\<rparr>
         in rbind (insert_item_children e (delete_item_children (it_id e) db1)) (\<lambda>db2. Inr (revision, db2)))"

definition item_delete :: "str \<Rightarrow> item_db \<Rightarrow> exn + bool \<times> item_db" where
  "item_delete i db = Inr (i \<in> set (item_ids db),
     (delete_item_children i db)\<lparr>db_items := filter (\<lambda>r. iw_id r \<noteq> i) (db_items db)\<rparr>)"

section \<open>Reading\<close>

definition children :: "'v child_row list \<Rightarrow> str \<Rightarrow> 'v list" where
  "children t i = List.map ch_value (sort_key ch_ordinal (filter (\<lambda>r. ch_item r = i) t))"

definition decode_item :: "item_db \<Rightarrow> item_row \<Rightarrow> work_item" where
  "decode_item db row =
     (let i = iw_id row in \<lparr>it_id = i, it_title = iw_title row, it_workspace = iw_workspace row,
        it_kind = iw_kind row, it_created_at = decode_datetime (iw_created_at row),
        it_updated_at = decode_datetime (iw_updated_at row), it_spec_id = iw_spec_id row,
        it_plan_path = iw_plan_path row, it_task_slugs = children (db_item_tasks db) i,
        it_thread_ids = children (db_item_threads db) i,
        it_external_links = children (db_item_links db) i,
        it_phase_override = iw_phase_override row, it_unattended = iw_unattended row,
        it_archived = iw_archived row, it_affected_repos = children (db_item_repos db) i,
        it_pr_urls = children (db_item_prs db) i, it_extras = iw_extras row\<rparr>)"

definition item_get :: "item_db \<Rightarrow> str \<Rightarrow> work_item option" where
  "item_get db i = map_option (decode_item db) (List.find (\<lambda>r. iw_id r = i) (db_items db))"

definition item_list :: "bool \<Rightarrow> item_db \<Rightarrow> work_item list" where
  "item_list include_archived db = List.map (decode_item db)
     (sort_key (\<lambda>r. (- iw_updated_at r, iw_id r))
       (filter (\<lambda>r. include_archived \<or> \<not> iw_archived r) (db_items db)))"

section \<open>Normal form\<close>

definition norm_item :: "work_item \<Rightarrow> work_item" where
  "norm_item e = e\<lparr>it_created_at := norm_dt (it_created_at e), it_updated_at := norm_dt (it_updated_at e),
     it_extras := encode_extras (it_extras e)\<rparr>"

lemma sort_json_idem: "sort_json (sort_json j) = sort_json j"
proof (induction j)
  case (JObj d)
  have "List.map (map_prod id sort_json) (by_key (List.map (map_prod id sort_json) d))
      = by_key (List.map (map_prod id sort_json) (List.map (map_prod id sort_json) d))"
    by (simp add: by_key_def sort_key_map o_def)
  also have "List.map (map_prod id sort_json) (List.map (map_prod id sort_json) d) = List.map (map_prod id sort_json) d"
    unfolding list.map_comp
  proof (rule map_cong [OF refl])
    fix x assume "x \<in> set d"
    with JObj [of x "snd x"] show "(map_prod id sort_json \<circ> map_prod id sort_json) x = map_prod id sort_json x"
      by (cases x) simp
  qed
  finally show ?case by (simp only: sort_json.simps by_key_idem)
qed (simp_all cong: map_cong)

lemma encode_extras_idem [simp]: "encode_extras (encode_extras d) = encode_extras d"
  using sort_json_idem [of "JObj d"] by (simp add: encode_extras_def)

lemma norm_item_idem [simp]: "norm_item (norm_item e) = norm_item e"
  by (simp add: norm_item_def)

lemma norm_item_simps [simp]:
  "it_id (norm_item e) = it_id e" "it_task_slugs (norm_item e) = it_task_slugs e"
  "it_thread_ids (norm_item e) = it_thread_ids e" "it_spec_id (norm_item e) = it_spec_id e"
  "it_affected_repos (norm_item e) = it_affected_repos e" "it_pr_urls (norm_item e) = it_pr_urls e"
  "it_archived (norm_item e) = it_archived e"
  by (simp_all add: norm_item_def)

section \<open>Child rows\<close>

lemma insert_children_rows:
  "rfold (insert_child table clash ids) rows t = Inr t' \<longleftrightarrow>
     t' = t @ rows \<and> (\<forall>r \<in> set rows. ch_item r \<in> set ids) \<and> (\<forall>r \<in> set rows. \<forall>q \<in> set t. \<not> clash r q)
     \<and> sorted_wrt (\<lambda>q r. \<not> clash r q) rows"
proof (induction rows arbitrary: t)
  case (Cons r rows)
  show ?case
  proof (cases "ch_item r \<in> set ids \<and> \<not> list_ex (clash r) t")
    case True
    then have "rfold (insert_child table clash ids) (r # rows) t = rfold (insert_child table clash ids) rows (t @ [r])"
      by (simp add: insert_child_def)
    with Cons [of "t @ [r]"] True show ?thesis by (auto simp: list_ex_iff)
  next
    case False
    then show ?thesis by (auto simp: insert_child_def list_ex_iff)
  qed
qed auto

lemma child_rows_item: "r \<in> set (child_rows i vs) \<Longrightarrow> ch_item r = i"
  by (auto simp: child_rows_def)

lemma child_rows_value: "List.map ch_value (child_rows i vs) = vs"
  by (simp add: child_rows_def o_def)

lemma child_rows_ordinal: "List.map ch_ordinal (child_rows i vs) = [0..<length vs]"
  by (simp add: child_rows_def o_def)

lemma filter_child_rows: "filter (\<lambda>r. ch_item r = j) (child_rows i vs) = (if j = i then child_rows i vs else [])"
  using child_rows_item by (auto simp: filter_id_conv filter_empty_conv)

lemma children_rows: "children (child_rows i vs) i = vs"
proof -
  have "sort_key ch_ordinal (child_rows i vs) = child_rows i vs"
    by (rule sort_key_id_if_sorted) (simp add: child_rows_ordinal)
  then show ?thesis by (simp add: children_def filter_child_rows child_rows_value)
qed

lemma children_append:
  assumes "\<forall>r \<in> set t. ch_item r \<noteq> i"
  shows "children (t @ child_rows i vs) j = (if j = i then vs else children t j)"
proof (cases "j = i")
  case True
  have "filter (\<lambda>r. ch_item r = i) t = []" using assms by (simp add: filter_empty_conv)
  then have "children (t @ child_rows i vs) i = children (child_rows i vs) i" by (simp add: children_def)
  with True show ?thesis by (simp add: children_rows)
qed (simp add: children_def filter_child_rows)

lemma children_delete:
  "children (filter (\<lambda>r. ch_item r \<noteq> i) t) j = (if j = i then [] else children t j)"
proof -
  have "filter (\<lambda>r. ch_item r = j) (filter (\<lambda>r. ch_item r \<noteq> i) t) =
      (if j = i then [] else filter (\<lambda>r. ch_item r = j) t)"
    by (induction t) auto
  then show ?thesis by (simp add: children_def)
qed

lemma children_value: "v \<in> set (children t i) \<longleftrightarrow> (\<exists>r \<in> set t. ch_item r = i \<and> ch_value r = v)"
  by (auto simp: children_def)

lemma child_rows_nth:
  "a < length vs \<Longrightarrow> child_rows i vs ! a = \<lparr>ch_item = i, ch_ordinal = a, ch_value = vs ! a\<rparr>"
  by (simp add: child_rows_def nth_enumerate_eq)

lemma length_child_rows [simp]: "length (child_rows i vs) = length vs"
  by (simp add: child_rows_def)

lemma no_slot_clash: "sorted_wrt (\<lambda>q r. \<not> same_slot r q) (child_rows i vs)"
  by (auto simp: sorted_wrt_iff_nth_less child_rows_nth same_slot_def)

lemma no_value_clash:
  assumes "\<And>r q. clash r q \<longleftrightarrow> same_slot r q \<or> (C r q \<and> ch_value q = ch_value r)"
    and "\<And>r q. ch_item q = ch_item r \<Longrightarrow> C r q"
  shows "sorted_wrt (\<lambda>q r. \<not> clash r q) (child_rows i vs) \<longleftrightarrow> distinct vs"
proof -
  have "sorted_wrt (\<lambda>q r. \<not> clash r q) (child_rows i vs) \<longleftrightarrow>
      (\<forall>b < length vs. \<forall>a < b. vs ! a \<noteq> vs ! b)"
    using assms(2) by (auto simp: sorted_wrt_iff_nth_less child_rows_nth assms(1) same_slot_def)
  also have "\<dots> \<longleftrightarrow> distinct vs"
    by (auto simp: distinct_conv_nth) (metis nat_neq_iff)
  finally show ?thesis .
qed

lemma owned_no_clash: "sorted_wrt (\<lambda>q r. \<not> owned_clash r q) (child_rows i vs) \<longleftrightarrow> distinct vs"
  by (rule no_value_clash [where C = "\<lambda>_ _. True"]) (simp_all add: owned_clash_def)

lemma listed_no_clash: "sorted_wrt (\<lambda>q r. \<not> listed_clash r q) (child_rows i vs) \<longleftrightarrow> distinct vs"
  by (rule no_value_clash [where C = "\<lambda>r q. ch_item q = ch_item r"]) (simp_all add: listed_clash_def)

section \<open>The children of an item\<close>

text \<open>No child table has a row of the item; a row's value and another item's child rows.\<close>

definition childless :: "str \<Rightarrow> item_db \<Rightarrow> bool" where
  "childless i db \<longleftrightarrow> (\<forall>r \<in> set (db_item_tasks db). ch_item r \<noteq> i) \<and> (\<forall>r \<in> set (db_item_threads db). ch_item r \<noteq> i)
     \<and> (\<forall>r \<in> set (db_item_links db). ch_item r \<noteq> i) \<and> (\<forall>r \<in> set (db_item_repos db). ch_item r \<noteq> i)
     \<and> (\<forall>r \<in> set (db_item_prs db). ch_item r \<noteq> i)"

definition unowned :: "'v list \<Rightarrow> 'v child_row list \<Rightarrow> bool" where
  "unowned vs t \<longleftrightarrow> (\<forall>r \<in> set t. ch_value r \<notin> set vs)"

lemma child_rows_values: "v \<in> set vs \<longleftrightarrow> (\<exists>r \<in> set (child_rows i vs). ch_value r = v)"
proof -
  have "v \<in> set vs \<longleftrightarrow> v \<in> ch_value ` set (child_rows i vs)"
    using arg_cong [OF child_rows_value [of i vs], of set] by simp
  then show ?thesis by (simp add: image_iff eq_commute)
qed

lemma owned_fresh:
  "\<forall>r \<in> set t. ch_item r \<noteq> i \<Longrightarrow>
   (\<forall>r \<in> set (child_rows i vs). \<forall>q \<in> set t. \<not> owned_clash r q) \<longleftrightarrow> unowned vs t"
  using child_rows_item [of _ i vs] child_rows_values [of _ vs i]
  by (fastforce simp: owned_clash_def same_slot_def unowned_def)

lemma other_fresh:
  "\<forall>r \<in> set t. ch_item r \<noteq> i \<Longrightarrow> \<forall>r \<in> set (child_rows i vs). \<forall>q \<in> set t. \<not> listed_clash r q \<and> \<not> same_slot r q"
  using child_rows_item [of _ i vs] by (fastforce simp: listed_clash_def same_slot_def)

definition with_children :: "work_item \<Rightarrow> item_db \<Rightarrow> item_db" where
  "with_children e db = db\<lparr>db_item_tasks := db_item_tasks db @ child_rows (it_id e) (it_task_slugs e),
     db_item_threads := db_item_threads db @ child_rows (it_id e) (it_thread_ids e),
     db_item_links := db_item_links db @ child_rows (it_id e) (it_external_links e),
     db_item_repos := db_item_repos db @ child_rows (it_id e) (it_affected_repos e),
     db_item_prs := db_item_prs db @ child_rows (it_id e) (it_pr_urls e)\<rparr>"

definition children_fit :: "work_item \<Rightarrow> item_db \<Rightarrow> bool" where
  "children_fit e db \<longleftrightarrow> distinct (it_task_slugs e) \<and> unowned (it_task_slugs e) (db_item_tasks db)
     \<and> distinct (it_thread_ids e) \<and> unowned (it_thread_ids e) (db_item_threads db)
     \<and> distinct (it_affected_repos e) \<and> distinct (it_pr_urls e)"

lemma known_item: "i \<in> set ids \<Longrightarrow> \<forall>r \<in> set (child_rows i vs). ch_item r \<in> set ids"
  using child_rows_item by fastforce

lemma insert_owned:
  assumes "\<forall>r \<in> set rows. ch_item r \<noteq> i" and "i \<in> set ids"
  shows "rfold (insert_child t owned_clash ids) (child_rows i vs) rows = Inr rows' \<longleftrightarrow>
      rows' = rows @ child_rows i vs \<and> distinct vs \<and> unowned vs rows"
  using known_item [OF assms(2), of vs] owned_fresh [OF assms(1), of vs]
  by (auto simp: insert_children_rows owned_no_clash)

lemma insert_listed:
  assumes "\<forall>r \<in> set rows. ch_item r \<noteq> i" and "i \<in> set ids"
  shows "rfold (insert_child t listed_clash ids) (child_rows i vs) rows = Inr rows' \<longleftrightarrow>
      rows' = rows @ child_rows i vs \<and> distinct vs"
  using known_item [OF assms(2), of vs] other_fresh [OF assms(1), of vs]
  by (auto simp: insert_children_rows listed_no_clash)

lemma insert_slotted:
  assumes "\<forall>r \<in> set rows. ch_item r \<noteq> i" and "i \<in> set ids"
  shows "rfold (insert_child t same_slot ids) (child_rows i vs) rows = Inr rows' \<longleftrightarrow> rows' = rows @ child_rows i vs"
  using known_item [OF assms(2), of vs] other_fresh [OF assms(1), of vs]
  by (auto simp: insert_children_rows no_slot_clash)

lemma insert_item_children_exact:
  assumes "childless (it_id e) db" and known: "it_id e \<in> set (item_ids db)"
  shows "insert_item_children e db = Inr db' \<longleftrightarrow> children_fit e db \<and> db' = with_children e db"
proof -
  have c: "\<forall>r \<in> set (db_item_tasks db). ch_item r \<noteq> it_id e" "\<forall>r \<in> set (db_item_threads db). ch_item r \<noteq> it_id e"
    "\<forall>r \<in> set (db_item_links db). ch_item r \<noteq> it_id e" "\<forall>r \<in> set (db_item_repos db). ch_item r \<noteq> it_id e"
    "\<forall>r \<in> set (db_item_prs db). ch_item r \<noteq> it_id e" using assms(1) by (simp_all add: childless_def)
  show ?thesis
    unfolding insert_item_children_def Let_def rbind_eq_Inr children_fit_def with_children_def
      insert_owned [OF c(1) known] insert_owned [OF c(2) known] insert_slotted [OF c(3) known]
      insert_listed [OF c(4) known] insert_listed [OF c(5) known]
    by auto
qed

end
