(* ===== verification/Entity_Store.thy ===== *)
theory Entity_Store
  imports Prelude
begin

text \<open>
  What the services above the persistence layer rely on: a store that keeps at most one entity
  per key, returns what was last written in its normal form, and leaves the others alone, up to
  what a deletion detaches from them. The lemmas follow a batch of writes through the store.
\<close>

locale entity_store =
  fixes wf :: "'db \<Rightarrow> bool"
    and get :: "'db \<Rightarrow> str \<Rightarrow> 'e option"
    and key :: "'e \<Rightarrow> str"
    and valid :: "'e \<Rightarrow> bool"
    and norm :: "'e \<Rightarrow> 'e"
    and cut :: "str \<Rightarrow> 'e \<Rightarrow> 'e"
    and ins :: "'e \<Rightarrow> 'db \<Rightarrow> exn + 'db"
    and repl :: "'e \<Rightarrow> 'db \<Rightarrow> exn + 'db"
    and del :: "str \<Rightarrow> 'db \<Rightarrow> exn + 'db"
  assumes ins_get: "wf db \<Longrightarrow> valid e \<Longrightarrow> ins e db = Inr db' \<Longrightarrow>
      get db' k = (if k = key e then Some (norm e) else get db k)"
    and ins_new: "ins e db = Inr db' \<Longrightarrow> get db (key e) = None"
    and ins_wf: "wf db \<Longrightarrow> valid e \<Longrightarrow> ins e db = Inr db' \<Longrightarrow> wf db'"
    and repl_get: "wf db \<Longrightarrow> valid e \<Longrightarrow> repl e db = Inr db' \<Longrightarrow>
      get db' k = (if k = key e then Some (norm e) else get db k)"
    and repl_old: "wf db \<Longrightarrow> valid e \<Longrightarrow> repl e db = Inr db' \<Longrightarrow> get db (key e) \<noteq> None"
    and repl_wf: "wf db \<Longrightarrow> valid e \<Longrightarrow> repl e db = Inr db' \<Longrightarrow> wf db'"
    and del_get: "wf db \<Longrightarrow> del x db = Inr db' \<Longrightarrow>
      get db' k = (if k = x then None else map_option (cut x) (get db k))"
    and del_wf: "wf db \<Longrightarrow> del x db = Inr db' \<Longrightarrow> wf db'"
    and get_normal: "wf db \<Longrightarrow> get db k = Some e \<Longrightarrow> key e = k \<and> valid e \<and> norm e = e"
begin

lemma del_all:
  "wf db \<Longrightarrow> rfold del xs db = Inr db' \<Longrightarrow>
   wf db' \<and> (\<forall>k. get db' k = (if k \<in> set xs then None else map_option (fold cut xs) (get db k)))"
proof (induction xs arbitrary: db)
  case Nil
  then show ?case by (simp add: option.map_ident_strong)
next
  case (Cons x xs)
  then obtain db1 where db1: "del x db = Inr db1" "rfold del xs db1 = Inr db'"
    by (auto simp: rbind_eq_Inr)
  note IH = Cons.IH [OF del_wf [OF Cons.prems(1) db1(1)] db1(2)]
  have "get db' k = (if k \<in> set (x # xs) then None else map_option (fold cut (x # xs)) (get db k))" for k
    using IH del_get [OF Cons.prems(1) db1(1), of k]
    by (cases "k = x") (simp_all add: option.map_comp o_def)
  with IH show ?case by blast
qed

text \<open>A batch of writes, each of which may be skipped where the store already agrees.\<close>

definition writes :: "('e \<Rightarrow> 'db \<Rightarrow> exn + 'db) \<Rightarrow> 'e \<Rightarrow> bool" where
  "writes w e \<longleftrightarrow> (\<forall>db db'. wf db \<longrightarrow> w e db = Inr db' \<longrightarrow>
     wf db' \<and> (\<forall>k. get db' k = (if k = key e then Some (norm e) else get db k)))"

lemma writes_ins: "valid e \<Longrightarrow> writes ins e"
  unfolding writes_def using ins_get ins_wf by blast

lemma writes_repl: "valid e \<Longrightarrow> writes repl e"
  unfolding writes_def using repl_get repl_wf by blast

lemma write_all:
  "wf db \<Longrightarrow> \<forall>e \<in> set es. writes (w e) e \<Longrightarrow> distinct (List.map key es) \<Longrightarrow>
   rfold (\<lambda>e. w e e) es db = Inr db' \<Longrightarrow>
   wf db' \<and> (\<forall>e \<in> set es. get db' (key e) = Some (norm e))
   \<and> (\<forall>k. k \<notin> set (List.map key es) \<longrightarrow> get db' k = get db k)"
proof (induction es arbitrary: db)
  case (Cons e es)
  then obtain db1 where db1: "w e e db = Inr db1" "rfold (\<lambda>e. w e e) es db1 = Inr db'"
    by (auto simp: rbind_eq_Inr)
  have w: "writes (w e) e" using Cons.prems(2) by simp
  with Cons.prems(1) db1(1) have wf1: "wf db1"
    and get1: "get db1 k = (if k = key e then Some (norm e) else get db k)" for k
    unfolding writes_def by blast+
  note IH = Cons.IH [OF wf1 _ _ db1(2)]
  have "key e \<notin> set (List.map key es)" using Cons.prems(3) by simp
  with IH Cons.prems(2,3) get1 show ?case by simp
qed simp

end

end
