(* ===== verification/Item_Laws.thy ===== *)
theory Item_Laws
  imports Item_Store Entity_Store
begin

text \<open>
  The work item tables as a store: which inserts and replacements succeed, what they leave
  behind, and that no two items ever own the same task or thread.
\<close>

section \<open>Well-formed tables\<close>

definition wf_rows :: "item_db \<Rightarrow> bool" where
  "wf_rows db \<longleftrightarrow> distinct (item_ids db)
     \<and> (\<forall>i. i \<notin> set (item_ids db) \<longrightarrow> childless i db)
     \<and> distinct (List.map ch_value (db_item_tasks db)) \<and> distinct (List.map ch_value (db_item_threads db))
     \<and> (\<forall>i. distinct (children (db_item_repos db) i) \<and> distinct (children (db_item_prs db) i))
     \<and> (\<forall>r \<in> set (db_items db). encode_extras (iw_extras r) = iw_extras r)"

lemma find_key_None: "List.find (\<lambda>r. f r = i) rows = None \<longleftrightarrow> i \<notin> set (List.map f rows)"
  by (induction rows) auto

lemma item_get_None: "item_get db i = None \<longleftrightarrow> i \<notin> set (item_ids db)"
  by (simp only: item_get_def find_key_None item_ids_def option.map_disc_iff)

lemma item_get_row:
  "item_get db i = Some e \<longleftrightarrow> (\<exists>r. List.find (\<lambda>r. iw_id r = i) (db_items db) = Some r \<and> e = decode_item db r)"
  by (auto simp: item_get_def)

lemma find_id: "List.find (\<lambda>r. iw_id r = i) rows = Some r \<Longrightarrow> iw_id r = i \<and> r \<in> set rows"
  by (auto simp: find_Some_iff)

text \<open>What reading an item depends on.\<close>

definition same_children :: "item_db \<Rightarrow> item_db \<Rightarrow> str \<Rightarrow> bool" where
  "same_children db db' i \<longleftrightarrow> children (db_item_tasks db) i = children (db_item_tasks db') i
     \<and> children (db_item_threads db) i = children (db_item_threads db') i
     \<and> children (db_item_links db) i = children (db_item_links db') i
     \<and> children (db_item_repos db) i = children (db_item_repos db') i
     \<and> children (db_item_prs db) i = children (db_item_prs db') i"

lemma item_get_frame:
  assumes "List.find (\<lambda>r. iw_id r = i) (db_items db') = List.find (\<lambda>r. iw_id r = i) (db_items db)"
    and "same_children db' db i"
  shows "item_get db' i = item_get db i"
proof (cases "List.find (\<lambda>r. iw_id r = i) (db_items db)")
  case (Some r)
  then have "iw_id r = i" by (rule find_id [THEN conjunct1])
  with Some assms show ?thesis by (simp add: item_get_def decode_item_def same_children_def Let_def)
qed (use assms in \<open>simp add: item_get_def\<close>)

definition holds_children :: "item_db \<Rightarrow> work_item \<Rightarrow> bool" where
  "holds_children db e \<longleftrightarrow> children (db_item_tasks db) (it_id e) = it_task_slugs e
     \<and> children (db_item_threads db) (it_id e) = it_thread_ids e
     \<and> children (db_item_links db) (it_id e) = it_external_links e
     \<and> children (db_item_repos db) (it_id e) = it_affected_repos e
     \<and> children (db_item_prs db) (it_id e) = it_pr_urls e"

lemma item_get_holds:
  assumes "List.find (\<lambda>r. iw_id r = it_id e) (db_items db) = Some (item_values n e)" and "holds_children db e"
  shows "item_get db (it_id e) = Some (norm_item e)"
  using assms
  by (simp add: item_get_def decode_item_def item_values_def holds_children_def Let_def norm_item_def
      encode_datetime_def decode_datetime_def norm_dt_def)

lemma with_children_holds:
  assumes "childless (it_id e) db"
  shows "holds_children (with_children e db) e" and "j \<noteq> it_id e \<Longrightarrow> same_children (with_children e db) db j"
  using assms by (simp_all add: holds_children_def same_children_def with_children_def children_append childless_def)

lemma delete_children_same: "j \<noteq> i \<Longrightarrow> same_children (delete_item_children i db) db j"
  by (simp add: same_children_def delete_item_children_def children_delete)

lemma delete_children_childless: "childless i (delete_item_children i db)"
  by (simp add: childless_def delete_item_children_def)

lemma same_children_trans: "same_children a b i \<Longrightarrow> same_children b c i \<Longrightarrow> same_children a c i"
  by (simp add: same_children_def)

lemma same_children_items: "same_children (db\<lparr>db_items := rows\<rparr>) db' i \<longleftrightarrow> same_children db db' i"
  "same_children db (db'\<lparr>db_items := rows\<rparr>) i \<longleftrightarrow> same_children db db' i"
  by (simp_all add: same_children_def)

section \<open>Insertion\<close>

lemma item_insert_exact:
  assumes "wf_rows db"
  shows "item_insert e db = Inr db' \<longleftrightarrow> it_id e \<notin> set (item_ids db) \<and> children_fit e db
    \<and> db' = with_children e (db\<lparr>db_items := db_items db @ [item_values 0 e]\<rparr>)"
proof -
  let ?db1 = "db\<lparr>db_items := db_items db @ [item_values 0 e]\<rparr>"
  have row: "insert_row ''work_items'' iw_id (\<lambda>_. True) (item_values 0 e) (db_items db) = Inr rows \<longleftrightarrow>
      it_id e \<notin> set (item_ids db) \<and> rows = db_items db @ [item_values 0 e]" for rows
    by (auto simp: insert_row_def item_ids_def item_values_def)
  have "insert_item_children e ?db1 = Inr db' \<longleftrightarrow> children_fit e db \<and> db' = with_children e ?db1"
    if "it_id e \<notin> set (item_ids db)"
  proof -
    have "childless (it_id e) ?db1" using assms that by (simp add: wf_rows_def childless_def)
    moreover have "it_id e \<in> set (item_ids ?db1)" by (simp add: item_ids_def item_values_def)
    moreover have "children_fit e ?db1 = children_fit e db" by (simp add: children_fit_def)
    ultimately show ?thesis by (simp add: insert_item_children_exact)
  qed
  then show ?thesis by (auto simp: item_insert_def rbind_eq_Inr row)
qed

lemma item_insert_get:
  assumes wf: "wf_rows db" and i: "item_insert e db = Inr db'"
  shows "item_get db' j = (if j = it_id e then Some (norm_item e) else item_get db j)"
proof -
  let ?db1 = "db\<lparr>db_items := db_items db @ [item_values 0 e]\<rparr>"
  have new: "it_id e \<notin> set (item_ids db)" and db': "db' = with_children e ?db1"
    using i by (simp_all add: item_insert_exact [OF wf])
  have cl: "childless (it_id e) ?db1" using wf new by (simp add: wf_rows_def childless_def)
  have items: "db_items db' = db_items db @ [item_values 0 e]" by (simp add: db' with_children_def)
  show ?thesis
  proof (cases "j = it_id e")
    case True
    have "List.find (\<lambda>r. iw_id r = it_id e) (db_items db) = None"
      using new by (simp only: find_key_None item_ids_def not_False_eq_True)
    then have "List.find (\<lambda>r. iw_id r = it_id e) (db_items db') = Some (item_values 0 e)"
      by (simp add: items find_append item_values_def)
    from item_get_holds [OF this] with_children_holds(1) [OF cl] True show ?thesis by (simp add: db')
  next
    case False
    have "List.find (\<lambda>r. iw_id r = j) (db_items db') = List.find (\<lambda>r. iw_id r = j) (db_items db)"
      using False by (simp add: items find_append item_values_def split: option.split)
    from item_get_frame [OF this] with_children_holds(2) [OF cl False] False
    show ?thesis by (simp add: db' same_children_items)
  qed
qed

lemma distinct_owned:
  assumes "distinct (List.map ch_value t)" and "distinct vs" and "unowned vs t"
  shows "distinct (List.map ch_value (t @ child_rows i vs))"
proof -
  have "set (List.map ch_value t) \<inter> set vs = {}" using assms(3) by (auto simp: unowned_def)
  with assms(1,2) show ?thesis by (simp only: map_append distinct_append child_rows_value simp_thms)
qed

lemma childless_mono:
  assumes "set (db_item_tasks db') \<subseteq> set (db_item_tasks db)" "set (db_item_threads db') \<subseteq> set (db_item_threads db)"
    "set (db_item_links db') \<subseteq> set (db_item_links db)" "set (db_item_repos db') \<subseteq> set (db_item_repos db)"
    "set (db_item_prs db') \<subseteq> set (db_item_prs db)" and "childless i db"
  shows "childless i db'"
  using assms unfolding childless_def by blast

lemma childless_with_children: "j \<noteq> it_id e \<Longrightarrow> childless j (with_children e db) \<longleftrightarrow> childless j db"
  unfolding childless_def with_children_def by (auto dest: child_rows_item)

lemma wf_with_children:
  assumes ids: "distinct (item_ids db)" and e: "it_id e \<in> set (item_ids db)"
    and other: "\<And>i. i \<notin> set (item_ids db) \<Longrightarrow> childless i db"
    and dist: "distinct (List.map ch_value (db_item_tasks db))" "distinct (List.map ch_value (db_item_threads db))"
    and lists: "\<And>i. distinct (children (db_item_repos db) i) \<and> distinct (children (db_item_prs db) i)"
    and extras: "\<forall>r \<in> set (db_items db). encode_extras (iw_extras r) = iw_extras r" and fit: "children_fit e db"
    and cl: "childless (it_id e) db"
  shows "wf_rows (with_children e db)"
proof -
  have "db_items (with_children e db) = db_items db" by (simp add: with_children_def)
  moreover have "item_ids (with_children e db) = item_ids db" by (simp add: with_children_def item_ids_def)
  moreover have "childless i (with_children e db)" if "i \<notin> set (item_ids db)" for i
  proof -
    have "i \<noteq> it_id e" using that e by auto
    with other [OF that] show ?thesis by (simp add: childless_with_children)
  qed
  moreover have "distinct (List.map ch_value (db_item_tasks (with_children e db)))"
    "distinct (List.map ch_value (db_item_threads (with_children e db)))"
    using fit distinct_owned [OF dist(1), of "it_task_slugs e" "it_id e"]
      distinct_owned [OF dist(2), of "it_thread_ids e" "it_id e"]
    by (simp_all add: with_children_def children_fit_def del: map_append distinct_append)
  moreover have "distinct (children (db_item_repos (with_children e db)) i) \<and> distinct (children (db_item_prs (with_children e db)) i)" for i
    using with_children_holds(1) [OF cl] with_children_holds(2) [OF cl, of i] lists [of i] fit
    by (cases "i = it_id e") (auto simp: holds_children_def same_children_def children_fit_def)
  ultimately show ?thesis using ids extras by (simp add: wf_rows_def)
qed

lemma item_insert_wf:
  assumes wf: "wf_rows db" and i: "item_insert e db = Inr db'"
  shows "wf_rows db'"
proof -
  let ?db1 = "db\<lparr>db_items := db_items db @ [item_values 0 e]\<rparr>"
  have new: "it_id e \<notin> set (item_ids db)" and fit: "children_fit e db" and db': "db' = with_children e ?db1"
    using i by (simp_all add: item_insert_exact [OF wf])
  have ids: "item_ids ?db1 = item_ids db @ [it_id e]" by (simp add: item_ids_def item_values_def)
  show ?thesis
    unfolding db'
  proof (rule wf_with_children)
    show "childless i ?db1" if "i \<notin> set (item_ids ?db1)" for i
      using that wf unfolding ids by (simp add: wf_rows_def childless_def)
    show "children_fit e ?db1" using fit by (simp add: children_fit_def)
    show "\<forall>r \<in> set (db_items ?db1). encode_extras (iw_extras r) = iw_extras r"
      using wf by (simp add: wf_rows_def item_values_def)
    show "childless (it_id e) ?db1" using wf new by (simp add: wf_rows_def childless_def)
  qed (use wf new in \<open>simp_all add: wf_rows_def ids\<close>)
qed

section \<open>Replacement\<close>

definition with_item_row :: "work_item \<Rightarrow> int option \<Rightarrow> int \<Rightarrow> item_db \<Rightarrow> item_db" where
  "with_item_row e expected n db = db\<lparr>db_items := List.map (\<lambda>r. if item_matches (it_id e) expected r
     then item_values n e else r) (db_items db)\<rparr>"

lemma with_item_row_ids: "item_ids (with_item_row e expected n db) = item_ids db"
  by (auto simp: with_item_row_def item_ids_def item_matches_def item_values_def)

lemma delete_children_ids [simp]: "item_ids (delete_item_children i db) = item_ids db"
  by (simp add: delete_item_children_def item_ids_def)

lemma children_fit_row: "children_fit e (delete_item_children i (with_item_row e expected n db))
    = children_fit e (delete_item_children i db)"
  by (simp add: children_fit_def delete_item_children_def with_item_row_def)

lemma item_replace_exact:
  "item_replace e expected db = Inr (n, db') \<longleftrightarrow>
     (\<exists>old. List.find (item_matches (it_id e) expected) (db_items db) = Some old \<and> n = iw_revision old + 1)
     \<and> children_fit e (delete_item_children (it_id e) db)
     \<and> db' = with_children e (delete_item_children (it_id e) (with_item_row e expected n db))"
proof (cases "List.find (item_matches (it_id e) expected) (db_items db)")
  case (Some old)
  let ?n = "iw_revision old + 1"
  let ?db1 = "delete_item_children (it_id e) (with_item_row e expected ?n db)"
  have "it_id e \<in> set (item_ids db)"
    using Some by (auto simp: find_Some_iff item_matches_def item_ids_def intro!: rev_image_eqI [OF nth_mem])
  then have "it_id e \<in> set (item_ids ?db1)" by (simp add: with_item_row_ids)
  then have "insert_item_children e ?db1 = Inr db' \<longleftrightarrow>
      children_fit e (delete_item_children (it_id e) db) \<and> db' = with_children e ?db1"
    by (simp add: insert_item_children_exact [OF delete_children_childless] children_fit_row)
  then show ?thesis
    using Some by (auto simp: item_replace_def Let_def rbind_eq_Inr with_item_row_def)
qed (simp add: item_replace_def)

lemma item_replace_row:
  assumes "wf_rows db" and "List.find (item_matches (it_id e) expected) (db_items db) = Some old"
  shows "List.find (\<lambda>r. iw_id r = it_id e) (db_items (with_item_row e expected n db)) = Some (item_values n e)"
    and "List.find (\<lambda>r. iw_id r = it_id e) (db_items db) = Some old"
    and "j \<noteq> it_id e \<Longrightarrow> List.find (\<lambda>r. iw_id r = j) (db_items (with_item_row e expected n db))
      = List.find (\<lambda>r. iw_id r = j) (db_items db)"
proof -
  have "List.find (\<lambda>r. iw_id r = it_id e) (List.map (\<lambda>r. if item_matches (it_id e) expected r then item_values n e else r) rows)
      = Some (item_values n e) \<and> List.find (\<lambda>r. iw_id r = it_id e) rows = Some old"
    if "distinct (List.map iw_id rows)" "List.find (item_matches (it_id e) expected) rows = Some old" for rows
    using that
  proof (induction rows)
    case (Cons r rows)
    show ?case
    proof (cases "item_matches (it_id e) expected r")
      case True
      then have "iw_id r = it_id e" by (simp add: item_matches_def)
      with True Cons.prems show ?thesis by (simp add: item_values_def)
    next
      case False
      with Cons.prems have f: "List.find (item_matches (it_id e) expected) rows = Some old" by simp
      then have "it_id e \<in> set (List.map iw_id rows)"
        by (auto simp: find_Some_iff item_matches_def intro!: rev_image_eqI [OF nth_mem])
      with Cons.prems(1) have "iw_id r \<noteq> it_id e" by auto
      with Cons.IH f Cons.prems(1) False show ?thesis by simp
    qed
  qed simp
  moreover have "distinct (List.map iw_id (db_items db))" using assms(1) by (simp add: wf_rows_def item_ids_def)
  ultimately show "List.find (\<lambda>r. iw_id r = it_id e) (db_items (with_item_row e expected n db)) = Some (item_values n e)"
    "List.find (\<lambda>r. iw_id r = it_id e) (db_items db) = Some old"
    using assms(2) by (simp_all add: with_item_row_def)
  have "List.find (\<lambda>r. iw_id r = j) (List.map (\<lambda>r. if item_matches (it_id e) expected r then item_values n e else r) rows)
      = List.find (\<lambda>r. iw_id r = j) rows" if "j \<noteq> it_id e" for rows
    using that by (induction rows) (auto simp: item_matches_def item_values_def)
  then show "j \<noteq> it_id e \<Longrightarrow> List.find (\<lambda>r. iw_id r = j) (db_items (with_item_row e expected n db))
      = List.find (\<lambda>r. iw_id r = j) (db_items db)"
    by (simp add: with_item_row_def)
qed

lemma item_replace_get:
  assumes wf: "wf_rows db" and r: "item_replace e expected db = Inr (n, db')"
  shows "item_get db' j = (if j = it_id e then Some (norm_item e) else item_get db j)"
    and "item_get db (it_id e) \<noteq> None"
proof -
  obtain old where old: "List.find (item_matches (it_id e) expected) (db_items db) = Some old"
    and db': "db' = with_children e (delete_item_children (it_id e) (with_item_row e expected n db))"
    using r by (auto simp: item_replace_exact)
  have items: "db_items db' = db_items (with_item_row e expected n db)"
    by (simp add: db' with_children_def delete_item_children_def)
  note row = item_replace_row [OF wf old]
  show "item_get db (it_id e) \<noteq> None" using row(2) by (simp add: item_get_def)
  note holds = with_children_holds [OF delete_children_childless, where e = e]
  show "item_get db' j = (if j = it_id e then Some (norm_item e) else item_get db j)"
  proof (cases "j = it_id e")
    case True
    have "List.find (\<lambda>r. iw_id r = it_id e) (db_items db') = Some (item_values n e)"
      unfolding items by (rule row(1))
    from item_get_holds [OF this] holds(1) True show ?thesis by (simp add: db')
  next
    case False
    have same: "same_children db' db j"
      unfolding db'
      by (rule same_children_trans [OF holds(2) [OF False] same_children_trans [OF delete_children_same [OF False]]])
        (simp add: same_children_def with_item_row_def)
    have "List.find (\<lambda>r. iw_id r = j) (db_items db') = List.find (\<lambda>r. iw_id r = j) (db_items db)"
      unfolding items by (rule row(3) [OF False])
    from item_get_frame [OF this same] False show ?thesis by simp
  qed
qed

lemma distinct_filter_values: "distinct (List.map f t) \<Longrightarrow> distinct (List.map f (filter P t))"
  by (rule distinct_map_filter)

lemma delete_children_wf:
  assumes "wf_rows db"
  shows "childless j db \<Longrightarrow> childless j (delete_item_children i db)"
    and "distinct (List.map ch_value (db_item_tasks (delete_item_children i db)))"
    and "distinct (List.map ch_value (db_item_threads (delete_item_children i db)))"
    and "distinct (children (db_item_repos (delete_item_children i db)) k)
      \<and> distinct (children (db_item_prs (delete_item_children i db)) k)"
  using assms by (auto simp: wf_rows_def childless_def delete_item_children_def distinct_filter_values children_delete)

lemma item_replace_wf:
  assumes wf: "wf_rows db" and r: "item_replace e expected db = Inr (n, db')"
  shows "wf_rows db'"
proof -
  let ?w = "with_item_row e expected n db"
  have fit: "children_fit e (delete_item_children (it_id e) db)"
    and db': "db' = with_children e (delete_item_children (it_id e) ?w)"
    using r by (auto simp: item_replace_exact)
  have w: "wf_rows ?w"
    using wf with_item_row_ids [of e expected n db]
    by (auto simp: wf_rows_def with_item_row_def item_values_def childless_def)
  have ids: "item_ids ?w = item_ids db" by (rule with_item_row_ids)
  show ?thesis
    unfolding db'
  proof (rule wf_with_children)
    show "distinct (item_ids (delete_item_children (it_id e) ?w))" using wf by (simp add: ids wf_rows_def)
    show "it_id e \<in> set (item_ids (delete_item_children (it_id e) ?w))"
      using item_replace_get(2) [OF wf r] by (simp add: ids item_get_None)
    show "childless i (delete_item_children (it_id e) ?w)"
      if "i \<notin> set (item_ids (delete_item_children (it_id e) ?w))" for i
      using delete_children_wf(1) [OF w] w that by (simp add: wf_rows_def)
    show "\<forall>r \<in> set (db_items (delete_item_children (it_id e) ?w)). encode_extras (iw_extras r) = iw_extras r"
      using w by (simp add: wf_rows_def delete_item_children_def)
    show "children_fit e (delete_item_children (it_id e) ?w)" using fit by (simp add: children_fit_row)
  qed (rule delete_children_wf [OF w] delete_children_childless)+
qed

section \<open>Deletion\<close>

lemma find_filter_id:
  "List.find (\<lambda>r. f r = j) (filter (\<lambda>r. f r \<noteq> i) rows) = (if j = i then None else List.find (\<lambda>r. f r = j) rows)"
  by (induction rows) auto

lemma item_delete_get:
  assumes "item_delete i db = Inr (b, db')"
  shows "item_get db' j = (if j = i then None else item_get db j)"
proof -
  have db': "db' = (delete_item_children i db)\<lparr>db_items := filter (\<lambda>r. iw_id r \<noteq> i) (db_items db)\<rparr>"
    using assms by (simp add: item_delete_def)
  have find: "List.find (\<lambda>r. iw_id r = j) (db_items db') = (if j = i then None else List.find (\<lambda>r. iw_id r = j) (db_items db))"
    by (simp add: db' find_filter_id)
  show ?thesis
  proof (cases "j = i")
    case False
    have "same_children db' db j"
      unfolding db' by (simp add: same_children_items delete_children_same [OF False])
    from item_get_frame [OF _ this] find False show ?thesis by simp
  qed (use find in \<open>simp add: item_get_def\<close>)
qed

lemma item_delete_wf:
  assumes wf: "wf_rows db" and "item_delete i db = Inr (b, db')"
  shows "wf_rows db'"
proof -
  have db': "db' = (delete_item_children i db)\<lparr>db_items := filter (\<lambda>r. iw_id r \<noteq> i) (db_items db)\<rparr>"
    using assms(2) by (simp add: item_delete_def)
  have ids: "item_ids db' = filter (\<lambda>j. j \<noteq> i) (item_ids db)"
    by (simp add: db' item_ids_def filter_map o_def)
  have "childless j db'" if "j \<notin> set (item_ids db')" for j
  proof (cases "j = i")
    case True
    then show ?thesis using delete_children_childless [of i db] by (simp add: db' childless_def)
  next
    case False
    with that wf have "childless j db" unfolding ids by (simp add: wf_rows_def)
    from delete_children_wf(1) [OF wf this] show ?thesis by (simp add: db' childless_def)
  qed
  moreover have "distinct (List.map ch_value (db_item_tasks db'))" "distinct (List.map ch_value (db_item_threads db'))"
    using delete_children_wf(2,3) [OF wf, of i] by (simp_all add: db')
  moreover have "distinct (item_ids db')" "\<forall>r \<in> set (db_items db'). encode_extras (iw_extras r) = iw_extras r"
    using wf by (simp_all add: ids wf_rows_def) (simp add: db')
  moreover have "distinct (children (db_item_repos db') k) \<and> distinct (children (db_item_prs db') k)" for k
    using delete_children_wf(4) [OF wf, of i k] by (simp add: db')
  ultimately show ?thesis by (simp only: wf_rows_def) blast
qed

section \<open>The store\<close>

definition replace_item :: "work_item \<Rightarrow> item_db \<Rightarrow> exn + item_db" where
  "replace_item e db = rbind (item_replace e None db) (\<lambda>r. Inr (snd r))"

definition delete_item :: "str \<Rightarrow> item_db \<Rightarrow> exn + item_db" where
  "delete_item i db = rbind (item_delete i db) (\<lambda>r. Inr (snd r))"

lemma replace_item_Inr: "replace_item e db = Inr db' \<longleftrightarrow> (\<exists>n. item_replace e None db = Inr (n, db'))"
  by (auto simp: replace_item_def rbind_eq_Inr)

lemma item_get_normal:
  assumes "wf_rows db" and "item_get db i = Some e"
  shows "it_id e = i \<and> norm_item e = e"
proof -
  obtain r where r: "List.find (\<lambda>r. iw_id r = i) (db_items db) = Some r" "e = decode_item db r"
    using assms(2) by (auto simp: item_get_row)
  note f = find_id [OF r(1)]
  then have "encode_extras (iw_extras r) = iw_extras r" using assms(1) by (simp add: wf_rows_def)
  with f r(2) show ?thesis by (simp add: decode_item_def Let_def norm_item_def decode_datetime_def norm_dt_def)
qed

lemma replace_item_law:
  assumes "wf_rows db" and "replace_item e db = Inr db'"
  shows "item_get db' j = (if j = it_id e then Some (norm_item e) else item_get db j)"
    and "item_get db (it_id e) \<noteq> None" and "wf_rows db'"
proof -
  obtain n where n: "item_replace e None db = Inr (n, db')"
    using assms(2) by (simp only: replace_item_Inr) (elim exE)
  show "item_get db' j = (if j = it_id e then Some (norm_item e) else item_get db j)"
    by (rule item_replace_get(1) [OF assms(1) n])
  show "item_get db (it_id e) \<noteq> None" by (rule item_replace_get(2) [OF assms(1) n])
  show "wf_rows db'" by (rule item_replace_wf [OF assms(1) n])
qed

lemma delete_item_law:
  assumes "wf_rows db" and "delete_item i db = Inr db'"
  shows "item_get db' j = (if j = i then None else item_get db j)" and "wf_rows db'"
proof -
  obtain b where b: "item_delete i db = Inr (b, db')"
    using assms(2) by (auto simp: delete_item_def rbind_eq_Inr)
  show "item_get db' j = (if j = i then None else item_get db j)" by (rule item_delete_get [OF b])
  show "wf_rows db'" by (rule item_delete_wf [OF assms(1) b])
qed

interpretation item_store: entity_store wf_rows item_get it_id "\<lambda>_. True" norm_item "\<lambda>_ e. e"
  item_insert replace_item delete_item
proof
  fix db db' :: item_db and e :: work_item and k x :: str
  assume wf: "wf_rows db"
  show "item_insert e db = Inr db' \<Longrightarrow> item_get db' k = (if k = it_id e then Some (norm_item e) else item_get db k)"
    by (rule item_insert_get [OF wf])
  show "item_insert e db = Inr db' \<Longrightarrow> wf_rows db'" by (rule item_insert_wf [OF wf])
  show "replace_item e db = Inr db' \<Longrightarrow> item_get db' k = (if k = it_id e then Some (norm_item e) else item_get db k)"
    by (rule replace_item_law(1) [OF wf])
  show "replace_item e db = Inr db' \<Longrightarrow> item_get db (it_id e) \<noteq> None" by (rule replace_item_law(2) [OF wf])
  show "replace_item e db = Inr db' \<Longrightarrow> wf_rows db'" by (rule replace_item_law(3) [OF wf])
  show "delete_item x db = Inr db' \<Longrightarrow> item_get db' k = (if k = x then None else map_option (\<lambda>e. e) (item_get db k))"
    using delete_item_law(1) [OF wf] by (simp add: option.map_ident)
  show "delete_item x db = Inr db' \<Longrightarrow> wf_rows db'" by (rule delete_item_law(2) [OF wf])
  show "item_get db k = Some e \<Longrightarrow> it_id e = k \<and> True \<and> norm_item e = e" using item_get_normal [OF wf] by simp
next
  fix db db' :: item_db and e :: work_item
  assume "item_insert e db = Inr db'"
  then show "item_get db (it_id e) = None"
    by (auto simp: item_insert_def rbind_eq_Inr insert_row_def item_get_None item_ids_def item_values_def split: if_splits)
qed

section \<open>Ownership\<close>

lemma item_kids:
  assumes "item_get db i = Some e"
  shows "it_task_slugs e = children (db_item_tasks db) i \<and> it_thread_ids e = children (db_item_threads db) i
    \<and> it_affected_repos e = children (db_item_repos db) i \<and> it_pr_urls e = children (db_item_prs db) i"
proof -
  obtain r where r: "List.find (\<lambda>r. iw_id r = i) (db_items db) = Some r" "e = decode_item db r"
    using assms by (auto simp: item_get_row)
  from find_id [OF r(1)] r(2) show ?thesis by (simp add: decode_item_def Let_def)
qed

lemma delete_children_owned:
  "db_item_tasks (delete_item_children i db) = filter (\<lambda>r. ch_item r \<noteq> i) (db_item_tasks db)"
  "db_item_threads (delete_item_children i db) = filter (\<lambda>r. ch_item r \<noteq> i) (db_item_threads db)"
  by (simp_all add: delete_item_children_def)

text \<open>No task and no thread belongs to two items.\<close>

lemma owner_unique:
  assumes "wf_rows db" and "item_get db i = Some e" and "item_get db j = Some f" and "i \<noteq> j"
  shows "set (it_task_slugs e) \<inter> set (it_task_slugs f) = {}"
    and "set (it_thread_ids e) \<inter> set (it_thread_ids f) = {}"
proof -
  have kids: "it_task_slugs e = children (db_item_tasks db) i" "it_task_slugs f = children (db_item_tasks db) j"
    "it_thread_ids e = children (db_item_threads db) i" "it_thread_ids f = children (db_item_threads db) j"
    using item_kids [OF assms(2)] item_kids [OF assms(3)] by simp_all
  have "set (children t i) \<inter> set (children t j) = {}" if "distinct (List.map ch_value t)" for t :: "str child_row list"
  proof -
    have "r = q" if "r \<in> set t" "q \<in> set t" "ch_value r = ch_value q" for r q
      using that \<open>distinct (List.map ch_value t)\<close> by (simp add: distinct_map inj_on_def)
    with assms(4) show ?thesis by (auto simp: children_def)
  qed
  with assms(1) show "set (it_task_slugs e) \<inter> set (it_task_slugs f) = {}"
    "set (it_thread_ids e) \<inter> set (it_thread_ids f) = {}"
    unfolding kids by (simp_all add: wf_rows_def)
qed

lemma childless_absent: "wf_rows db \<Longrightarrow> item_get db i = None \<Longrightarrow> childless i db"
  by (simp add: wf_rows_def item_get_None)

lemma unowned_iff:
  assumes "wf_rows db" and get: "\<And>i e. item_get db i = Some e \<Longrightarrow> of_item e = children (table db) i"
    and none: "\<And>i r. item_get db i = None \<Longrightarrow> r \<in> set (table db) \<Longrightarrow> ch_item r \<noteq> i"
  shows "unowned vs (filter (\<lambda>r. ch_item r \<noteq> i) (table db)) \<longleftrightarrow>
    (\<forall>j f. j \<noteq> i \<longrightarrow> item_get db j = Some f \<longrightarrow> set vs \<inter> set (of_item f) = {})"
proof
  assume u: "unowned vs (filter (\<lambda>r. ch_item r \<noteq> i) (table db))"
  show "\<forall>j f. j \<noteq> i \<longrightarrow> item_get db j = Some f \<longrightarrow> set vs \<inter> set (of_item f) = {}"
  proof (intro allI impI)
    fix j f assume "j \<noteq> i" "item_get db j = Some f"
    then show "set vs \<inter> set (of_item f) = {}"
      using u by (auto simp: get children_value unowned_def)
  qed
next
  assume all: "\<forall>j f. j \<noteq> i \<longrightarrow> item_get db j = Some f \<longrightarrow> set vs \<inter> set (of_item f) = {}"
  show "unowned vs (filter (\<lambda>r. ch_item r \<noteq> i) (table db))"
    unfolding unowned_def
  proof
    fix r assume r: "r \<in> set (filter (\<lambda>r. ch_item r \<noteq> i) (table db))"
    then obtain f where f: "item_get db (ch_item r) = Some f" using none by (cases "item_get db (ch_item r)") auto
    have "ch_value r \<in> set (of_item f)" using r by (auto simp: get [OF f] children_value)
    with all r f show "ch_value r \<notin> set vs" by auto
  qed
qed

definition fits :: "work_item \<Rightarrow> item_db \<Rightarrow> bool" where
  "fits e db \<longleftrightarrow> distinct (it_task_slugs e) \<and> distinct (it_thread_ids e) \<and> distinct (it_affected_repos e)
     \<and> distinct (it_pr_urls e)
     \<and> (\<forall>j f. j \<noteq> it_id e \<longrightarrow> item_get db j = Some f \<longrightarrow>
          set (it_task_slugs e) \<inter> set (it_task_slugs f) = {} \<and> set (it_thread_ids e) \<inter> set (it_thread_ids f) = {})"

lemma children_fit_iff:
  assumes "wf_rows db"
  shows "children_fit e (delete_item_children (it_id e) db) \<longleftrightarrow> fits e db"
proof -
  have kids: "it_task_slugs f = children (db_item_tasks db) i" "it_thread_ids f = children (db_item_threads db) i"
    if "item_get db i = Some f" for i f
    using item_kids [OF that] by simp_all
  have none: "ch_item r \<noteq> i" if "item_get db i = None" "r \<in> set (db_item_tasks db) \<union> set (db_item_threads db)" for i r
    using childless_absent [OF assms that(1)] that(2) by (auto simp: childless_def)
  have tasks: "unowned vs (filter (\<lambda>r. ch_item r \<noteq> it_id e) (db_item_tasks db)) \<longleftrightarrow>
      (\<forall>j f. j \<noteq> it_id e \<longrightarrow> item_get db j = Some f \<longrightarrow> set vs \<inter> set (it_task_slugs f) = {})" for vs
    by (rule unowned_iff [OF assms]) (use kids none in auto)
  have threads: "unowned vs (filter (\<lambda>r. ch_item r \<noteq> it_id e) (db_item_threads db)) \<longleftrightarrow>
      (\<forall>j f. j \<noteq> it_id e \<longrightarrow> item_get db j = Some f \<longrightarrow> set vs \<inter> set (it_thread_ids f) = {})" for vs
    by (rule unowned_iff [OF assms]) (use kids none in auto)
  show ?thesis
    unfolding children_fit_def fits_def delete_children_owned tasks threads by blast
qed

text \<open>A replacement succeeds exactly on a stored item that fits.\<close>

lemma replace_item_total:
  assumes "wf_rows db" and "item_get db (it_id e) \<noteq> None" and "fits e db"
  shows "\<exists>db'. replace_item e db = Inr db'"
proof -
  obtain r where "List.find (\<lambda>r. iw_id r = it_id e) (db_items db) = Some r"
    using assms(2) by (auto simp: item_get_def)
  then have "\<exists>old. List.find (item_matches (it_id e) None) (db_items db) = Some old"
    by (simp add: item_matches_def [abs_def])
  with children_fit_iff [OF assms(1)] assms(3) show ?thesis
    by (auto simp: replace_item_Inr item_replace_exact)
qed

end
