(* ===== verification/State_Manager.thy ===== *)
theory State_Manager
  imports Task_Writes Entity_Store Task_Graph
begin

text \<open>
  \<open>StateManager\<close> (core/state.py) over the task tables. A method that opens a transaction is a
  function to \<open>exn + _\<close>: an exception rolls the transaction back, so its outcome carries no
  database. A callback that mutates tasks is a function on them that may raise. The tables are
  an instance of the store interface, and the properties rest on its facts.
\<close>

section \<open>Operations\<close>

definition replace_db :: "task \<Rightarrow> task_db \<Rightarrow> exn + task_db" where
  "replace_db t db = rbind (task_replace t None db) (\<lambda>r. Inr (snd r))"

definition delete_db :: "str \<Rightarrow> task_db \<Rightarrow> exn + task_db" where
  "delete_db slug db = rbind (task_delete slug db) (\<lambda>r. Inr (snd r))"

definition slug_changed :: "str \<Rightarrow> str \<Rightarrow> exn" where
  "slug_changed old new =
     ValueError (''task mutation changed slug from '' @ quoted old @ '' to '' @ quoted new)"

definition mutate_task :: "str \<Rightarrow> (task \<Rightarrow> exn + task) \<Rightarrow> task_db \<Rightarrow> exn + task \<times> task_db" where
  "mutate_task slug fn db = (case task_get db slug of None \<Rightarrow> Inl (KeyError slug)
     | Some before \<Rightarrow> rbind (fn before) (\<lambda>t.
         if tk_slug t \<noteq> slug then Inl (slug_changed slug (tk_slug t))
         else if \<not> task_eq t before then rbind (replace_db t db) (\<lambda>db'. Inr (t, db'))
         else Inr (t, db)))"

definition select_tasks :: "str list \<Rightarrow> task_db \<Rightarrow> exn + tasks" where
  "select_tasks slugs db = rmap (\<lambda>s. case task_get db s of None \<Rightarrow> Inl (KeyError s)
     | Some t \<Rightarrow> Inr (s, t)) slugs"

definition changed_in :: "tasks \<Rightarrow> str \<times> task \<Rightarrow> bool" where
  "changed_in before st = (case map_of before (fst st) of None \<Rightarrow> True | Some b \<Rightarrow> \<not> task_eq (snd st) b)"

definition deps_changed_in :: "tasks \<Rightarrow> str \<times> task \<Rightarrow> bool" where
  "deps_changed_in before st = (case map_of before (fst st) of None \<Rightarrow> True
     | Some b \<Rightarrow> \<not> edges_eq (tk_depends_on (snd st)) (tk_depends_on b))"

definition check_selection :: "str list \<Rightarrow> tasks \<Rightarrow> exn + unit" where
  "check_selection requested selected =
     (let unexpected = filter (\<lambda>s. s \<notin> set requested) (dict_keys selected);
          wrong = filter (\<lambda>st. tk_slug (snd st) \<noteq> fst st) selected
      in if unexpected \<noteq> []
         then Inl (ValueError (''task mutation added unrequested slug(s): '' @ join '', '' (sort unexpected)))
         else if wrong \<noteq> [] then Inl (slug_changed (fst (hd wrong)) (tk_slug (snd (hd wrong))))
         else Inr ())"

definition check_order :: "tasks \<Rightarrow> str list \<Rightarrow> tasks \<Rightarrow> task_db \<Rightarrow> exn + unit" where
  "check_order before removed selected db =
     (if removed \<noteq> [] \<or> list_ex (deps_changed_in before) selected
      then rbind (dependency_order (dict_update (filter (\<lambda>st. fst st \<notin> set removed) (task_list db)) selected))
             (\<lambda>_. Inr ())
      else Inr ())"

definition removed_slugs :: "str list \<Rightarrow> tasks \<Rightarrow> str list" where
  "removed_slugs requested selected = filter (\<lambda>s. s \<notin> set (dict_keys selected)) requested"

definition mutate_tasks :: "str list \<Rightarrow> (tasks \<Rightarrow> exn + tasks) \<Rightarrow> task_db \<Rightarrow> exn + tasks \<times> task_db" where
  "mutate_tasks slugs fn db =
     (let requested = sort (remdups slugs) in
      rbind (select_tasks requested db) (\<lambda>before.
      rbind (fn before) (\<lambda>selected.
      rbind (check_selection requested selected) (\<lambda>_.
      rbind (check_order before (removed_slugs requested selected) selected db) (\<lambda>_.
      rbind (rfold delete_db (removed_slugs requested selected) db) (\<lambda>db1.
      rbind (rfold replace_db (List.map snd (filter (changed_in before) (by_key selected))) db1) (\<lambda>db2.
        Inr (selected, db2))))))))"

definition persist_one :: "tasks \<Rightarrow> task \<Rightarrow> task_db \<Rightarrow> exn + task_db" where
  "persist_one existing t db = (case map_of existing (tk_slug t) of None \<Rightarrow> task_insert t db
     | Some previous \<Rightarrow> if \<not> task_eq previous t then replace_db t db else Inr db)"

definition persist_state :: "tasks \<Rightarrow> task_db \<Rightarrow> exn + task_db" where
  "persist_state ts db =
     (let existing = task_list db;
          gone = filter (\<lambda>s. s \<notin> set (dict_keys ts)) (dict_keys existing)
      in rbind (rfold delete_db gone db) (\<lambda>db1.
         rbind (dependency_order ts) (\<lambda>order.
           rfold (persist_one existing) (List.map (\<lambda>s. the (map_of ts s)) order) db1)))"

definition mutate :: "(tasks \<Rightarrow> exn + tasks) \<Rightarrow> task_db \<Rightarrow> exn + tasks \<times> task_db" where
  "mutate fn db = rbind (fn (task_list db)) (\<lambda>ts. rbind (persist_state ts db) (\<lambda>db'. Inr (ts, db')))"

text \<open>A slug that is no task is ignored; any other error escapes.\<close>

definition record_activity :: "str \<Rightarrow> dt \<Rightarrow> task_db \<Rightarrow> exn + task_db" where
  "record_activity slug stamp db =
     (case mutate_task slug (\<lambda>t. Inr (t\<lparr>tk_last_activity_at := Some stamp\<rparr>)) db of
        Inl (KeyError _) \<Rightarrow> Inr db
      | Inl e \<Rightarrow> Inl e
      | Inr r \<Rightarrow> Inr (snd r))"

section \<open>The tables as a store\<close>

definition wf_tasks :: "task_db \<Rightarrow> bool" where
  "wf_tasks db \<longleftrightarrow> wf_db db \<and> (\<forall>s t. task_get db s = Some t \<longrightarrow> valid_task t \<and> norm_task t = t)"

lemma wf_tasksD: "wf_tasks db \<Longrightarrow> wf_db db" "wf_tasks db \<Longrightarrow> refs_ok db"
  by (simp_all add: wf_tasks_def wf_db_def)

lemma wf_tasks_get: "wf_tasks db \<Longrightarrow> task_get db k = Some t \<Longrightarrow> tk_slug t = k \<and> valid_task t \<and> norm_task t = t"
  by (simp add: wf_tasks_def get_slug)

lemma wf_tasks_update:
  assumes "wf_db db'" and wf: "wf_tasks db" and v: "valid_task e"
    and get: "\<And>k. task_get db' k = (if k = tk_slug e then Some (norm_task e) else task_get db k)"
  shows "wf_tasks db'"
  unfolding wf_tasks_def
proof (intro conjI allI impI)
  fix k t assume "task_get db' k = Some t"
  then have "t = norm_task e \<or> task_get db k = Some t" by (simp add: get split: if_split_asm)
  then have "valid_task t \<and> norm_task t = t"
    using wf_tasks_get [OF wf, of k t] valid_norm_task [OF v] norm_task_idem [of e] by argo
  then show "valid_task t" "norm_task t = t" by (rule conjunct1, elim conjunct2)
qed (rule assms(1))

lemma replace_db_Inr: "replace_db t db = Inr db' \<longleftrightarrow> (\<exists>n. task_replace t None db = Inr (n, db'))"
  by (auto simp: replace_db_def rbind_eq_Inr)

lemma delete_db_Inr: "delete_db s db = Inr db' \<longleftrightarrow> (\<exists>b. task_delete s db = Inr (b, db'))"
  by (auto simp: delete_db_def rbind_eq_Inr)

lemma insert_law:
  assumes "wf_tasks db" and "valid_task e" and "task_insert e db = Inr db'"
  shows "task_get db' k = (if k = tk_slug e then Some (norm_task e) else task_get db k)"
  by (rule insert_get [OF wf_tasksD(1) [OF assms(1)] assms(2,3)])

lemma insert_wf_law:
  assumes "wf_tasks db" and "valid_task e" and "task_insert e db = Inr db'"
  shows "wf_tasks db'"
  by (rule wf_tasks_update [OF insert_wf [OF wf_tasksD(1) [OF assms(1)] assms(3)] assms(1,2)])
    (rule insert_law [OF assms])

lemma replace_law:
  assumes "wf_tasks db" and "valid_task e" and "replace_db e db = Inr db'"
  shows "task_get db' k = (if k = tk_slug e then Some (norm_task e) else task_get db k)"
    and "task_get db (tk_slug e) \<noteq> None" and "wf_tasks db'"
proof -
  obtain n where n: "task_replace e None db = Inr (n, db')" using assms(3) by (simp only: replace_db_Inr) (elim exE)
  note wf = wf_tasksD(1) [OF assms(1)]
  show get: "task_get db' k = (if k = tk_slug e then Some (norm_task e) else task_get db k)" for k
    by (rule replace_get(1) [OF wf assms(2) n])
  show "task_get db (tk_slug e) \<noteq> None" by (rule replace_get(2) [OF wf assms(2) n])
  show "wf_tasks db'" by (rule wf_tasks_update [OF replace_wf [OF wf assms(2) n] assms(1,2) get])
qed

lemma delete_law:
  assumes "wf_tasks db" and "delete_db x db = Inr db'"
  shows "task_get db' k = (if k = x then None else map_option (detach x) (task_get db k))"
    and "wf_tasks db'"
proof -
  obtain b where b: "task_delete x db = Inr (b, db')" using assms(2) by (simp only: delete_db_Inr) (elim exE)
  show get: "task_get db' k = (if k = x then None else map_option (detach x) (task_get db k))" for k
    by (rule delete_get [OF wf_tasksD(2) [OF assms(1)] b])
  show "wf_tasks db'"
    unfolding wf_tasks_def
  proof (intro conjI allI impI)
    fix s t assume "task_get db' s = Some t"
    then obtain u where u: "task_get db s = Some u" "t = detach x u"
      by (cases "task_get db s") (simp_all add: get split: if_split_asm)
    note old = wf_tasks_get [OF assms(1) u(1)]
    show "valid_task t" using old by (simp add: u(2) valid_detach)
    show "norm_task t = t" using old by (simp add: u(2) norm_detach)
  qed (rule delete_wf [OF wf_tasksD(1) [OF assms(1)] b])
qed

interpretation task_store: entity_store wf_tasks task_get tk_slug valid_task norm_task detach
  task_insert replace_db delete_db
proof
  fix db db' :: task_db and e :: task
  assume "task_insert e db = Inr db'"
  then show "task_get db (tk_slug e) = None" using task_insert_Inr(1) by (simp add: task_get_None)
qed (rule insert_law insert_wf_law replace_law delete_law wf_tasks_get; assumption)+

end
