(* ===== verification/Item_Manager.thy ===== *)
theory Item_Manager
  imports Item_Laws State_Manager
begin

text \<open>
  The services over work items: \<open>WorkItemStore\<close> (core/workitem_store.py) on the item tables and
  \<open>LifecycleRepository\<close> (core/persistence/lifecycle_repository.py) on tasks and items together.
  An operation that raises rolls its transaction back, so its outcome carries no database. The
  transactional backend is modelled; the reader of legacy JSON files is not.
\<close>

section \<open>WorkItemStore\<close>

definition unsafe_id :: "str \<Rightarrow> bool" where
  "unsafe_id i \<longleftrightarrow> i = [] \<or> CHR ''/'' \<in> set i \<or> CHR 0x5C \<in> set i \<or> i = ''.'' \<or> i = ''..''
     \<or> startswith i ''.''"

definition check_id :: "str \<Rightarrow> exn + unit" where
  "check_id i = (if unsafe_id i then Inl (ValueError (''unsafe work item id: '' @ quoted i)) else Inr ())"

definition check_task_owner :: "work_item \<Rightarrow> work_item list \<Rightarrow> str \<Rightarrow> unit \<Rightarrow> exn + unit" where
  "check_task_owner e others s _ = (case List.find (\<lambda>c. s \<in> set (it_task_slugs c)) others of
     Some c \<Rightarrow> Inl (TaskLinkAmbiguous s (sort [it_id c, it_id e])) | None \<Rightarrow> Inr ())"

definition check_thread_owner :: "work_item list \<Rightarrow> str \<Rightarrow> unit \<Rightarrow> exn + unit" where
  "check_thread_owner others th _ = (case List.find (\<lambda>c. th \<in> set (it_thread_ids c)) others of
     Some c \<Rightarrow> Inl (ThreadAlreadyLinked th (it_id c)) | None \<Rightarrow> Inr ())"

definition validate_ownership :: "work_item \<Rightarrow> work_item list \<Rightarrow> exn + unit" where
  "validate_ownership e candidates =
     (let others = filter (\<lambda>c. it_id c \<noteq> it_id e) candidates in
      rbind (rfold (check_task_owner e others) (it_task_slugs e) ())
        (rfold (check_thread_owner others) (it_thread_ids e)))"

definition save_item :: "work_item \<Rightarrow> item_db \<Rightarrow> exn + item_db" where
  "save_item e db =
     rbind (check_id (it_id e)) (\<lambda>_.
     rbind (validate_ownership e (item_list True db)) (\<lambda>_.
       if item_get db (it_id e) = None then item_insert e db else replace_item e db))"

text \<open>The new id carries the time and random digits: it is an argument.\<close>

definition create_item :: "str \<Rightarrow> str \<Rightarrow> item_kind \<Rightarrow> str \<Rightarrow> dt \<Rightarrow> item_db \<Rightarrow> exn + work_item \<times> item_db" where
  "create_item new_id title kind ws now db =
     (let e = \<lparr>it_id = new_id, it_title = title, it_workspace = ws, it_kind = kind, it_created_at = now,
        it_updated_at = now, it_spec_id = None, it_plan_path = None, it_task_slugs = [], it_thread_ids = [],
        it_external_links = [], it_phase_override = None, it_unattended = False, it_archived = False,
        it_affected_repos = [], it_pr_urls = [], it_extras = []\<rparr>
      in rbind (save_item e db) (\<lambda>db'. Inr (e, db')))"

definition stamp_item :: "dt option \<Rightarrow> work_item \<Rightarrow> work_item" where
  "stamp_item now e = (case now of None \<Rightarrow> e | Some t \<Rightarrow> e\<lparr>it_updated_at := t\<rparr>)"

definition mutate_item :: "str \<Rightarrow> dt option \<Rightarrow> (work_item \<Rightarrow> work_item) \<Rightarrow> item_db \<Rightarrow> exn + work_item \<times> item_db" where
  "mutate_item i now fn db =
     rbind (check_id i) (\<lambda>_. case item_get db i of None \<Rightarrow> Inl (KeyError i)
       | Some e \<Rightarrow> rbind (replace_item (stamp_item now (fn e)) db) (\<lambda>db'. Inr (stamp_item now (fn e), db')))"

definition link_spec :: "str \<Rightarrow> str \<Rightarrow> dt option \<Rightarrow> item_db \<Rightarrow> exn + work_item \<times> item_db" where
  "link_spec i spec now = mutate_item i now (\<lambda>e. e\<lparr>it_spec_id := Some spec\<rparr>)"

definition link_plan :: "str \<Rightarrow> str \<Rightarrow> dt option \<Rightarrow> item_db \<Rightarrow> exn + work_item \<times> item_db" where
  "link_plan i plan now = mutate_item i now (\<lambda>e. e\<lparr>it_plan_path := Some plan\<rparr>)"

definition add_external_link :: "str \<Rightarrow> external_link \<Rightarrow> dt option \<Rightarrow> item_db \<Rightarrow> exn + work_item \<times> item_db" where
  "add_external_link i link now = mutate_item i now (\<lambda>e. e\<lparr>it_external_links := it_external_links e @ [link]\<rparr>)"

definition set_phase_override :: "str \<Rightarrow> item_phase option \<Rightarrow> dt option \<Rightarrow> item_db \<Rightarrow> exn + work_item \<times> item_db" where
  "set_phase_override i p now = mutate_item i now (\<lambda>e. e\<lparr>it_phase_override := p\<rparr>)"

definition set_unattended :: "str \<Rightarrow> bool \<Rightarrow> dt option \<Rightarrow> item_db \<Rightarrow> exn + work_item \<times> item_db" where
  "set_unattended i on now = mutate_item i now (\<lambda>e. e\<lparr>it_unattended := on\<rparr>)"

definition archive_item :: "str \<Rightarrow> dt option \<Rightarrow> item_db \<Rightarrow> exn + work_item \<times> item_db" where
  "archive_item i now = mutate_item i now (\<lambda>e. e\<lparr>it_archived := True\<rparr>)"

definition unarchive_item :: "str \<Rightarrow> dt option \<Rightarrow> item_db \<Rightarrow> exn + work_item \<times> item_db" where
  "unarchive_item i now = mutate_item i now (\<lambda>e. e\<lparr>it_archived := False\<rparr>)"

text \<open>\<open>add_task\<close> without a state manager; with one it is \<open>link_task\<close> below.\<close>

definition owner_ids :: "str \<Rightarrow> item_db \<Rightarrow> str list" where
  "owner_ids s db = sort (List.map it_id (filter (\<lambda>c. s \<in> set (it_task_slugs c)) (item_list True db)))"

definition add_task :: "str \<Rightarrow> str \<Rightarrow> dt option \<Rightarrow> item_db \<Rightarrow> exn + item_db" where
  "add_task i s now db =
     rbind (check_id i) (\<lambda>_. case item_get db i of None \<Rightarrow> Inl (KeyError i)
       | Some e \<Rightarrow>
          if s \<in> set (it_task_slugs e) then Inr db
          else if owner_ids s db \<noteq> [] then Inl (TaskLinkAmbiguous s (sort (owner_ids s db @ [i])))
          else replace_item (stamp_item now (e\<lparr>it_task_slugs := it_task_slugs e @ [s]\<rparr>)) db)"

definition resolve_task_workitem_id :: "str \<Rightarrow> str option \<Rightarrow> item_db \<Rightarrow> exn + str option" where
  "resolve_task_workitem_id s reverse db = (case owner_ids s db of
     [] \<Rightarrow> Inr reverse | [i] \<Rightarrow> Inr (Some i) | is \<Rightarrow> Inl (TaskLinkAmbiguous s is))"

definition thread_owner :: "str \<Rightarrow> str \<Rightarrow> item_db \<Rightarrow> str option" where
  "thread_owner th exclude db = map_option it_id
     (List.find (\<lambda>c. it_id c \<noteq> exclude \<and> th \<in> set (it_thread_ids c)) (item_list True db))"

definition add_thread :: "str \<Rightarrow> str \<Rightarrow> dt option \<Rightarrow> item_db \<Rightarrow> exn + item_db" where
  "add_thread i th now db =
     rbind (check_id i) (\<lambda>_. case item_get db i of None \<Rightarrow> Inl (KeyError i)
       | Some e \<Rightarrow>
          if th \<in> set (it_thread_ids e) then Inr db
          else case thread_owner th i db of
            Some j \<Rightarrow> Inl (ThreadAlreadyLinked th j)
          | None \<Rightarrow> replace_item (stamp_item now (e\<lparr>it_thread_ids := it_thread_ids e @ [th]\<rparr>)) db)"

text \<open>Delivery metadata an item keeps of its tasks.\<close>

definition retained :: "work_item \<Rightarrow> task \<Rightarrow> work_item" where
  "retained e t = e\<lparr>it_affected_repos := fromkeys (it_affected_repos e @ tk_affected_repos t),
     it_pr_urls := fromkeys (it_pr_urls e @ dict_values (tk_pr_urls t))\<rparr>"

definition keeps_already :: "work_item \<Rightarrow> task \<Rightarrow> bool" where
  "keeps_already e t \<longleftrightarrow> it_affected_repos (retained e t) = it_affected_repos e
     \<and> it_pr_urls (retained e t) = it_pr_urls e"

definition retain_task_metadata :: "task \<Rightarrow> str option \<Rightarrow> dt \<Rightarrow> item_db \<Rightarrow> exn + bool \<times> item_db" where
  "retain_task_metadata t item_id now db =
     (case (case item_id of Some i \<Rightarrow> Some i | None \<Rightarrow> tk_work_item_id t) of
        None \<Rightarrow> Inr (True, db)
      | Some i \<Rightarrow> if i = [] then Inr (True, db) else
         rbind (check_id i) (\<lambda>_. case item_get db i of None \<Rightarrow> Inr (False, db)
           | Some e \<Rightarrow> if keeps_already e t then Inr (True, db)
               else rbind (replace_item ((retained e t)\<lparr>it_updated_at := now\<rparr>) db) (\<lambda>db'. Inr (True, db'))))"

end
