(* ===== verification/Lifecycle.thy ===== *)
theory Lifecycle
  imports Item_Manager
begin

text \<open>
  \<open>LifecycleRepository\<close> (core/persistence/lifecycle_repository.py): ownership and delivery
  metadata across the task tables and the item tables, in one transaction; and the teardown
  helpers of core/workitem_lifecycle.py. The fault-injection checkpoints do nothing.
\<close>

record workspace =
  ws_tasks :: task_db
  ws_items :: item_db

section \<open>Linking\<close>

definition require_owner_available :: "str \<Rightarrow> str \<Rightarrow> item_db \<Rightarrow> exn + work_item" where
  "require_owner_available s i db = (case item_get db i of None \<Rightarrow> Inl (KeyError i)
     | Some e \<Rightarrow> let conflicting = filter (\<lambda>j. j \<noteq> i) (owner_ids s db)
         in if conflicting \<noteq> [] then Inl (TaskLinkAmbiguous s (sort (conflicting @ [i]))) else Inr e)"

text \<open>The task and the item as \<open>_link_loaded\<close> leaves them, and whether each was changed.\<close>

definition linked_task :: "task \<Rightarrow> str \<Rightarrow> str option \<Rightarrow> task" where
  "linked_task t i spec = (let t1 = t\<lparr>tk_work_item_id := Some i\<rparr>
     in if spec \<noteq> None \<and> tk_spec_id t \<noteq> spec then t1\<lparr>tk_spec_id := spec\<rparr> else t1)"

definition task_link_changed :: "task \<Rightarrow> str \<Rightarrow> str option \<Rightarrow> bool" where
  "task_link_changed t i spec \<longleftrightarrow> tk_work_item_id t \<noteq> Some i \<or> (spec \<noteq> None \<and> tk_spec_id t \<noteq> spec)"

definition linked_item :: "work_item \<Rightarrow> str \<Rightarrow> str option \<Rightarrow> work_item" where
  "linked_item e s spec =
     (let e1 = (if s \<in> set (it_task_slugs e) then e else e\<lparr>it_task_slugs := it_task_slugs e @ [s]\<rparr>)
      in if spec \<noteq> None \<and> it_spec_id e \<noteq> spec then e1\<lparr>it_spec_id := spec\<rparr> else e1)"

definition item_link_changed :: "work_item \<Rightarrow> str \<Rightarrow> str option \<Rightarrow> bool" where
  "item_link_changed e s spec \<longleftrightarrow> s \<notin> set (it_task_slugs e) \<or> (spec \<noteq> None \<and> it_spec_id e \<noteq> spec)"

definition link_loaded :: "task \<Rightarrow> work_item \<Rightarrow> dt \<Rightarrow> str option \<Rightarrow> workspace \<Rightarrow> exn + workspace" where
  "link_loaded t e now spec ws =
     rbind (if task_link_changed t (it_id e) spec then replace_db (linked_task t (it_id e) spec) (ws_tasks ws)
            else Inr (ws_tasks ws)) (\<lambda>tdb.
     rbind (if item_link_changed e (tk_slug t) spec
            then replace_item ((linked_item e (tk_slug t) spec)\<lparr>it_updated_at := now\<rparr>) (ws_items ws)
            else Inr (ws_items ws)) (\<lambda>idb.
       Inr \<lparr>ws_tasks = tdb, ws_items = idb\<rparr>))"

definition register_task :: "task \<Rightarrow> str \<Rightarrow> dt \<Rightarrow> workspace \<Rightarrow> exn + workspace" where
  "register_task t i now ws =
     (let registered = t\<lparr>tk_work_item_id := Some i\<rparr> in
      if task_get (ws_tasks ws) (tk_slug t) \<noteq> None then Inl (KeyError (tk_slug t))
      else rbind (task_insert registered (ws_tasks ws)) (\<lambda>tdb.
           rbind (require_owner_available (tk_slug t) i (ws_items ws)) (\<lambda>e.
             link_loaded registered e now None (ws\<lparr>ws_tasks := tdb\<rparr>))))"

definition link_to_item :: "str \<Rightarrow> str \<Rightarrow> str option \<Rightarrow> dt \<Rightarrow> workspace \<Rightarrow> exn + workspace" where
  "link_to_item s i spec now ws = (case task_get (ws_tasks ws) s of None \<Rightarrow> Inl (KeyError s)
     | Some t \<Rightarrow> rbind (require_owner_available s i (ws_items ws)) (\<lambda>e. link_loaded t e now spec ws))"

definition link_task :: "str \<Rightarrow> str \<Rightarrow> dt \<Rightarrow> workspace \<Rightarrow> exn + workspace" where
  "link_task i s now = link_to_item s i None now"

definition bind_spec :: "str \<Rightarrow> str \<Rightarrow> str \<Rightarrow> dt \<Rightarrow> workspace \<Rightarrow> exn + workspace" where
  "bind_spec s i spec now = link_to_item s i (Some spec) now"

section \<open>Retention\<close>

definition task_changed_msg :: str where
  "task_changed_msg = ''its Task revision changed after external checks''"

definition validate_expected :: "task \<Rightarrow> task option \<Rightarrow> exn + unit" where
  "validate_expected t expected = (case expected of None \<Rightarrow> Inr ()
     | Some x \<Rightarrow> if task_eq t x then Inr () else Inl (RetentionConflict (tk_slug t) task_changed_msg))"

definition resolve_owner_item :: "task \<Rightarrow> bool \<Rightarrow> item_db \<Rightarrow> exn + work_item option" where
  "resolve_owner_item t allow_missing db =
     (let owners = owner_ids (tk_slug t) db in
      if 1 < length owners
      then Inl (RetentionConflict (tk_slug t) (''forward WorkItem link is ambiguous ('' @ join '', '' owners @ '')''))
      else case (case owners of i # _ \<Rightarrow> Some i | [] \<Rightarrow> tk_work_item_id t) of
        None \<Rightarrow> Inr None
      | Some i \<Rightarrow> case item_get db i of
          Some e \<Rightarrow> Inr (Some e)
        | None \<Rightarrow> if allow_missing then Inr None
            else Inl (RetentionConflict (tk_slug t) (''linked work item '' @ quoted i @ '' is unavailable'')))"

definition retain_loaded :: "task \<Rightarrow> dt \<Rightarrow> bool \<Rightarrow> item_db \<Rightarrow> exn + bool \<times> item_db" where
  "retain_loaded t now allow_missing db =
     rbind (resolve_owner_item t allow_missing db) (\<lambda>owner. case owner of None \<Rightarrow> Inr (False, db)
       | Some e \<Rightarrow> if keeps_already e t then Inr (False, db)
           else rbind (replace_item ((retained e t)\<lparr>it_updated_at := now\<rparr>) db) (\<lambda>db'. Inr (True, db')))"

definition check_recorded :: "task \<Rightarrow> str \<times> str \<Rightarrow> unit \<Rightarrow> exn + unit" where
  "check_recorded t ru _ = (case map_of (tk_pr_urls t) (fst ru) of None \<Rightarrow> Inr ()
     | Some recorded \<Rightarrow> if recorded = snd ru then Inr () else
         Inl (RetentionConflict (tk_slug t) (fst ru @ '': recorded PR URL '' @ quoted recorded
           @ '' does not match verified URL '' @ quoted (snd ru))))"

definition adopted :: "task \<Rightarrow> str dict \<Rightarrow> dt \<Rightarrow> str option \<Rightarrow> task" where
  "adopted t urls finished base = t\<lparr>tk_pr_urls := dict_update (tk_pr_urls t) urls,
     tk_finished_at := (if tk_finished_at t = None then Some finished else tk_finished_at t),
     tk_base_branch := (if \<not> truthy (tk_base_branch t) \<and> base \<noteq> None then base else tk_base_branch t)\<rparr>"

definition adopt_merged_metadata ::
    "task \<Rightarrow> str dict \<Rightarrow> dt \<Rightarrow> str option \<Rightarrow> dt \<Rightarrow> workspace \<Rightarrow> exn + bool \<times> workspace" where
  "adopt_merged_metadata expected urls finished base now ws =
     (case task_get (ws_tasks ws) (tk_slug expected) of
        None \<Rightarrow> Inl (RetentionConflict (tk_slug expected) ''its Task disappeared after external checks'')
      | Some t \<Rightarrow>
          rbind (validate_expected t (Some expected)) (\<lambda>_.
          rbind (rfold (check_recorded t) urls ()) (\<lambda>_.
          let t' = adopted t urls finished base; changed = \<not> task_eq t' expected in
          rbind (if changed then replace_db t' (ws_tasks ws) else Inr (ws_tasks ws)) (\<lambda>tdb.
          rbind (retain_loaded t' now True (ws_items ws)) (\<lambda>r.
            Inr (changed \<or> fst r, \<lparr>ws_tasks = tdb, ws_items = snd r\<rparr>))))))"

definition retain_and_delete_task :: "str \<Rightarrow> dt \<Rightarrow> task option \<Rightarrow> workspace \<Rightarrow> exn + bool \<times> workspace" where
  "retain_and_delete_task s now expected ws = (case task_get (ws_tasks ws) s of
       None \<Rightarrow> if expected \<noteq> None then Inl (RetentionConflict s task_changed_msg) else Inr (False, ws)
     | Some t \<Rightarrow>
         rbind (validate_expected t expected) (\<lambda>_.
         rbind (retain_loaded t now False (ws_items ws)) (\<lambda>r.
         rbind (task_delete s (ws_tasks ws)) (\<lambda>d.
           Inr (fst d, \<lparr>ws_tasks = snd d, ws_items = snd r\<rparr>)))))"

definition load_expected :: "task_db \<Rightarrow> str \<times> task \<Rightarrow> exn + str \<times> task" where
  "load_expected db se = (case task_get db (fst se) of
       None \<Rightarrow> Inl (RetentionConflict (fst se) task_changed_msg)
     | Some t \<Rightarrow> rbind (validate_expected t (Some (snd se))) (\<lambda>_. Inr (fst se, t)))"

definition retain_step :: "dt \<Rightarrow> str \<times> task \<Rightarrow> item_db \<Rightarrow> exn + item_db" where
  "retain_step now st db = rbind (retain_loaded (snd st) now False db) (\<lambda>r. Inr (snd r))"

definition retain_and_delete_tasks :: "tasks \<Rightarrow> dt \<Rightarrow> workspace \<Rightarrow> exn + str set \<times> workspace" where
  "retain_and_delete_tasks expected now ws =
     rbind (rmap (load_expected (ws_tasks ws)) expected) (\<lambda>loaded.
     rbind (rfold (retain_step now) loaded (ws_items ws)) (\<lambda>idb.
     rbind (rfold delete_db (dict_keys loaded) (ws_tasks ws)) (\<lambda>tdb.
       Inr (set (dict_keys loaded), \<lparr>ws_tasks = tdb, ws_items = idb\<rparr>))))"

definition retain_and_prune_task_repos ::
    "str \<Rightarrow> str list \<Rightarrow> dt \<Rightarrow> task option \<Rightarrow> workspace \<Rightarrow> exn + bool \<times> workspace" where
  "retain_and_prune_task_repos s repos now expected ws = (case task_get (ws_tasks ws) s of
       None \<Rightarrow> if expected \<noteq> None then Inl (RetentionConflict s task_changed_msg) else Inr (False, ws)
     | Some t \<Rightarrow>
         rbind (validate_expected t expected) (\<lambda>_.
         let t' = t\<lparr>tk_worktrees := filter (\<lambda>kv. fst kv \<notin> set repos) (tk_worktrees t)\<rparr> in
         if tk_worktrees t' \<noteq> []
         then rbind (replace_db t' (ws_tasks ws)) (\<lambda>tdb. Inr (False, ws\<lparr>ws_tasks := tdb\<rparr>))
         else rbind (retain_loaded t' now False (ws_items ws)) (\<lambda>r.
              rbind (task_delete s (ws_tasks ws)) (\<lambda>d.
                Inr (True, \<lparr>ws_tasks = snd d, ws_items = snd r\<rparr>)))))"

definition record_pr_urls :: "str \<Rightarrow> str dict \<Rightarrow> dt \<Rightarrow> bool \<Rightarrow> workspace \<Rightarrow> exn + task \<times> workspace" where
  "record_pr_urls s urls now allow_unreadable ws = (case task_get (ws_tasks ws) s of
       None \<Rightarrow> Inl (KeyError s)
     | Some t \<Rightarrow>
         let t' = t\<lparr>tk_pr_urls := dict_update (tk_pr_urls t) urls\<rparr> in
         rbind (replace_db t' (ws_tasks ws)) (\<lambda>tdb.
         rbind (retain_loaded t' now allow_unreadable (ws_items ws)) (\<lambda>r.
           Inr (t', \<lparr>ws_tasks = tdb, ws_items = snd r\<rparr>))))"

section \<open>Teardown helpers\<close>

record retained_metadata =
  rm_work_item_id :: "str option"
  rm_affected_repos :: "str set"
  rm_pr_urls :: "str set"

definition task_metadata :: "task \<Rightarrow> retained_metadata" where
  "task_metadata t = \<lparr>rm_work_item_id = tk_work_item_id t, rm_affected_repos = set (tk_affected_repos t),
     rm_pr_urls = set (dict_values (tk_pr_urls t))\<rparr>"

definition retain_on_teardown :: "task \<Rightarrow> dt \<Rightarrow> item_db \<Rightarrow> exn + retained_metadata \<times> item_db" where
  "retain_on_teardown t now db =
     (case resolve_task_workitem_id (tk_slug t) (tk_work_item_id t) db of
        Inl (TaskLinkAmbiguous s is) \<Rightarrow>
          Inl (RetentionConflict (tk_slug t) (''forward WorkItem link is ambiguous ('' @ join '', '' is @ '')''))
      | Inl err \<Rightarrow> Inl err
      | Inr item_id \<Rightarrow> if \<not> truthy item_id then Inr (task_metadata t, db) else
          (case retain_task_metadata t item_id now db of
             Inr (True, db') \<Rightarrow> Inr (task_metadata t, db')
           | Inr (False, _) \<Rightarrow> Inl (RetentionConflict (tk_slug t)
               (''linked work item '' @ quoted (the item_id) @ '' is unavailable''))
           | Inl (ValueError _) \<Rightarrow> Inl (RetentionConflict (tk_slug t)
               (''linked work item '' @ quoted (the item_id) @ '' is unavailable''))
           | Inl err \<Rightarrow> Inl err))"

definition require_retained :: "task \<Rightarrow> retained_metadata option \<Rightarrow> exn + unit" where
  "require_retained t kept = (case kept of
       None \<Rightarrow> Inl (RetentionConflict (tk_slug t) ''no durable metadata snapshot was recorded'')
     | Some r \<Rightarrow> let c = task_metadata t in
         if rm_work_item_id c \<noteq> rm_work_item_id r \<or> \<not> rm_affected_repos c \<subseteq> rm_affected_repos r
            \<or> \<not> rm_pr_urls c \<subseteq> rm_pr_urls r
         then Inl (RetentionConflict (tk_slug t) ''its delivery metadata changed after it was retained'')
         else Inr ())"

end
