(* ===== verification/Task_Laws.thy ===== *)
theory Task_Laws
  imports State_Manager
begin

text \<open>
  What the state manager promises: equality of tasks against the stored normal form, insertion
  and replacement that respect the references go through, and the effect of the read-modify-write
  operations on the mapping of slugs to tasks.
\<close>

section \<open>Equal tasks have one normal form\<close>

lemma dict_eq_set:
  assumes "dict_eq eq d e" and "dict_ok d" and "dict_ok e"
    and same: "\<And>k x y. (k, x) \<in> set d \<Longrightarrow> (k, y) \<in> set e \<Longrightarrow> eq x y \<Longrightarrow> f x = f y"
  shows "set (List.map (\<lambda>kv. (fst kv, f (snd kv))) d) = set (List.map (\<lambda>kv. (fst kv, f (snd kv))) e)"
    (is "set ?d = set ?e")
proof (rule card_subset_eq)
  show "set ?d \<subseteq> set ?e"
  proof
    fix p assume "p \<in> set ?d"
    then obtain k x where x: "(k, x) \<in> set d" "p = (k, f x)" by auto
    from assms(1) x(1) have "\<exists>y. map_of e k = Some y \<and> eq x y"
      by (auto simp: dict_eq_def split: option.splits)
    then obtain y where y: "map_of e k = Some y" "eq x y" by blast
    then have "(k, y) \<in> set e" by (simp add: map_of_SomeD)
    from same [OF x(1) this y(2)] \<open>(k, y) \<in> set e\<close> x(2) show "p \<in> set ?e" by force
  qed
  have "distinct (List.map fst ?d)" "distinct (List.map fst ?e)"
    using assms(2,3) by (simp_all add: dict_ok_def o_def)
  then have "distinct ?d" "distinct ?e" by (simp_all only: distinct_map)
  then have "card (set ?d) = length d" "card (set ?e) = length e"
    by (simp_all only: distinct_card length_map)
  then show "card (set ?d) = card (set ?e)" using assms(1) by (simp add: dict_eq_def)
qed simp

lemma dict_eq_by_key:
  assumes "dict_eq eq d e" and "dict_ok d" and "dict_ok e"
    and "\<And>k x y. (k, x) \<in> set d \<Longrightarrow> (k, y) \<in> set e \<Longrightarrow> eq x y \<Longrightarrow> f x = f y"
  shows "List.map (\<lambda>kv. (fst kv, f (snd kv))) (by_key d) = List.map (\<lambda>kv. (fst kv, f (snd kv))) (by_key e)"
proof -
  have "by_key (List.map (\<lambda>kv. (fst kv, f (snd kv))) d) = by_key (List.map (\<lambda>kv. (fst kv, f (snd kv))) e)"
    unfolding by_key_def
    by (rule sort_key_set_unique [OF _ _ dict_eq_set [OF assms]])
      (use assms(2,3) in \<open>simp_all add: dict_ok_def o_def\<close>)
  then show ?thesis by (simp add: by_key_def sort_key_map)
qed

lemma dict_eq_plain:
  assumes "dict_eq (=) d e" and "dict_ok d" and "dict_ok e"
  shows "by_key d = by_key e"
  using dict_eq_by_key [OF assms, of id] by simp

lemma dt_eq_norm: "dt_eq a b \<Longrightarrow> norm_dt a = norm_dt b"
  by (simp add: dt_eq_def norm_dt_def)

lemma dt_opt_eq_norm: "dt_opt_eq a b \<Longrightarrow> map_option norm_dt a = map_option norm_dt b"
  by (cases a; cases b) (auto simp: dt_opt_eq_def dt_eq_norm)

lemma edges_eq_norm:
  assumes "edges_eq xs ys"
  shows "List.map (\<lambda>e. e\<lparr>de_created_at := norm_dt (de_created_at e)\<rparr>)
      (sort_key (\<lambda>e. (instant (de_created_at e), upstream_slug e)) xs) =
    List.map (\<lambda>e. e\<lparr>de_created_at := norm_dt (de_created_at e)\<rparr>)
      (sort_key (\<lambda>e. (instant (de_created_at e), upstream_slug e)) ys)"
proof -
  let ?n = "\<lambda>e. e\<lparr>de_created_at := norm_dt (de_created_at e)\<rparr>"
  let ?k = "\<lambda>e. (instant (de_created_at e), upstream_slug e)"
  have "list_all2 (\<lambda>a b. ?n a = ?n b) xs ys"
    using assms unfolding edges_eq_def
    by (rule list_all2_mono) (auto simp: edge_eq_def dt_eq_norm intro!: dependency_edge.equality)
  then have "List.map ?n xs = List.map ?n ys" by (simp add: list_all2_conv_all_nth list_eq_iff_nth_eq)
  then have "sort_key ?k (List.map ?n xs) = sort_key ?k (List.map ?n ys)" by simp
  then show ?thesis by (simp add: sort_key_map norm_dt_def)
qed

lemma norm_task_eq:
  assumes eq: "task_eq a b" and "valid_task a" and "valid_task b"
  shows "norm_task a = norm_task b"
proof (rule task.equality)
  have ok: "dict_ok (tk_worktrees a)" "dict_ok (tk_worktrees b)" "dict_ok (tk_test_results a)"
    "dict_ok (tk_test_results b)" "dict_ok (tk_pr_urls a)" "dict_ok (tk_pr_urls b)"
    "dict_ok (tk_last_switched_at_sha a)" "dict_ok (tk_last_switched_at_sha b)"
    and inner: "\<And>k x. (k, x) \<in> set (tk_last_switched_at_sha a) \<Longrightarrow> dict_ok x"
    "\<And>k x. (k, x) \<in> set (tk_last_switched_at_sha b) \<Longrightarrow> dict_ok x"
    using assms(2,3) by (auto simp: valid_task_def list_all_iff)
  show "tk_worktrees (norm_task a) = tk_worktrees (norm_task b)"
    using eq dict_eq_plain [OF _ ok(1,2)] by (simp add: norm_task_def task_eq_def)
  show "tk_pr_urls (norm_task a) = tk_pr_urls (norm_task b)"
    using eq dict_eq_plain [OF _ ok(5,6)] by (simp add: norm_task_def task_eq_def)
  have "x\<lparr>tr_at := norm_dt (tr_at x)\<rparr> = y\<lparr>tr_at := norm_dt (tr_at y)\<rparr>" if "result_eq x y" for x y
    using that by (auto simp: result_eq_def dt_eq_norm intro!: test_result.equality)
  then show "tk_test_results (norm_task a) = tk_test_results (norm_task b)"
    using eq dict_eq_by_key [OF _ ok(3,4), of result_eq "\<lambda>x. x\<lparr>tr_at := norm_dt (tr_at x)\<rparr>"]
    by (simp add: norm_task_def task_eq_def)
  have "by_key x = by_key y" if "(k, x) \<in> set (tk_last_switched_at_sha a)"
    "(k, y) \<in> set (tk_last_switched_at_sha b)" "dict_eq (=) x y" for k x y
    using that inner dict_eq_plain by blast
  then show "tk_last_switched_at_sha (norm_task a) = tk_last_switched_at_sha (norm_task b)"
    using eq dict_eq_by_key [OF _ ok(7,8), of "dict_eq (=)" by_key] by (simp add: norm_task_def task_eq_def)
  show "tk_depends_on (norm_task a) = tk_depends_on (norm_task b)"
    using eq edges_eq_norm by (simp add: norm_task_def task_eq_def)
qed (use eq in \<open>simp_all add: norm_task_def task_eq_def dt_eq_norm dt_opt_eq_norm\<close>)

lemma mutate_law:
  assumes wf: "wf_tasks db" and b: "task_get db slug = Some b" and fn: "fn b = Inr t" and valid: "valid_task t"
    and slug: "tk_slug t = slug" and m: "mutate_task slug fn db = Inr (r, db')"
  shows "r = t" and "wf_tasks db'"
    and "task_get db' s = (if s = slug then Some (norm_task t) else task_get db s)"
proof -
  have "r = t \<and> wf_tasks db' \<and> (\<forall>s. task_get db' s = (if s = slug then Some (norm_task t) else task_get db s))"
  proof (cases "task_eq t b")
    case False
    then have "replace_db t db = Inr db'" "r = t"
      using m slug b fn by (auto simp: mutate_task_def result_simps)
    with replace_law [OF wf valid] slug show ?thesis by blast
  next
    case True
    then have "r = t" "db' = db" using m slug b fn by (auto simp: mutate_task_def)
    moreover have "b = norm_task t"
      using norm_task_eq [OF True valid] wf_tasks_get [OF wf b] by simp
    ultimately show ?thesis using wf b by simp
  qed
  then show "r = t" "wf_tasks db'"
    "task_get db' s = (if s = slug then Some (norm_task t) else task_get db s)" by blast+
qed

lemma dict_eq_sym:
  assumes "dict_eq eq d e" and ok: "dict_ok d" "dict_ok e"
    and sym: "\<And>k x y. (k, x) \<in> set d \<Longrightarrow> (k, y) \<in> set e \<Longrightarrow> eq x y \<Longrightarrow> eq' y x"
  shows "dict_eq eq' e d"
proof -
  have fwd: "\<exists>y. map_of e k = Some y \<and> eq x y" if "(k, x) \<in> set d" for k x
    using assms(1) that by (auto simp: dict_eq_def split: option.splits)
  have "set (dict_keys d) \<subseteq> set (dict_keys e)"
  proof
    fix k assume "k \<in> set (dict_keys d)"
    then obtain x where "(k, x) \<in> set d" by auto
    with fwd show "k \<in> set (dict_keys e)" by (force dest: map_of_SomeD)
  qed
  moreover have "card (set (dict_keys d)) = card (set (dict_keys e))"
    using ok assms(1) by (simp add: dict_ok_def dict_eq_def distinct_card del: set_map)
  ultimately have keys: "set (dict_keys d) = set (dict_keys e)" by (intro card_subset_eq) simp_all
  have "case map_of d (fst kv) of None \<Rightarrow> False | Some w \<Rightarrow> eq' (snd kv) w" if kv: "kv \<in> set e" for kv
  proof -
    have "fst kv \<in> set (dict_keys d)" using kv unfolding keys by simp
    then obtain x where x: "map_of d (fst kv) = Some x"
      by (cases "map_of d (fst kv)") (simp_all add: map_of_eq_None_iff)
    from fwd [OF map_of_SomeD [OF x]] obtain y where y: "map_of e (fst kv) = Some y" "eq x y" by blast
    have "map_of e (fst kv) = Some (snd kv)" using kv ok(2) by (simp add: dict_ok_def)
    with y sym [OF map_of_SomeD [OF x]] kv x show ?thesis by (cases kv) simp
  qed
  then show ?thesis using assms(1) by (simp add: dict_eq_def)
qed

lemma task_eq_sym:
  assumes eq: "task_eq a b" and "valid_task a" and "valid_task b"
  shows "task_eq b a"
proof -
  have ok: "dict_ok (tk_worktrees a)" "dict_ok (tk_worktrees b)" "dict_ok (tk_test_results a)"
    "dict_ok (tk_test_results b)" "dict_ok (tk_pr_urls a)" "dict_ok (tk_pr_urls b)"
    "dict_ok (tk_last_switched_at_sha a)" "dict_ok (tk_last_switched_at_sha b)"
    and inner: "\<And>k x. (k, x) \<in> set (tk_last_switched_at_sha a) \<Longrightarrow> dict_ok x"
    "\<And>k x. (k, x) \<in> set (tk_last_switched_at_sha b) \<Longrightarrow> dict_ok x"
    using assms(2,3) by (auto simp: valid_task_def list_all_iff)
  have opt: "dt_opt_eq y x" if "dt_opt_eq x y" for x y
    using that by (cases x; cases y) (simp_all add: dt_opt_eq_def dt_eq_def)
  have edges: "edges_eq ys xs" if "edges_eq xs ys" for xs ys
    using that unfolding edges_eq_def
    by (simp add: list_all2_conv_all_nth edge_eq_def dt_eq_def)
  have "dict_eq (dict_eq (=)) (tk_last_switched_at_sha b) (tk_last_switched_at_sha a)"
  proof (rule dict_eq_sym [OF _ ok(7,8)])
    show "dict_eq (dict_eq (=)) (tk_last_switched_at_sha a) (tk_last_switched_at_sha b)"
      using eq by (simp add: task_eq_def)
  qed (use inner dict_eq_sym [of "(=)" _ _ "(=)"] in blast)
  moreover have "dict_eq result_eq (tk_test_results b) (tk_test_results a)"
    by (rule dict_eq_sym [of result_eq, OF _ ok(3,4)])
      (use eq in \<open>simp_all add: task_eq_def result_eq_def dt_eq_def\<close>)
  ultimately show ?thesis
    using eq dict_eq_sym [of "(=)" _ _ "(=)", OF _ ok(1,2)] dict_eq_sym [of "(=)" _ _ "(=)", OF _ ok(5,6)]
      opt edges by (simp add: task_eq_def dt_eq_def)
qed

section \<open>Insertion goes through\<close>

lemma insert_total:
  assumes wf: "wf_db db" and valid: "valid_task t" and new: "tk_slug t \<notin> set (db_slugs db)"
    and ups: "\<forall>u \<in> upstream_slug ` set (tk_depends_on t). u \<in> set (db_slugs db)"
  shows "\<exists>db'. task_insert t db = Inr db'"
proof -
  let ?k = "tk_slug t"
  let ?db1 = "db\<lparr>db_tasks := db_tasks db @ [scalar_values 0 t]\<rparr>"
  have refs: "refs_ok db" using wf by (simp add: wf_db_def)
  have slugs: "db_slugs ?db1 = db_slugs db @ [?k]" by (simp add: db_slugs_def scalar_values_def)
  have "check_scalars t = Inr ()" using valid by (simp add: check_scalars_def valid_task_def)
  moreover have "insert_row ''tasks'' w_slug (\<lambda>_. True) (scalar_values 0 t) (db_tasks db) = Inr (db_tasks ?db1)"
    using new by (simp add: insert_row_def db_slugs_def scalar_values_def)
  moreover
  have other: "\<forall>q \<in> set (db_task_repos db). rr_task q \<noteq> ?k" using refs new by (auto simp: refs_ok_def)
  let ?rows = "db_task_repos db @ task_repo_values t"
  have "distinct (List.map rr_repo (task_repo_values t))"
    using valid by (intro distinct_repo_values) (simp add: valid_task_def)
  then have "distinct (repo_names t)" by (simp add: task_repo_values_rows o_def)
  then have "rfold (insert_repo_row (db_slugs ?db1)) (task_repo_values t) (db_task_repos ?db1) = Inr ?rows"
    unfolding task_repo_values_rows using other
    by (subst insert_final_rows) (auto simp: slugs final_rows_def)
  moreover
  have own: "own (?db1\<lparr>db_task_repos := ?rows\<rparr>) ?k = \<lparr>ow_repos = filter (\<lambda>q. rr_task q = ?k) ?rows,
      ow_results = [], ow_prs = [], ow_sources = [], ow_anchors = [], ow_deps = []\<rparr>"
    using own_eqD [OF own_absent [OF refs new]] by (simp add: own_def)
  have "db_slugs (?db1\<lparr>db_task_repos := ?rows\<rparr>) = db_slugs db @ [?k]" using slugs by (simp add: db_slugs_def)
  then have "\<exists>db'. insert_children t (?db1\<lparr>db_task_repos := ?rows\<rparr>) = Inr db'"
    using insert_children_ok [OF valid _ _ own] ups by auto
  ultimately show ?thesis unfolding task_insert_def by (auto simp: Let_def)
qed

section \<open>Saving a whole state\<close>

lemma rfold_filter:
  "(\<And>e db. e \<in> set es \<Longrightarrow> \<not> P e \<Longrightarrow> f e db = Inr db) \<Longrightarrow> rfold f es db = rfold f (filter P es) db"
proof (induction es arbitrary: db)
  case (Cons e es)
  have IH: "rfold f es db' = rfold f (filter P es) db'" for db'
    by (rule Cons.IH) (simp add: Cons.prems)
  show ?case by (cases "P e"; cases "f e db") (simp_all add: IH Cons.prems)
qed simp

lemma dict_keys_task_list: "dict_keys (task_list db) = sort (db_slugs db)"
proof -
  have "dict_keys (List.map_filter (\<lambda>s. map_option (\<lambda>t. (s, t)) (task_get db s)) xs) = xs"
    if "set xs \<subseteq> set (db_slugs db)" for xs
    using that
  proof (induction xs)
    case (Cons x xs)
    then obtain t where "task_get db x = Some t" by (cases "task_get db x") (simp_all add: task_get_None)
    with Cons show ?case by (simp add: List.map_filter_simps)
  qed (simp add: List.map_filter_simps)
  then show ?thesis by (simp add: task_list_def)
qed

lemma map_of_task_list [simp]:
  shows "map_of (task_list db) s = task_get db s"
proof -
  have "map_of (List.map_filter (\<lambda>s. map_option (\<lambda>t. (s, t)) (task_get db s)) xs) s =
      (if s \<in> set xs then task_get db s else None)" for xs
  proof (induction xs)
    case (Cons x xs)
    then show ?case by (cases "task_get db x") (simp_all add: List.map_filter_simps)
  qed (simp add: List.map_filter_simps)
  then show ?thesis using task_get_None [of db s] by (auto simp: task_list_def)
qed

definition gone :: "tasks \<Rightarrow> task_db \<Rightarrow> str list" where
  "gone ts db = filter (\<lambda>s. s \<notin> set (dict_keys ts)) (dict_keys (task_list db))"

definition unchanged :: "task_db \<Rightarrow> task \<Rightarrow> bool" where
  "unchanged db t \<longleftrightarrow> (case task_get db (tk_slug t) of None \<Rightarrow> False | Some p \<Rightarrow> task_eq p t)"

definition write_new :: "tasks \<Rightarrow> task \<Rightarrow> task \<Rightarrow> task_db \<Rightarrow> exn + task_db" where
  "write_new existing t = (if map_of existing (tk_slug t) = None then task_insert else replace_db)"

lemma persist_one_cases:
  "persist_one (task_list db) t db1 = (if unchanged db t then Inr db1 else write_new (task_list db) t t db1)"
  by (simp add: persist_one_def unchanged_def write_new_def split: option.split)

definition ordered_tasks :: "tasks \<Rightarrow> str list \<Rightarrow> task list" where
  "ordered_tasks ts order = List.map (\<lambda>s. the (map_of ts s)) order"

lemma ordered_tasks_props:
  assumes "dict_ok ts" and "keyed ts" and "distinct order" and "set order = set (dict_keys ts)"
  shows "List.map tk_slug (ordered_tasks ts order) = order"
    and "set (ordered_tasks ts order) = set (dict_values ts)"
proof -
  have entry: "map_of ts s = Some t \<Longrightarrow> tk_slug t = s" for s t
    using assms(2) map_of_SomeD [of ts s t] by (auto simp: keyed_def)
  have "tk_slug (the (map_of ts s)) = s" if s: "s \<in> set order" for s
  proof -
    obtain t where "map_of ts s = Some t"
      using s assms(4) by (cases "map_of ts s") (simp_all add: map_of_eq_None_iff)
    with entry show ?thesis by simp
  qed
  then show "List.map tk_slug (ordered_tasks ts order) = order"
    by (simp add: ordered_tasks_def o_def map_idI)
  have "set (ordered_tasks ts order) = (\<lambda>s. the (map_of ts s)) ` fst ` set ts"
    using assms(4) by (simp add: ordered_tasks_def)
  also have "\<dots> = snd ` set ts"
    unfolding image_image using assms(1) by (intro image_cong) (auto simp: dict_ok_def)
  finally show "set (ordered_tasks ts order) = set (dict_values ts)" by simp
qed

lemma dependency_order_keys: "dependency_order ts = Inr order \<Longrightarrow> keyed ts"
  by (auto simp: dependency_order_def keyed_def filter_empty_conv split: list.splits)

lemma persist_state_steps:
  assumes "persist_state ts db = Inr db'"
  obtains db1 order where "rfold delete_db (gone ts db) db = Inr db1" and "keyed ts"
    and "dependency_order ts = Inr order"
    and "rfold (\<lambda>t. write_new (task_list db) t t) (filter (\<lambda>t. \<not> unchanged db t) (ordered_tasks ts order)) db1 = Inr db'"
proof -
  obtain db1 order where del: "rfold delete_db (gone ts db) db = Inr db1"
    and order: "dependency_order ts = Inr order"
    and w: "rfold (persist_one (task_list db)) (ordered_tasks ts order) db1 = Inr db'"
    using assms by (auto simp: persist_state_def Let_def result_simps gone_def ordered_tasks_def)
  have k: "keyed ts" by (rule dependency_order_keys [OF order])
  have "rfold (persist_one (task_list db)) (ordered_tasks ts order) db1 =
      rfold (persist_one (task_list db)) (filter (\<lambda>t. \<not> unchanged db t) (ordered_tasks ts order)) db1"
    by (rule rfold_filter) (simp add: persist_one_cases)
  also have "\<dots> = rfold (\<lambda>t. write_new (task_list db) t t) (filter (\<lambda>t. \<not> unchanged db t) (ordered_tasks ts order)) db1"
    by (rule rfold_cong) (auto simp: persist_one_cases)
  finally show ?thesis using that del order w k by simp
qed

lemma writes_new:
  assumes "valid_task t"
  shows "task_store.writes (write_new existing t) t"
  unfolding write_new_def using task_store.writes_ins [OF assms] task_store.writes_repl [OF assms] by simp

lemma fold_detach_norm: "norm_task (fold detach xs t) = fold detach xs (norm_task t)"
  by (induction xs arbitrary: t) (simp_all add: norm_detach)

lemma fold_detach_slug [simp]: "tk_slug (fold detach xs t) = tk_slug t"
  by (induction xs arbitrary: t) (simp_all add: detach_def)

lemma fold_detach_id:
  "\<forall>u \<in> upstream_slug ` set (tk_depends_on t). u \<notin> set xs \<Longrightarrow> fold detach xs t = t"
proof (induction xs)
  case (Cons x xs)
  then have "detach x t = t" by (auto simp: detach_def filter_id_conv intro!: task.equality)
  with Cons show ?case by simp
qed simp

lemma persist_effect:
  assumes wf: "wf_tasks db" and ok: "dict_ok ts" and valid: "\<forall>t \<in> set (dict_values ts). valid_task t"
    and saved: "persist_state ts db = Inr db'"
  shows "wf_tasks db'"
    and "task_get db' s = (case map_of ts s of None \<Rightarrow> None | Some t \<Rightarrow>
      Some (norm_task (if unchanged db t then fold detach (gone ts db) t else t)))"
proof -
  obtain db1 order where del: "rfold delete_db (gone ts db) db = Inr db1" and k: "keyed ts"
    and order: "dependency_order ts = Inr order"
    and w: "rfold (\<lambda>t. write_new (task_list db) t t) (filter (\<lambda>t. \<not> unchanged db t) (ordered_tasks ts order)) db1 = Inr db'"
    using persist_state_steps [OF saved] .
  have inv: "distinct order" "set order = set (dict_keys ts)"
    using dependency_order_inv [OF ok k order] by (simp_all add: order_inv_def)
  note ord = ordered_tasks_props [OF ok k inv]
  have D: "wf_tasks db1" and get1: "\<And>j. task_get db1 j = (if j \<in> set (gone ts db) then None
      else map_option (fold detach (gone ts db)) (task_get db j))"
    using task_store.del_all [OF wf del] by auto
  let ?es = "filter (\<lambda>t. \<not> unchanged db t) (ordered_tasks ts order)"
  have dist: "distinct (List.map tk_slug (ordered_tasks ts order))" by (simp only: ord(1) inv(1))
  then have "distinct (List.map tk_slug ?es)" by (rule distinct_map_filter)
  moreover have "\<forall>t \<in> set ?es. task_store.writes (write_new (task_list db) t) t"
    using valid unfolding ord(2) [symmetric] by (simp add: writes_new)
  ultimately have W: "wf_tasks db'" "\<And>t. t \<in> set ?es \<Longrightarrow> task_get db' (tk_slug t) = Some (norm_task t)"
    "\<And>j. j \<notin> set (List.map tk_slug ?es) \<Longrightarrow> task_get db' j = task_get db1 j"
    using task_store.write_all [OF D, of ?es "write_new (task_list db)" db'] w by blast+
  show "wf_tasks db'" by (rule W(1))
  show "task_get db' s = (case map_of ts s of None \<Rightarrow> None | Some t \<Rightarrow>
      Some (norm_task (if unchanged db t then fold detach (gone ts db) t else t)))"
  proof (cases "map_of ts s")
    case None
    then have "s \<notin> set (dict_keys ts)" by (simp add: map_of_eq_None_iff)
    moreover have "set (List.map tk_slug ?es) \<subseteq> set (List.map tk_slug (ordered_tasks ts order))" by auto
    ultimately have "s \<notin> set (List.map tk_slug ?es)" unfolding ord(1) inv(2) by blast
    moreover have "task_get db s \<noteq> None \<Longrightarrow> s \<in> set (gone ts db)"
      using \<open>s \<notin> set (dict_keys ts)\<close> task_get_None [of db s]
      by (simp only: gone_def dict_keys_task_list set_filter set_sort mem_Collect_eq) blast
    ultimately show ?thesis using None W(3) get1 by (cases "task_get db s") simp_all
  next
    case (Some t)
    then have mem: "t \<in> set (ordered_tasks ts order)" and slug: "tk_slug t = s"
      using k map_of_SomeD [OF Some] unfolding ord(2) by (force simp: keyed_def)+
    show ?thesis
    proof (cases "unchanged db t")
      case False
      with mem W(2) Some slug show ?thesis by auto
    next
      case True
      then obtain p where p: "task_get db s = Some p" "task_eq p t"
        by (auto simp: unchanged_def slug split: option.splits)
      have "valid_task t" using mem valid unfolding ord(2) by blast
      with wf_tasks_get [OF wf p(1)] p(2) have norm: "p = norm_task t" using norm_task_eq by metis
      have "s \<notin> set (List.map tk_slug ?es)"
      proof
        assume "s \<in> set (List.map tk_slug ?es)"
        then obtain q where q: "q \<in> set (ordered_tasks ts order)" "\<not> unchanged db q" "tk_slug q = s" by auto
        have "inj_on tk_slug (set (ordered_tasks ts order))"
          using dist by (simp only: distinct_map)
        with q mem slug have "q = t" by (auto dest: inj_onD)
        with q True show False by simp
      qed
      moreover have "s \<notin> set (gone ts db)" using Some by (auto simp: gone_def map_of_eq_None_iff [symmetric])
      ultimately show ?thesis using W(3) get1 p(1) Some True norm by (simp add: fold_detach_norm)
    qed
  qed
qed

section \<open>Saving goes through\<close>

definition ups :: "task \<Rightarrow> str set" where
  "ups t = upstream_slug ` set (tk_depends_on t)"

primrec closed_seq :: "str set \<Rightarrow> task list \<Rightarrow> bool" where
  "closed_seq S [] \<longleftrightarrow> True"
| "closed_seq S (t # ts) \<longleftrightarrow> ups t \<subseteq> S \<and> closed_seq (insert (tk_slug t) S) ts"

lemma closed_seq_nth:
  "\<forall>i < length es. ups (es ! i) \<subseteq> S \<union> tk_slug ` set (take i es) \<Longrightarrow> closed_seq S es"
proof (induction es arbitrary: S)
  case (Cons e es)
  have "ups (es ! i) \<subseteq> insert (tk_slug e) S \<union> tk_slug ` set (take i es)" if "i < length es" for i
    using Cons.prems [rule_format, of "Suc i"] that by simp
  with Cons.IH have "closed_seq (insert (tk_slug e) S) es" by blast
  moreover have "ups e \<subseteq> S" using Cons.prems [rule_format, of 0] by simp
  ultimately show ?case by simp
qed simp

lemma closed_seq_filter:
  "closed_seq S es \<Longrightarrow> \<forall>e \<in> set es. \<not> P e \<longrightarrow> tk_slug e \<in> S \<Longrightarrow> closed_seq S (filter P es)"
proof (induction es arbitrary: S)
  case (Cons e es)
  then have IH: "closed_seq (insert (tk_slug e) S) (filter P es)" by simp
  show ?case
  proof (cases "P e")
    case False
    with Cons.prems(2) have "insert (tk_slug e) S = S" by auto
    with IH False show ?thesis by simp
  qed (use IH Cons.prems in simp)
qed simp

lemma insert_app_runs: "task_insert t db = Inr db' \<Longrightarrow> db_app_runs db' = db_app_runs db"
  by (drule task_insert_Inr(2)) simp

lemma get_slugs: "s \<in> set (db_slugs db) \<longleftrightarrow> task_get db s \<noteq> None"
  by (simp add: task_get_None)

lemma write_new_step:
  assumes wf: "wf_tasks db" and valid: "valid_task t" and runs: "db_app_runs db = []"
    and present: "map_of existing (tk_slug t) = None \<longleftrightarrow> task_get db (tk_slug t) = None"
    and closed: "ups t \<subseteq> set (db_slugs db)"
  shows "\<exists>db'. write_new existing t t db = Inr db' \<and> wf_tasks db' \<and> db_app_runs db' = []
    \<and> set (db_slugs db') = insert (tk_slug t) (set (db_slugs db))"
proof -
  note wfd = wf_tasksD(1) [OF wf]
  have "\<exists>db'. write_new existing t t db = Inr db' \<and> db_app_runs db' = []"
  proof (cases "task_get db (tk_slug t)")
    case None
    then have "tk_slug t \<notin> set (db_slugs db)" by (simp add: task_get_None)
    from insert_total [OF wfd valid this] closed obtain db' where "task_insert t db = Inr db'"
      by (auto simp: ups_def)
    with None present insert_app_runs [OF this] runs show ?thesis by (auto simp: write_new_def)
  next
    case (Some p)
    then obtain old where "row_for db (tk_slug t) = Some old" by (auto simp: task_get_row)
    from replace_total [OF wfd valid this, of None] closed runs
    obtain db' where r: "task_replace t None db = Inr (w_revision old + 1, db')"
      by (auto simp: ups_def restricted_def)
    have "db_app_runs db' = db_app_runs db"
    proof (rule task_replace_Inr [OF wfd valid r])
      fix rows
      assume "db' = (delete_children (tk_slug t) (with_row t None (w_revision old + 1) db))\<lparr>db_task_repos := rows,
        db_test_results := db_test_results (delete_children (tk_slug t) db) @ result_rows t,
        db_pr_urls := db_pr_urls (delete_children (tk_slug t) db) @ pr_rows t,
        db_switch_sources := db_switch_sources (delete_children (tk_slug t) db) @ source_rows t,
        db_switch_anchors := db_switch_anchors (delete_children (tk_slug t) db) @ anchor_rows t,
        db_dependencies := db_dependencies (delete_children (tk_slug t) db) @ dep_rows t\<rparr>"
      then show ?thesis by (simp add: delete_children_def with_row_def)
    qed
    with r Some present runs show ?thesis by (auto simp: write_new_def replace_db_def)
  qed
  then obtain db' where db': "write_new existing t t db = Inr db'" "db_app_runs db' = []" by blast
  have W: "wf_tasks db'" "\<And>k. task_get db' k = (if k = tk_slug t then Some (norm_task t) else task_get db k)"
    using writes_new [OF valid, of existing] wf db'(1) unfolding task_store.writes_def by blast+
  have "set (db_slugs db') = insert (tk_slug t) (set (db_slugs db))"
    by (auto simp: get_slugs W(2) split: if_split_asm)
  with W(1) db' show ?thesis by blast
qed

lemma write_all_total:
  "wf_tasks db \<Longrightarrow> db_app_runs db = [] \<Longrightarrow> \<forall>t \<in> set es. valid_task t \<Longrightarrow> distinct (List.map tk_slug es) \<Longrightarrow>
   \<forall>t \<in> set es. map_of existing (tk_slug t) = None \<longleftrightarrow> task_get db (tk_slug t) = None \<Longrightarrow>
   closed_seq (set (db_slugs db)) es \<Longrightarrow> \<exists>db'. rfold (\<lambda>t. write_new existing t t) es db = Inr db'"
proof (induction es arbitrary: db)
  case (Cons t es)
  have "ups t \<subseteq> set (db_slugs db)" "valid_task t"
    "map_of existing (tk_slug t) = None \<longleftrightarrow> task_get db (tk_slug t) = None" using Cons.prems by simp_all
  from write_new_step [OF Cons.prems(1) this(2) Cons.prems(2) this(3,1)]
  obtain db1 where db1: "write_new existing t t db = Inr db1" "wf_tasks db1" "db_app_runs db1 = []"
    "set (db_slugs db1) = insert (tk_slug t) (set (db_slugs db))" by blast
  have "task_get db1 (tk_slug q) = None \<longleftrightarrow> task_get db (tk_slug q) = None" if "q \<in> set es" for q
    using that Cons.prems(4) unfolding task_get_None db1(4) by (auto simp: image_iff)
  with Cons.prems have "\<exists>db'. rfold (\<lambda>t. write_new existing t t) es db1 = Inr db'"
    by (intro Cons.IH db1) (simp_all add: db1(4))
  with db1(1) show ?case by simp
qed simp

lemma delete_all_total:
  "db_app_runs db = [] \<Longrightarrow> \<exists>db'. rfold delete_db xs db = Inr db' \<and> db_app_runs db' = []"
proof (induction xs arbitrary: db)
  case (Cons x xs)
  have "\<exists>db1. delete_db x db = Inr db1 \<and> db_app_runs db1 = []"
    using Cons.prems by (auto simp: delete_db_def task_delete_def delete_children_def Let_def)
  then obtain db1 where "delete_db x db = Inr db1" "db_app_runs db1 = []" by blast
  with Cons.IH [of db1] show ?case by simp
qed simp

lemma persist_total:
  assumes wf: "wf_tasks db" and runs: "db_app_runs db = []" and ok: "dict_ok ts" and k: "keyed ts"
    and valid: "\<forall>t \<in> set (dict_values ts). valid_task t" and acyc: "acyclic (depends ts)"
    and closed: "\<forall>t \<in> set (dict_values ts). ups t \<subseteq> set (dict_keys ts)"
  shows "\<exists>db'. persist_state ts db = Inr db'"
proof -
  obtain order where order: "dependency_order ts = Inr order"
    using order_loop_total [of ts "dict_keys ts" "[]"] acyc dependency_order_keyed [OF k]
    unfolding depends_def by auto
  note inv = dependency_order_inv [OF ok k order, unfolded order_inv_def append_Nil]
  have dist: "distinct order" and keys: "set order = set (dict_keys ts)" using inv by blast+
  note ord = ordered_tasks_props [OF ok k dist keys]
  obtain db1 where del: "rfold delete_db (gone ts db) db = Inr db1" and runs1: "db_app_runs db1 = []"
    using delete_all_total [OF runs] by blast
  have D: "wf_tasks db1" and get1: "\<And>j. task_get db1 j = (if j \<in> set (gone ts db) then None
      else map_option (fold detach (gone ts db)) (task_get db j))"
    using task_store.del_all [OF wf del] by auto
  let ?all = "ordered_tasks ts order"
  have kept: "task_get db1 (tk_slug t) = None \<longleftrightarrow> task_get db (tk_slug t) = None" if t: "t \<in> set ?all" for t
  proof -
    have "tk_slug t \<in> set (List.map tk_slug ?all)" using t unfolding set_map by (rule imageI)
    then have "tk_slug t \<notin> set (gone ts db)" unfolding ord(1) keys gone_def by (simp only: set_filter mem_Collect_eq simp_thms)
    then show ?thesis by (simp add: get1)
  qed
  have "ups (?all ! i) \<subseteq> set (db_slugs db1) \<union> tk_slug ` set (take i ?all)" if i: "i < length ?all" for i
  proof
    fix u assume u: "u \<in> ups (?all ! i)"
    have len: "length ?all = length order" by (simp add: ordered_tasks_def)
    have mem: "?all ! i \<in> set (dict_values ts)" using nth_mem [OF i] unfolding ord(2) .
    have "order ! i \<in> set (dict_keys ts)"
      using nth_mem [of i order] i unfolding keys len by (simp only: simp_thms)
    then obtain t where t: "map_of ts (order ! i) = Some t" by (cases "map_of ts (order ! i)") (simp_all add: map_of_eq_None_iff)
    then have "?all ! i = t" using i len by (simp add: ordered_tasks_def)
    with u t have "u \<in> set (upstreams ts (order ! i))" by (simp add: upstreams_def ups_def)
    moreover have "u \<in> set (dict_keys ts)" using closed mem u by blast
    ultimately have "u \<in> set (take i order)" using inv i len by simp
    moreover have "take i order = List.map tk_slug (take i ?all)" by (simp only: take_map [symmetric] ord(1))
    ultimately show "u \<in> set (db_slugs db1) \<union> tk_slug ` set (take i ?all)" by simp
  qed
  then have "closed_seq (set (db_slugs db1)) ?all" by (intro closed_seq_nth) blast
  moreover have "\<forall>t \<in> set ?all. \<not> \<not> unchanged db t \<longrightarrow> tk_slug t \<in> set (db_slugs db1)"
  proof (intro ballI impI)
    fix t assume t: "t \<in> set ?all" and "\<not> \<not> unchanged db t"
    then have "task_get db (tk_slug t) \<noteq> None" by (cases "task_get db (tk_slug t)") (simp_all add: unchanged_def)
    then show "tk_slug t \<in> set (db_slugs db1)" using kept [OF t] by (simp only: get_slugs simp_thms)
  qed
  ultimately have seq: "closed_seq (set (db_slugs db1)) (filter (\<lambda>t. \<not> unchanged db t) ?all)"
    by (rule closed_seq_filter)
  have "distinct (List.map tk_slug ?all)" by (simp only: ord(1) dist)
  then have "distinct (List.map tk_slug (filter (\<lambda>t. \<not> unchanged db t) ?all))" by (rule distinct_map_filter)
  then obtain db' where w: "rfold (\<lambda>t. write_new (task_list db) t t) (filter (\<lambda>t. \<not> unchanged db t) ?all) db1 = Inr db'"
    using write_all_total [OF D runs1 _ _ _ seq, of "task_list db"] valid kept
    unfolding ord(2) [symmetric] by (auto simp only: set_filter mem_Collect_eq map_of_task_list)
  have "rfold (persist_one (task_list db)) ?all db1 =
      rfold (persist_one (task_list db)) (filter (\<lambda>t. \<not> unchanged db t) ?all) db1"
    by (rule rfold_filter) (simp add: persist_one_cases)
  also have "\<dots> = rfold (\<lambda>t. write_new (task_list db) t t) (filter (\<lambda>t. \<not> unchanged db t) ?all) db1"
    by (rule rfold_cong) (auto simp: persist_one_cases)
  finally have "rfold (persist_one (task_list db)) ?all db1 = Inr db'" using w by simp
  with del order show ?thesis by (simp add: persist_state_def Let_def gone_def ordered_tasks_def)
qed

section \<open>Changing a selection of tasks\<close>

lemma select_tasks_Inr:
  "select_tasks xs db = Inr before \<Longrightarrow> before = List.map (\<lambda>s. (s, the (task_get db s))) xs
     \<and> (\<forall>s \<in> set xs. task_get db s \<noteq> None)"
proof (induction xs arbitrary: before)
  case (Cons x xs)
  then show ?case
    by (fastforce simp: select_tasks_def result_simps split: option.splits)
qed (simp add: select_tasks_def)

lemma map_of_selected:
  "map_of (List.map (\<lambda>s. (s, g s)) xs) k = (if k \<in> set xs then Some (g k) else None)"
  by (induction xs) auto

lemma check_selection_Inr:
  "check_selection requested selected = Inr u \<longleftrightarrow> set (dict_keys selected) \<subseteq> set requested \<and> keyed selected"
  by (force simp: check_selection_def Let_def keyed_def filter_empty_conv)

lemma mutate_tasks_steps:
  assumes "mutate_tasks slugs fn db = Inr (selected, db')"
  obtains before db1 where "before = List.map (\<lambda>s. (s, the (task_get db s))) (sort (remdups slugs))"
    and "fn before = Inr selected" and "\<forall>s \<in> set slugs. task_get db s \<noteq> None"
    and "set (dict_keys selected) \<subseteq> set slugs" and "keyed selected"
    and "check_order before (removed_slugs (sort (remdups slugs)) selected) selected db = Inr ()"
    and "rfold delete_db (removed_slugs (sort (remdups slugs)) selected) db = Inr db1"
    and "rfold replace_db (List.map snd (filter (changed_in before) (by_key selected))) db1 = Inr db'"
proof -
  let ?req = "sort (remdups slugs)"
  from assms obtain before db1 where steps: "select_tasks ?req db = Inr before" "fn before = Inr selected"
    "check_selection ?req selected = Inr ()" "check_order before (removed_slugs ?req selected) selected db = Inr ()"
    "rfold delete_db (removed_slugs ?req selected) db = Inr db1"
    "rfold replace_db (List.map snd (filter (changed_in before) (by_key selected))) db1 = Inr db'"
    unfolding mutate_tasks_def Let_def rbind_eq_Inr by auto
  from select_tasks_Inr [OF steps(1)] steps(3) show ?thesis
    by (intro that [OF _ steps(2) _ _ _ steps(4-6)]) (simp_all add: check_selection_Inr)
qed

text \<open>What the store holds under a slug after a change of some of the tasks.\<close>

definition changed_value :: "task_db \<Rightarrow> str list \<Rightarrow> tasks \<Rightarrow> str \<Rightarrow> task option" where
  "changed_value db requested selected s =
     (let cut = fold detach (removed_slugs requested selected) in
      case map_of selected s of
        Some t \<Rightarrow> Some (norm_task (if unchanged db t then cut t else t))
      | None \<Rightarrow> if s \<in> set requested then None else map_option cut (task_get db s))"

lemma mutate_tasks_law:
  assumes wf: "wf_tasks db" and ok: "dict_ok selected" and valid: "\<forall>t \<in> set (dict_values selected). valid_task t"
    and m: "mutate_tasks slugs fn db = Inr (selected, db')"
  shows "wf_tasks db'" and "task_get db' s = changed_value db (sort (remdups slugs)) selected s"
proof -
  let ?req = "sort (remdups slugs)" and ?rem = "removed_slugs (sort (remdups slugs)) selected"
  obtain before db1 where before: "before = List.map (\<lambda>s. (s, the (task_get db s))) ?req"
    and present: "\<forall>s \<in> set slugs. task_get db s \<noteq> None"
    and sub: "set (dict_keys selected) \<subseteq> set slugs" and k: "keyed selected"
    and del: "rfold delete_db ?rem db = Inr db1"
    and w: "rfold replace_db (List.map snd (filter (changed_in before) (by_key selected))) db1 = Inr db'"
    by (rule mutate_tasks_steps [OF m])
  have D: "wf_tasks db1" and get1: "\<And>j. task_get db1 j = (if j \<in> set ?rem then None
      else map_option (fold detach ?rem) (task_get db j))"
    using task_store.del_all [OF wf del] by auto
  let ?es = "List.map snd (filter (changed_in before) (by_key selected))"
  have slugs: "List.map tk_slug ?es = dict_keys (filter (changed_in before) (by_key selected))"
    using k by (simp add: keyed_def)
  have dist: "distinct (List.map tk_slug ?es)"
    unfolding slugs using ok by (intro distinct_map_filter) (simp add: dict_ok_def)
  have writes: "\<forall>t \<in> set ?es. task_store.writes replace_db t"
    using valid task_store.writes_repl by auto
  have W: "wf_tasks db'" "\<And>t. t \<in> set ?es \<Longrightarrow> task_get db' (tk_slug t) = Some (norm_task t)"
    "\<And>j. j \<notin> set (List.map tk_slug ?es) \<Longrightarrow> task_get db' j = task_get db1 j"
    using task_store.write_all [OF D writes dist w] by blast+
  show "wf_tasks db'" by (rule W(1))
  have unch: "changed_in before (k, t) \<longleftrightarrow> \<not> unchanged db t" if kt: "(k, t) \<in> set selected" for k t
  proof -
    have "k \<in> set (dict_keys selected)" using imageI [OF kt, of fst] by simp
    then have slug: "k \<in> set slugs" using sub by blast
    moreover have "tk_slug t = k" using kt k by (auto simp: keyed_def)
    moreover obtain b where b: "task_get db k = Some b" using slug present by blast
    moreover have "valid_task t" using bspec [OF valid, of t] imageI [OF kt, of snd] by simp
    ultimately show ?thesis using wf_tasks_get [OF wf b] task_eq_sym [of t b] task_eq_sym [of b t]
      by (auto simp: changed_in_def before map_of_selected unchanged_def)
  qed
  show "task_get db' s = changed_value db ?req selected s"
  proof (cases "map_of selected s")
    case None
    then have no: "s \<notin> set (dict_keys selected)" by (simp add: map_of_eq_None_iff)
    then have "s \<notin> set (List.map tk_slug ?es)" unfolding slugs by auto
    with W(3) get1 no None show ?thesis
      by (simp add: changed_value_def Let_def removed_slugs_def)
  next
    case (Some t)
    note mem = map_of_SomeD [OF Some]
    then have slug: "tk_slug t = s" using k by (auto simp: keyed_def)
    show ?thesis
    proof (cases "unchanged db t")
      case False
      with unch [OF mem] mem have "(s, t) \<in> set (filter (changed_in before) (by_key selected))" by simp
      then have "t \<in> set ?es" by force
      with W(2) [OF this] slug False Some show ?thesis by (simp add: changed_value_def Let_def)
    next
      case True
      then obtain p where p: "task_get db s = Some p" "task_eq p t"
        by (auto simp: unchanged_def slug split: option.splits)
      have "valid_task t" using valid mem by force
      with wf_tasks_get [OF wf p(1)] p(2) have norm: "p = norm_task t" using norm_task_eq by metis
      have "s \<notin> set (dict_keys (filter (changed_in before) (by_key selected)))"
      proof
        assume "s \<in> set (dict_keys (filter (changed_in before) (by_key selected)))"
        then obtain q where q: "(s, q) \<in> set selected" "changed_in before (s, q)" by auto
        with ok Some have "q = t" by (auto simp: dict_ok_map_of)
        with q unch [OF mem] True show False by simp
      qed
      then have "task_get db' s = task_get db1 s" using W(3) unfolding slugs by blast
      moreover have "s \<notin> set ?rem"
        using Some by (auto simp: removed_slugs_def map_of_eq_None_iff [symmetric])
      ultimately show ?thesis using get1 p(1) Some True norm
        by (simp add: changed_value_def Let_def fold_detach_norm)
    qed
  qed
qed

section \<open>The stored graph stays acyclic\<close>

lemma depends_get: "(s, u) \<in> depends ts \<longleftrightarrow> (\<exists>t. map_of ts s = Some t \<and> u \<in> ups t)"
  by (cases "map_of ts s") (simp_all add: depends_iff upstreams_def ups_def)

lemma ups_norm [simp]: "ups (norm_task t) = ups t"
  by (auto simp: ups_def norm_task_def image_image)

lemma ups_detach [simp]: "ups (fold detach xs t) = ups t - set xs"
  by (induction xs arbitrary: t) (auto simp: ups_def detach_def)

lemma edges_eq_ups: "edges_eq xs ys \<Longrightarrow> upstream_slug ` set xs = upstream_slug ` set ys"
proof -
  assume "edges_eq xs ys"
  then have "List.map upstream_slug xs = List.map upstream_slug ys"
    by (simp add: edges_eq_def edge_eq_def list_all2_conv_all_nth list_eq_iff_nth_eq)
  then show ?thesis by (metis set_map)
qed

lemma map_of_filter_key: "map_of (filter (\<lambda>kv. P (fst kv)) xs) k = (if P k then map_of xs k else None)"
  by (induction xs) auto

lemma mutate_tasks_acyclic:
  assumes wf: "wf_tasks db" and ok: "dict_ok selected" and valid: "\<forall>t \<in> set (dict_values selected). valid_task t"
    and m: "mutate_tasks slugs fn db = Inr (selected, db')" and acyc: "acyclic (depends (task_list db))"
  shows "acyclic (depends (task_list db'))"
proof -
  let ?req = "sort (remdups slugs)" and ?rem = "removed_slugs (sort (remdups slugs)) selected"
  obtain before where before: "before = List.map (\<lambda>s. (s, the (task_get db s))) ?req"
    and present: "\<forall>s \<in> set slugs. task_get db s \<noteq> None"
    and sub: "set (dict_keys selected) \<subseteq> set slugs" and k: "keyed selected"
    and order: "check_order before ?rem selected db = Inr ()"
    by (rule mutate_tasks_steps [OF m])
  let ?kept = "filter (\<lambda>st. fst st \<notin> set ?rem) (task_list db)"
  note get = mutate_tasks_law(2) [OF wf ok valid m]
  have okl: "dict_ok (task_list db)"
    using wf by (simp add: dict_ok_def dict_keys_task_list wf_tasks_def wf_db_def del: set_map)
  then have okk: "dict_ok ?kept" by (simp add: dict_ok_def distinct_map_filter)
  have kept: "map_of ?kept s = (if s \<in> set ?rem then None else task_get db s)" for s
    by (simp add: map_of_filter_key [of "\<lambda>s. s \<notin> set ?rem"])
  show ?thesis
  proof (cases "?rem \<noteq> [] \<or> list_ex (deps_changed_in before) selected")
    case True
    let ?all = "dict_update ?kept selected"
    from order True obtain ord where ord: "dependency_order ?all = Inr ord"
      by (auto simp: check_order_def rbind_eq_Inr)
    have "keyed ?all" by (rule dependency_order_keys [OF ord])
    from order_inv_acyclic [OF dependency_order_inv [OF _ this ord]] okk
    have "acyclic (depends ?all)" by simp
    moreover have "depends (task_list db') \<subseteq> depends ?all"
    proof
      fix p assume "p \<in> depends (task_list db')"
      then obtain s u t where p: "p = (s, u)" "task_get db' s = Some t" "u \<in> ups t"
        by (cases p) (auto simp: depends_get)
      have rem: "s \<in> set ?rem \<longleftrightarrow> s \<in> set slugs \<and> map_of selected s = None"
        by (auto simp: removed_slugs_def map_of_eq_None_iff)
      have all: "map_of ?all s = (case map_of selected s of Some q \<Rightarrow> Some q
          | None \<Rightarrow> if s \<in> set slugs then None else task_get db s)"
        using rem by (simp add: map_of_dict_update [OF ok] kept map_add_def split: option.split)
      show "p \<in> depends ?all"
      proof (cases "map_of selected s")
        case (Some q)
        with p have "u \<in> ups q" by (auto simp: get changed_value_def Let_def split: if_split_asm)
        with Some p(1) all show ?thesis by (simp add: depends_get)
      next
        case None
        with p obtain q where "task_get db s = Some q" "s \<notin> set slugs" "u \<in> ups q"
          by (cases "task_get db s") (auto simp: get changed_value_def Let_def split: if_split_asm)
        with None p(1) all show ?thesis by (simp add: depends_get)
      qed
    qed
    ultimately show ?thesis by (rule acyclic_subset)
  next
    case False
    have same: "ups t = ups b" if t: "map_of selected s = Some t" and b: "task_get db s = Some b" for s t b
    proof -
      have "s \<in> set slugs" using sub map_of_SomeD [OF t] by force
      moreover have "\<not> deps_changed_in before (s, t)"
        using False map_of_SomeD [OF t] by (auto simp: list_ex_iff)
      ultimately show ?thesis
        using b by (auto simp: deps_changed_in_def before map_of_selected ups_def dest: edges_eq_ups)
    qed
    have "depends (task_list db') \<subseteq> depends (task_list db)"
    proof
      fix p assume "p \<in> depends (task_list db')"
      then obtain s u t where p: "p = (s, u)" "task_get db' s = Some t" "u \<in> ups t"
        by (cases p) (auto simp: depends_get)
      show "p \<in> depends (task_list db)"
      proof (cases "map_of selected s")
        case None
        with p show ?thesis by (auto simp: depends_get get changed_value_def Let_def split: if_split_asm)
      next
        case (Some q)
        then have "s \<in> set slugs" using sub map_of_SomeD [OF Some] by force
        with present obtain b where b: "task_get db s = Some b" by blast
        from p Some have "u \<in> ups q"
          by (auto simp: get changed_value_def Let_def split: if_split_asm)
        with same [OF Some b] b p(1) show ?thesis by (auto simp: depends_get)
      qed
    qed
    with acyc show ?thesis by (rule acyclic_subset)
  qed
qed

end
