(* ===== verification/Lifecycle_Laws.thy ===== *)
theory Lifecycle_Laws
  imports Lifecycle Task_Laws
begin

text \<open>
  What ownership looks like through the services: the owners of a task, which writes go through,
  and the effect of linking and retention on both stores.
\<close>

section \<open>Listing items\<close>

lemma find_of_mem: "distinct (List.map f rows) \<Longrightarrow> r \<in> set rows \<Longrightarrow> List.find (\<lambda>q. f q = f r) rows = Some r"
  by (induction rows) (auto simp: image_iff)

lemma item_list_get:
  assumes "wf_rows db"
  shows "e \<in> set (item_list True db) \<longleftrightarrow> (\<exists>i. item_get db i = Some e)"
proof
  assume "e \<in> set (item_list True db)"
  then obtain r where r: "r \<in> set (db_items db)" "e = decode_item db r" by (auto simp: item_list_def)
  have "List.find (\<lambda>q. iw_id q = iw_id r) (db_items db) = Some r"
    using assms r(1) by (intro find_of_mem) (simp_all add: wf_rows_def item_ids_def)
  with r(2) show "\<exists>i. item_get db i = Some e" by (auto simp: item_get_def)
next
  assume "\<exists>i. item_get db i = Some e"
  then obtain i r where "List.find (\<lambda>q. iw_id q = i) (db_items db) = Some r" "e = decode_item db r"
    by (auto simp: item_get_row)
  with find_id [OF this(1)] show "e \<in> set (item_list True db)" by (auto simp: item_list_def)
qed

lemma item_get_id: "wf_rows db \<Longrightarrow> item_get db i = Some e \<Longrightarrow> it_id e = i"
  using item_get_normal by blast

lemma wf_rows_ids: "wf_rows db \<Longrightarrow> distinct (item_ids db)"
  by (simp add: wf_rows_def)

lemma item_list_ids: "distinct (List.map it_id (item_list True db)) \<longleftrightarrow> distinct (item_ids db)"
proof -
  have "List.map it_id (item_list True db) = List.map iw_id (sort_key (\<lambda>r. (- iw_updated_at r, iw_id r)) (db_items db))"
    by (simp add: item_list_def decode_item_def Let_def)
  then show ?thesis by (simp add: distinct_map_sort_key item_ids_def)
qed

section \<open>The owners of a task\<close>

lemma set_owner_ids:
  assumes "wf_rows db"
  shows "i \<in> set (owner_ids s db) \<longleftrightarrow> (\<exists>e. item_get db i = Some e \<and> s \<in> set (it_task_slugs e))"
proof -
  have "i \<in> set (owner_ids s db) \<longleftrightarrow> (\<exists>e. e \<in> set (item_list True db) \<and> s \<in> set (it_task_slugs e) \<and> it_id e = i)"
    by (auto simp: owner_ids_def)
  also have "\<dots> \<longleftrightarrow> (\<exists>e. item_get db i = Some e \<and> s \<in> set (it_task_slugs e))"
    using item_get_id [OF assms] unfolding item_list_get [OF assms] by metis
  finally show ?thesis .
qed

lemma distinct_singleton: "distinct xs \<Longrightarrow> set xs = {i} \<Longrightarrow> xs = [i]"
  by (cases xs rule: remdups_adj.cases) auto

lemma owner_ids_unique:
  assumes "wf_rows db" and "item_get db i = Some e" and "s \<in> set (it_task_slugs e)"
  shows "owner_ids s db = [i]"
proof -
  have "distinct (owner_ids s db)"
    unfolding owner_ids_def distinct_sort
    by (rule distinct_map_filter) (simp only: item_list_ids wf_rows_ids [OF assms(1)])
  moreover have "set (owner_ids s db) = {i}"
  proof -
    have "j = i" if j: "j \<in> set (owner_ids s db)" for j
    proof -
      obtain f where "item_get db j = Some f" "s \<in> set (it_task_slugs f)"
        using j set_owner_ids [OF assms(1), of j s] by auto
      with owner_unique(1) [OF assms(1) this(1) assms(2)] assms(3) show ?thesis by auto
    qed
    moreover have "i \<in> set (owner_ids s db)" using set_owner_ids [OF assms(1), of i s] assms(2,3) by simp
    ultimately show ?thesis by blast
  qed
  ultimately show ?thesis by (rule distinct_singleton)
qed

lemma owner_ids_cases:
  assumes "wf_rows db"
  obtains (none) "owner_ids s db = []" "\<And>i e. item_get db i = Some e \<Longrightarrow> s \<notin> set (it_task_slugs e)"
  | (one) i e where "owner_ids s db = [i]" "item_get db i = Some e" "s \<in> set (it_task_slugs e)"
proof (cases "owner_ids s db")
  case Nil
  with set_owner_ids [OF assms, of _ s] show ?thesis by (intro none) auto
next
  case (Cons i rest)
  then obtain e where "item_get db i = Some e" "s \<in> set (it_task_slugs e)"
    using set_owner_ids [OF assms, of i s] by auto
  with owner_ids_unique [OF assms this] show ?thesis by (intro one)
qed

section \<open>Linking on the item side\<close>

lemma stored_fits:
  assumes "wf_rows db" and "item_get db i = Some e"
  shows "fits e db"
  unfolding fits_def
proof (intro conjI allI impI)
  note id = item_get_id [OF assms]
  note kids = item_kids [OF assms(2)]
  have dist: "distinct (children t i)" if "distinct (List.map ch_value t)" for t :: "str child_row list"
    using that unfolding children_def by (simp add: distinct_map_sort_key distinct_map_filter)
  show "distinct (it_task_slugs e)" "distinct (it_thread_ids e)" "distinct (it_affected_repos e)" "distinct (it_pr_urls e)"
    using assms(1) kids dist by (simp_all add: wf_rows_def)
  fix j f assume "j \<noteq> it_id e" "item_get db j = Some f"
  with owner_unique [OF assms, of j f] id
  show "set (it_task_slugs e) \<inter> set (it_task_slugs f) = {}" "set (it_thread_ids e) \<inter> set (it_thread_ids f) = {}"
    by simp_all
qed

lemma changed_fits:
  assumes "wf_rows db" and "item_get db i = Some e" and "it_id e' = i" and "it_thread_ids e' = it_thread_ids e"
    and "distinct (it_affected_repos e')" and "distinct (it_pr_urls e')"
    and "it_task_slugs e' = it_task_slugs e \<or>
      (it_task_slugs e' = it_task_slugs e @ [s] \<and> s \<notin> set (it_task_slugs e) \<and> set (owner_ids s db) \<subseteq> {i})"
  shows "fits e' db"
proof -
  have e: "fits e db" "it_id e = i" using stored_fits [OF assms(1,2)] item_get_id [OF assms(1,2)] .
  have "s \<notin> set (it_task_slugs f)" if "set (owner_ids s db) \<subseteq> {i}" "j \<noteq> i" "item_get db j = Some f" for j f
    using that set_owner_ids [OF assms(1), of j s] by auto
  note other = this
  show ?thesis
    unfolding fits_def
  proof (intro conjI allI impI)
    show "distinct (it_task_slugs e')" "distinct (it_thread_ids e')" using assms e by (auto simp: fits_def)
    fix j f assume j: "j \<noteq> it_id e'" "item_get db j = Some f"
    then have d: "set (it_task_slugs e) \<inter> set (it_task_slugs f) = {}" "set (it_thread_ids e) \<inter> set (it_thread_ids f) = {}"
      using e assms(3) by (auto simp: fits_def)
    show "set (it_thread_ids e') \<inter> set (it_thread_ids f) = {}" using d assms(4) by simp
    show "set (it_task_slugs e') \<inter> set (it_task_slugs f) = {}"
      using d assms(3,7) other [OF _ _ j(2)] j(1) by auto
  qed (rule assms)+
qed

section \<open>Linking a task and an item\<close>

lemma linked_task_simps [simp]:
  "tk_slug (linked_task t i spec) = tk_slug t" "tk_work_item_id (linked_task t i spec) = Some i"
  "tk_affected_repos (linked_task t i spec) = tk_affected_repos t" "tk_pr_urls (linked_task t i spec) = tk_pr_urls t"
  by (simp_all add: linked_task_def Let_def)

lemma valid_linked_task: "valid_task t \<Longrightarrow> valid_task (linked_task t i spec)"
  by (simp add: linked_task_def valid_task_def Let_def)

lemma linked_task_same: "\<not> task_link_changed t i spec \<Longrightarrow> linked_task t i spec = t"
  by (auto simp: linked_task_def task_link_changed_def Let_def intro!: task.equality)

definition item_after_link :: "work_item \<Rightarrow> str \<Rightarrow> str option \<Rightarrow> dt \<Rightarrow> work_item" where
  "item_after_link e s spec now =
     (if item_link_changed e s spec then (linked_item e s spec)\<lparr>it_updated_at := now\<rparr> else e)"

lemma item_after_link_simps:
  "it_id (item_after_link e s spec now) = it_id e" "it_thread_ids (item_after_link e s spec now) = it_thread_ids e"
  "it_affected_repos (item_after_link e s spec now) = it_affected_repos e"
  "it_pr_urls (item_after_link e s spec now) = it_pr_urls e"
  "it_task_slugs (item_after_link e s spec now) = (if s \<in> set (it_task_slugs e) then it_task_slugs e else it_task_slugs e @ [s])"
  by (auto simp: item_after_link_def linked_item_def item_link_changed_def Let_def)

lemma link_loaded_effect:
  assumes t: "wf_tasks (ws_tasks ws)" "valid_task t" "task_get (ws_tasks ws) (tk_slug t) = Some (norm_task t)"
    and e: "wf_rows (ws_items ws)" "item_get (ws_items ws) i = Some e"
    and r: "link_loaded t e now spec ws = Inr ws'"
  shows "wf_tasks (ws_tasks ws')" and "wf_rows (ws_items ws')"
    and "task_get (ws_tasks ws') k = (if k = tk_slug t then Some (norm_task (linked_task t i spec)) else task_get (ws_tasks ws) k)"
    and "item_get (ws_items ws') j = (if j = i then Some (norm_item (item_after_link e (tk_slug t) spec now)) else item_get (ws_items ws) j)"
proof -
  have id: "it_id e = i" "norm_item e = e" using item_get_normal [OF e] by simp_all
  obtain tdb idb where
    tdb: "(if task_link_changed t i spec then replace_db (linked_task t i spec) (ws_tasks ws) else Inr (ws_tasks ws)) = Inr tdb"
    and idb: "(if item_link_changed e (tk_slug t) spec
      then replace_item ((linked_item e (tk_slug t) spec)\<lparr>it_updated_at := now\<rparr>) (ws_items ws) else Inr (ws_items ws)) = Inr idb"
    and ws': "ws' = \<lparr>ws_tasks = tdb, ws_items = idb\<rparr>"
    using r unfolding link_loaded_def rbind_eq_Inr id(1) by auto
  have T: "wf_tasks tdb \<and> task_get tdb k = (if k = tk_slug t then Some (norm_task (linked_task t i spec)) else task_get (ws_tasks ws) k)" for k
  proof (cases "task_link_changed t i spec")
    case True
    with tdb have "replace_db (linked_task t i spec) (ws_tasks ws) = Inr tdb" by simp
    from replace_law [OF t(1) valid_linked_task [OF t(2)] this] show ?thesis by simp
  next
    case False
    with tdb t linked_task_same [OF False] show ?thesis by simp
  qed
  let ?e = "(linked_item e (tk_slug t) spec)\<lparr>it_updated_at := now\<rparr>"
  have I: "wf_rows idb \<and> item_get idb j = (if j = i then Some (norm_item (item_after_link e (tk_slug t) spec now)) else item_get (ws_items ws) j)" for j
  proof (cases "item_link_changed e (tk_slug t) spec")
    case True
    then have "replace_item ?e (ws_items ws) = Inr idb" "item_after_link e (tk_slug t) spec now = ?e"
      using idb by (simp_all add: item_after_link_def)
    with replace_item_law [OF e(1) this(1)] item_after_link_simps(1) [of e "tk_slug t" spec now] id show ?thesis by simp
  next
    case False
    with idb e id show ?thesis by (simp add: item_after_link_def)
  qed
  from T I show "wf_tasks (ws_tasks ws')" "wf_rows (ws_items ws')"
    "task_get (ws_tasks ws') k = (if k = tk_slug t then Some (norm_task (linked_task t i spec)) else task_get (ws_tasks ws) k)"
    "item_get (ws_items ws') j = (if j = i then Some (norm_item (item_after_link e (tk_slug t) spec now)) else item_get (ws_items ws) j)"
    by (simp_all add: ws')
qed

lemma require_owner_Inr:
  "require_owner_available s i db = Inr e \<longleftrightarrow> item_get db i = Some e \<and> set (owner_ids s db) \<subseteq> {i}"
  by (auto simp: require_owner_available_def Let_def filter_empty_conv split: option.splits)

section \<open>Retention\<close>

definition owner_of :: "task \<Rightarrow> item_db \<Rightarrow> str option" where
  "owner_of t db = (case owner_ids (tk_slug t) db of i # _ \<Rightarrow> Some i | [] \<Rightarrow> tk_work_item_id t)"

lemma retained_simps [simp]:
  "it_id (retained e t) = it_id e" "it_task_slugs (retained e t) = it_task_slugs e"
  "it_thread_ids (retained e t) = it_thread_ids e"
  "set (it_affected_repos (retained e t)) = set (it_affected_repos e) \<union> set (tk_affected_repos t)"
  "set (it_pr_urls (retained e t)) = set (it_pr_urls e) \<union> snd ` set (tk_pr_urls t)"
  "distinct (it_affected_repos (retained e t))" "distinct (it_pr_urls (retained e t))"
  by (simp_all add: retained_def)

lemma keeps_already_sets:
  assumes "keeps_already e t"
  shows "set (tk_affected_repos t) \<subseteq> set (it_affected_repos e)" and "snd ` set (tk_pr_urls t) \<subseteq> set (it_pr_urls e)"
proof -
  have "set (it_affected_repos (retained e t)) = set (it_affected_repos e)"
    "set (it_pr_urls (retained e t)) = set (it_pr_urls e)" using assms by (simp_all add: keeps_already_def)
  then show "set (tk_affected_repos t) \<subseteq> set (it_affected_repos e)" "snd ` set (tk_pr_urls t) \<subseteq> set (it_pr_urls e)"
    by auto
qed

lemma resolve_owner_Inr:
  assumes "resolve_owner_item t allow db = Inr owner"
  shows "owner = (case owner_of t db of None \<Rightarrow> None | Some i \<Rightarrow> item_get db i)"
  using assms by (auto simp: resolve_owner_item_def owner_of_def Let_def split: if_splits list.splits option.splits)

lemma retain_loaded_effect:
  assumes wf: "wf_rows db" and r: "retain_loaded t now allow db = Inr (b, db')"
  shows "wf_rows db'"
    and "item_get db' j = (if b \<and> owner_of t db = Some j
      then map_option (\<lambda>e. norm_item ((retained e t)\<lparr>it_updated_at := now\<rparr>)) (item_get db j) else item_get db j)"
    and "\<not> b \<Longrightarrow> owner_of t db = Some i \<Longrightarrow> item_get db i = Some e \<Longrightarrow> keeps_already e t"
proof -
  from r obtain owner where o: "resolve_owner_item t allow db = Inr owner"
    and step: "(case owner of None \<Rightarrow> Inr (False, db)
       | Some e \<Rightarrow> if keeps_already e t then Inr (False, db)
           else rbind (replace_item ((retained e t)\<lparr>it_updated_at := now\<rparr>) db) (\<lambda>db'. Inr (True, db'))) = Inr (b, db')"
    unfolding retain_loaded_def rbind_eq_Inr by blast
  note owner = resolve_owner_Inr [OF o]
  have "wf_rows db' \<and> (item_get db' j = (if b \<and> owner_of t db = Some j
      then map_option (\<lambda>e. norm_item ((retained e t)\<lparr>it_updated_at := now\<rparr>)) (item_get db j) else item_get db j))
    \<and> (\<not> b \<longrightarrow> owner_of t db = Some i \<longrightarrow> item_get db i = Some e \<longrightarrow> keeps_already e t)"
  proof (cases owner)
    case None
    with step owner wf show ?thesis by auto
  next
    case (Some x)
    with owner obtain k where k: "owner_of t db = Some k" "item_get db k = Some x" by (auto split: option.splits)
    show ?thesis
    proof (cases "keeps_already x t")
      case True
      with step Some k wf show ?thesis by auto
    next
      case False
      with step Some have "replace_item ((retained x t)\<lparr>it_updated_at := now\<rparr>) db = Inr db'" "b"
        by (auto simp: rbind_eq_Inr)
      with replace_item_law(1,3) [OF wf this(1)] k item_get_id [OF wf k(2)] show ?thesis by auto
    qed
  qed
  then show "wf_rows db'" "item_get db' j = (if b \<and> owner_of t db = Some j
      then map_option (\<lambda>e. norm_item ((retained e t)\<lparr>it_updated_at := now\<rparr>)) (item_get db j) else item_get db j)"
    "\<not> b \<Longrightarrow> owner_of t db = Some i \<Longrightarrow> item_get db i = Some e \<Longrightarrow> keeps_already e t" by blast+
qed

section \<open>Saving\<close>

lemma check_tasks_Inr:
  "rfold (check_task_owner e others) ss () = Inr u \<longleftrightarrow> (\<forall>c \<in> set others. set ss \<inter> set (it_task_slugs c) = {})"
proof (induction ss)
  case (Cons s ss)
  have "check_task_owner e others s () = Inr v \<longleftrightarrow> (\<forall>c \<in> set others. s \<notin> set (it_task_slugs c))" for v
    using find_None_iff [of "\<lambda>c. s \<in> set (it_task_slugs c)" others]
    by (cases "List.find (\<lambda>c. s \<in> set (it_task_slugs c)) others") (auto simp: check_task_owner_def)
  with Cons show ?case by (auto simp: rbind_eq_Inr)
qed simp

lemma check_threads_Inr:
  "rfold (check_thread_owner others) ths () = Inr u \<longleftrightarrow> (\<forall>c \<in> set others. set ths \<inter> set (it_thread_ids c) = {})"
proof (induction ths)
  case (Cons s ths)
  have "check_thread_owner others s () = Inr v \<longleftrightarrow> (\<forall>c \<in> set others. s \<notin> set (it_thread_ids c))" for v
    using find_None_iff [of "\<lambda>c. s \<in> set (it_thread_ids c)" others]
    by (cases "List.find (\<lambda>c. s \<in> set (it_thread_ids c)) others") (auto simp: check_thread_owner_def)
  with Cons show ?case by (auto simp: rbind_eq_Inr)
qed simp

lemma validate_Inr:
  assumes "wf_rows db"
  shows "validate_ownership e (item_list True db) = Inr u \<longleftrightarrow>
    (\<forall>j f. j \<noteq> it_id e \<longrightarrow> item_get db j = Some f \<longrightarrow>
      set (it_task_slugs e) \<inter> set (it_task_slugs f) = {} \<and> set (it_thread_ids e) \<inter> set (it_thread_ids f) = {})"
proof -
  have others: "c \<in> set (filter (\<lambda>c. it_id c \<noteq> it_id e) (item_list True db)) \<longleftrightarrow>
      (\<exists>j. j \<noteq> it_id e \<and> item_get db j = Some c)" for c
  proof -
    have "it_id c = j" if "item_get db j = Some c" for j using item_get_id [OF assms that] .
    then show ?thesis unfolding set_filter mem_Collect_eq item_list_get [OF assms] by metis
  qed
  let ?o = "filter (\<lambda>c. it_id c \<noteq> it_id e) (item_list True db)"
  have "validate_ownership e (item_list True db) = Inr u \<longleftrightarrow>
      (\<forall>c \<in> set ?o. set (it_task_slugs e) \<inter> set (it_task_slugs c) = {})
      \<and> (\<forall>c \<in> set ?o. set (it_thread_ids e) \<inter> set (it_thread_ids c) = {})"
    by (simp add: validate_ownership_def Let_def rbind_eq_Inr check_tasks_Inr check_threads_Inr del: set_filter)
  then show ?thesis unfolding Ball_def others by blast
qed

lemma children_fit_absent:
  assumes "childless (it_id e) db"
  shows "children_fit e (delete_item_children (it_id e) db) = children_fit e db"
proof -
  have "filter (\<lambda>r. ch_item r \<noteq> it_id e) (db_item_tasks db) = db_item_tasks db"
    "filter (\<lambda>r. ch_item r \<noteq> it_id e) (db_item_threads db) = db_item_threads db"
    using assms by (simp_all add: childless_def filter_id_conv)
  then show ?thesis by (simp add: children_fit_def delete_children_owned)
qed

lemma write_item_exact:
  assumes wf: "wf_rows db"
  shows "(\<exists>db'. (if item_get db (it_id e) = None then item_insert e db else replace_item e db) = Inr db') \<longleftrightarrow> fits e db"
proof (cases "item_get db (it_id e)")
  case None
  then have "it_id e \<notin> set (item_ids db)" by (simp add: item_get_None)
  with None item_insert_exact [OF wf] children_fit_absent [OF childless_absent [OF wf None]] children_fit_iff [OF wf, of e]
  show ?thesis by simp
next
  case (Some f)
  have "fits e db" if "replace_item e db = Inr db'" for db'
    using that children_fit_iff [OF wf, of e] by (auto simp: replace_item_Inr item_replace_exact)
  with Some replace_item_total [OF wf, of e] show ?thesis by auto
qed

lemma save_item_effect:
  assumes wf: "wf_rows db" and s: "save_item e db = Inr db'"
  shows "wf_rows db' \<and> (\<forall>j. item_get db' j = (if j = it_id e then Some (norm_item e) else item_get db j))"
proof (cases "item_get db (it_id e)")
  case None
  then have "item_insert e db = Inr db'" using s by (auto simp: save_item_def rbind_eq_Inr)
  with item_insert_wf [OF wf this] item_insert_get [OF wf this] show ?thesis by blast
next
  case (Some f)
  then have "replace_item e db = Inr db'" using s by (auto simp: save_item_def rbind_eq_Inr)
  with replace_item_law [OF wf this] show ?thesis by blast
qed

lemma check_id_Inr [simp]: "check_id i = Inr u \<longleftrightarrow> \<not> unsafe_id i"
  by (simp add: check_id_def)

end
