(* ===== verification/Task_Properties.thy ===== *)
theory Task_Properties
  imports Task_Laws
begin

text \<open>
  The properties of task persistence and of the state manager, each with a concrete instance.
\<close>

section \<open>A task that reads back equal\<close>

text \<open>Aware datetimes, affected repositories named once, edges in the order they were made.\<close>

definition aware_opt :: "dt option \<Rightarrow> bool" where
  "aware_opt t \<longleftrightarrow> (case t of None \<Rightarrow> True | Some d \<Rightarrow> \<not> is_naive d)"

definition canonical :: "task \<Rightarrow> bool" where
  "canonical t \<longleftrightarrow> distinct (tk_affected_repos t)
     \<and> sorted (List.map (\<lambda>e. (instant (de_created_at e), upstream_slug e)) (tk_depends_on t))
     \<and> \<not> is_naive (tk_created_at t) \<and> aware_opt (tk_blocked_at t) \<and> aware_opt (tk_finished_at t)
     \<and> aware_opt (tk_phase_entered_at t) \<and> aware_opt (tk_last_activity_at t)
     \<and> list_all (\<lambda>kv. \<not> is_naive (tr_at (snd kv))) (tk_test_results t)
     \<and> list_all (\<lambda>e. \<not> is_naive (de_created_at e)) (tk_depends_on t)"

lemma dt_eq_norm_dt: "\<not> is_naive d \<Longrightarrow> dt_eq (norm_dt d) d"
  by (simp add: dt_eq_def norm_dt_def)

lemma dt_opt_eq_norm_dt: "aware_opt d \<Longrightarrow> dt_opt_eq (map_option norm_dt d) d"
  by (cases d) (simp_all add: aware_opt_def dt_opt_eq_def dt_eq_norm_dt)

lemma dict_eq_map_by_key:
  assumes "dict_ok d" and "\<And>k x. (k, x) \<in> set d \<Longrightarrow> eq (f x) x"
  shows "dict_eq eq (List.map (\<lambda>kv. (fst kv, f (snd kv))) (by_key d)) d"
  using assms by (auto simp: dict_eq_def dict_ok_map_of by_key_def)

lemma dict_eq_by_key_refl: "dict_ok d \<Longrightarrow> dict_eq (=) (by_key d) d"
  using dict_eq_map_by_key [of d "(=)" id] by simp

lemma task_eq_norm:
  assumes "valid_task t" and c: "canonical t"
  shows "task_eq (norm_task t) t"
proof -
  have ok: "dict_ok (tk_worktrees t)" "dict_ok (tk_test_results t)" "dict_ok (tk_pr_urls t)"
    "dict_ok (tk_last_switched_at_sha t)"
    and inner: "\<And>k x. (k, x) \<in> set (tk_last_switched_at_sha t) \<Longrightarrow> dict_ok x"
    using assms(1) by (auto simp: valid_task_def list_all_iff)
  have results: "dict_eq result_eq (tk_test_results (norm_task t)) (tk_test_results t)"
    using dict_eq_map_by_key [OF ok(2), of result_eq "\<lambda>x. x\<lparr>tr_at := norm_dt (tr_at x)\<rparr>"] c
    by (fastforce simp: norm_task_def result_eq_def canonical_def list_all_iff dt_eq_norm_dt)
  have anchors: "dict_eq (dict_eq (=)) (tk_last_switched_at_sha (norm_task t)) (tk_last_switched_at_sha t)"
    using dict_eq_map_by_key [OF ok(4), of "dict_eq (=)" by_key] inner dict_eq_by_key_refl
    unfolding norm_task_def by simp blast
  have "sort_key (\<lambda>e. (instant (de_created_at e), upstream_slug e)) (tk_depends_on t) = tk_depends_on t"
    using c by (intro sort_key_id_if_sorted) (simp add: canonical_def)
  then have deps: "edges_eq (tk_depends_on (norm_task t)) (tk_depends_on t)"
    using c by (simp add: norm_task_def edges_eq_def list_all2_map1 edge_eq_def canonical_def
        list_all_iff dt_eq_norm_dt list_all2_same)
  show ?thesis
    using c results anchors deps dict_eq_by_key_refl [OF ok(1)] dict_eq_by_key_refl [OF ok(3)]
    by (simp add: task_eq_def norm_task_def canonical_def dt_eq_norm_dt dt_opt_eq_norm_dt)
qed

section \<open>Concrete databases\<close>

definition empty_db :: task_db where
  "empty_db = \<lparr>db_tasks = [], db_task_repos = [], db_test_results = [], db_pr_urls = [],
     db_switch_sources = [], db_switch_anchors = [], db_dependencies = [], db_app_runs = []\<rparr>"

lemma wf_empty: "wf_tasks empty_db"
  by (simp add: wf_tasks_def wf_db_def refs_ok_def empty_db_def db_slugs_def task_get_def)

definition task_up :: task where
  "task_up = (blank_task ''up'' [])\<lparr>tk_affected_repos := [''api'', ''web''], tk_worktrees := [(''web'', ''/w''), (''api'', ''/a'')]\<rparr>"

definition task_down :: task where
  "task_down = (blank_task ''down'' [''up''])\<lparr>tk_affected_repos := [''web'']\<rparr>"

lemma valid_samples: "valid_task task_up" "valid_task task_down"
  by (simp_all add: valid_task_def task_up_def task_down_def blank_task_def dict_ok_def)

definition two_tasks :: tasks where
  "two_tasks = [(''down'', task_down), (''up'', task_up)]"

definition saved_db :: task_db where
  "saved_db = (case persist_state two_tasks empty_db of Inr db \<Rightarrow> db | Inl _ \<Rightarrow> empty_db)"

section \<open>Storing one task\<close>

text \<open>C11: a valid task with a new slug whose upstream tasks are stored is inserted; reading its
  slug then yields its normal form, which Python finds equal to the task when that names each
  affected repository once, in edge order, with aware timestamps; no other task reads differently,
  and the tables stay well formed.\<close>

theorem stored_task_reads_back:
  assumes "wf_tasks db" and "valid_task t" and "tk_slug t \<notin> set (db_slugs db)"
    and "upstream_slug ` set (tk_depends_on t) \<subseteq> set (db_slugs db)"
  shows "\<exists>db'. task_insert t db = Inr db' \<and> wf_tasks db'
    \<and> (\<forall>s. task_get db' s = (if s = tk_slug t then Some (norm_task t) else task_get db s))
    \<and> (canonical t \<longrightarrow> task_eq (norm_task t) t)"
proof -
  obtain db' where i: "task_insert t db = Inr db'"
    using insert_total [OF wf_tasksD(1) [OF assms(1)] assms(2,3)] assms(4) by blast
  from insert_law [OF assms(1,2) i] insert_wf_law [OF assms(1,2) i] task_eq_norm [OF assms(2)]
  show ?thesis by (intro exI [of _ db'] conjI i allI impI)
qed

theorem stored_task_reads_back_witness:
  "\<exists>db. task_insert task_up empty_db = Inr db \<and> task_get db ''up'' = Some (norm_task task_up)
    \<and> tk_worktrees (norm_task task_up) = [(''api'', ''/a''), (''web'', ''/w'')]
    \<and> task_eq (norm_task task_up) task_up"
proof -
  note s = valid_samples(1)
  have v: "tk_slug task_up \<notin> set (db_slugs empty_db)"
    "upstream_slug ` set (tk_depends_on task_up) \<subseteq> set (db_slugs empty_db)"
    "canonical task_up" "tk_slug task_up = ''up''"
    "tk_worktrees (norm_task task_up) = [(''api'', ''/a''), (''web'', ''/w'')]" by code_simp+
  from stored_task_reads_back [OF wf_empty s v(1,2)] v(3-5) show ?thesis by (elim exE) simp
qed

text \<open>C12: replacing a stored task goes through whenever the new value's upstream tasks are stored
  and no repository it drops has app runs, whatever new order its affected repositories take; the
  revision grows by one, the slug reads as the new value and every other task reads as before.\<close>

theorem replacement_goes_through:
  assumes "wf_tasks db" and "valid_task t" and "row_for db (tk_slug t) = Some old"
    and "upstream_slug ` set (tk_depends_on t) \<subseteq> set (db_slugs db)" and "\<not> restricted t db"
  shows "\<exists>db'. task_replace t (Some (w_revision old)) db = Inr (w_revision old + 1, db') \<and> wf_tasks db'
    \<and> (\<forall>s. task_get db' s = (if s = tk_slug t then Some (norm_task t) else task_get db s))"
proof -
  note wf = wf_tasksD(1) [OF assms(1)]
  obtain db' where r: "task_replace t (Some (w_revision old)) db = Inr (w_revision old + 1, db')"
    using replace_total [OF wf assms(2,3) _ assms(5), of "Some (w_revision old)"] assms(4) by blast
  have get: "task_get db' s = (if s = tk_slug t then Some (norm_task t) else task_get db s)" for s
    by (rule replace_get(1) [OF wf assms(2) r])
  have "wf_tasks db'" by (rule wf_tasks_update [OF replace_wf [OF wf assms(2) r] assms(1,2) get])
  with r get show ?thesis by blast
qed

definition swapped :: task where
  "swapped = task_up\<lparr>tk_affected_repos := [''web'', ''api'']\<rparr>"

definition db_up :: task_db where
  "db_up = (case task_insert task_up empty_db of Inr db \<Rightarrow> db | Inl _ \<Rightarrow> empty_db)"

lemma wf_db_up: "wf_tasks db_up"
proof -
  have "task_insert task_up empty_db = Inr db_up" by code_simp
  then show ?thesis by (rule insert_wf_law [OF wf_empty valid_samples(1)])
qed

lemma valid_swapped: "valid_task swapped"
  using valid_samples(1) by (simp add: swapped_def valid_task_def)

theorem replacement_goes_through_witness:
  "\<exists>db. task_replace swapped (Some 0) db_up = Inr (1, db) \<and> task_get db ''up'' = Some (norm_task swapped)"
proof -
  have v: "row_for db_up (tk_slug swapped) = Some (scalar_values 0 task_up)"
    "upstream_slug ` set (tk_depends_on swapped) \<subseteq> set (db_slugs db_up)"
    "w_revision (scalar_values 0 task_up) = 0" "tk_slug swapped = ''up''" by code_simp+
  have "\<not> restricted swapped db_up" unfolding restricted_def by code_simp
  from replacement_goes_through [OF wf_db_up valid_swapped v(1,2) this] v(3,4) show ?thesis by auto
qed

text \<open>C13: no lost update: once a replacement that expected revision \<open>n\<close> has gone through, any
  further replacement of the same task that expects \<open>n\<close> is refused with \<open>ConcurrentUpdate\<close>.\<close>

theorem stale_revision_refused:
  assumes "wf_tasks db" and "valid_task t" and "task_replace t (Some n) db = Inr (m, db')"
    and "tk_slug u = tk_slug t"
  shows "m = n + 1 \<and> task_replace u (Some n) db' = Inl (ConcurrentUpdate ''tasks'' (tk_slug u) n)"
proof -
  note wf = wf_tasksD(1) [OF assms(1)]
  from task_replace_Inr [OF wf assms(2,3)]
  have m: "m = n + 1" and row: "row_for db' (tk_slug t) = Some (scalar_values m t)" by force+
  have dist: "distinct (List.map w_slug (db_tasks db'))"
    using replace_wf [OF wf assms(2,3)] by (simp add: wf_db_def db_slugs_def)
  have "List.find (revision_matches (tk_slug t) (Some n)) rows = None"
    if "distinct (List.map w_slug rows)" "List.find (\<lambda>r. w_slug r = tk_slug t) rows = Some old"
      "w_revision old \<noteq> n" for rows old
    using that
    by (induction rows) (auto simp: revision_matches_def find_None_iff image_iff split: if_split_asm)
  from this [OF dist row [unfolded row_for_def]] m
  have "List.find (revision_matches (tk_slug u) (Some n)) (db_tasks db') = None"
    by (simp add: scalar_values_def assms(4))
  with m show ?thesis by (simp add: task_replace_def)
qed

theorem stale_revision_refused_witness:
  "task_replace task_up (Some 0) (snd (projr (task_replace swapped (Some 0) db_up)))
    = Inl (ConcurrentUpdate ''tasks'' ''up'' 0)"
proof -
  have v: "task_replace swapped (Some 0) db_up =
      Inr (1, snd (projr (task_replace swapped (Some 0) db_up)))"
    "tk_slug task_up = tk_slug swapped" "tk_slug task_up = ''up''" by code_simp+
  from stale_revision_refused [OF wf_db_up valid_swapped v(1,2)] v(3) show ?thesis by simp
qed

section \<open>Deletion\<close>

lemma has_runs: "list_ex (\<lambda>r. fst r = slug) runs \<longleftrightarrow> slug \<in> fst ` set runs"
  by (auto simp: list_ex_iff)

text \<open>C14: deleting an unknown slug changes nothing and says so; deleting a task with app runs raises
  an integrity error; otherwise the slug reads as absent and every other task reads as before
  without its edges to the deleted one.\<close>

theorem delete_detaches:
  assumes "wf_tasks db"
  shows "(slug \<notin> set (db_slugs db) \<longrightarrow> task_delete slug db = Inr (False, db))
    \<and> (slug \<in> set (db_slugs db) \<and> slug \<in> fst ` set (db_app_runs db) \<longrightarrow>
         task_delete slug db = Inl (IntegrityError ''tasks''))
    \<and> (slug \<in> set (db_slugs db) \<and> slug \<notin> fst ` set (db_app_runs db) \<longrightarrow>
         (\<exists>db'. task_delete slug db = Inr (True, db') \<and> wf_tasks db'
           \<and> (\<forall>s. task_get db' s = (if s = slug then None else map_option (detach slug) (task_get db s)))))"
proof (intro conjI impI)
  assume "slug \<in> set (db_slugs db) \<and> slug \<notin> fst ` set (db_app_runs db)"
  then obtain db' where d: "task_delete slug db = Inr (True, db')"
    by (auto simp: task_delete_def Let_def has_runs)
  then have "delete_db slug db = Inr db'" by (simp add: delete_db_def)
  with d delete_law [OF assms this] show "\<exists>db'. task_delete slug db = Inr (True, db') \<and> wf_tasks db'
      \<and> (\<forall>s. task_get db' s = (if s = slug then None else map_option (detach slug) (task_get db s)))" by blast
qed (simp_all add: task_delete_def has_runs)

lemma valid_two: "\<forall>t \<in> set (dict_values two_tasks). valid_task t"
  using valid_samples by (simp add: two_tasks_def)

lemma saved: "persist_state two_tasks empty_db = Inr saved_db" "dict_ok two_tasks"
  by code_simp+

lemma wf_saved: "wf_tasks saved_db"
  by (rule persist_effect(1) [OF wf_empty saved(2) valid_two saved(1)])

theorem delete_detaches_witness:
  "\<exists>db'. task_delete ''up'' saved_db = Inr (True, db')
     \<and> map_option tk_depends_on (task_get db' ''down'') = Some []"
proof -
  have v: "''up'' \<in> set (db_slugs saved_db)" "''up'' \<notin> fst ` set (db_app_runs saved_db)"
    "map_option (\<lambda>t. tk_depends_on (detach ''up'' t)) (task_get saved_db ''down'') = Some []" by code_simp+
  from delete_detaches [OF wf_saved, of "''up''"] v(1,2)
  obtain db' where "task_delete ''up'' saved_db = Inr (True, db')"
    "\<forall>s. task_get db' s = (if s = ''up'' then None else map_option (detach ''up'') (task_get saved_db s))" by blast
  with v(3) show ?thesis by (auto simp: option.map_comp o_def)
qed

section \<open>Read, modify, write\<close>

text \<open>\<open>mutate_task\<close> raises \<open>KeyError\<close> for an unknown slug, passes on what the callback raises, and
  refuses a callback that changes the slug; otherwise it returns the callback's task, the slug
  reads as that task's normal form, every other task reads as before and the tables stay
  well formed. In every failing case the outcome carries no database: nothing is written.\<close>

theorem mutate_task_effect:
  assumes "wf_tasks db" and "\<And>t t'. fn t = Inr t' \<Longrightarrow> valid_task t'"
  shows "case task_get db slug of
      None \<Rightarrow> mutate_task slug fn db = Inl (KeyError slug)
    | Some b \<Rightarrow> (case fn b of
        Inl e \<Rightarrow> mutate_task slug fn db = Inl e
      | Inr t \<Rightarrow> (if tk_slug t \<noteq> slug then mutate_task slug fn db = Inl (slug_changed slug (tk_slug t))
          else \<forall>r db'. mutate_task slug fn db = Inr (r, db') \<longrightarrow> r = t \<and> wf_tasks db'
            \<and> (\<forall>s. task_get db' s = (if s = slug then Some (norm_task t) else task_get db s))))"
proof (cases "task_get db slug")
  case (Some b)
  show ?thesis
  proof (cases "fn b")
    case (Inr t)
    have valid: "valid_task t" by (rule assms(2) [OF Inr])
    have "r = t \<and> wf_tasks db' \<and> (\<forall>s. task_get db' s = (if s = slug then Some (norm_task t) else task_get db s))"
      if slug: "tk_slug t = slug" and m: "mutate_task slug fn db = Inr (r, db')" for r db'
      using mutate_law [OF assms(1) Some Inr valid slug m] by blast
    then show ?thesis using Some Inr by (auto simp: mutate_task_def)
  qed (use Some in \<open>simp add: mutate_task_def\<close>)
qed (simp add: mutate_task_def)

theorem mutate_task_effect_witness:
  "map_option tk_phase (task_get (snd (projr (mutate_task ''up'' (\<lambda>t. Inr (task_up\<lparr>tk_phase := Dev\<rparr>)) saved_db))) ''up'') = Some Dev
   \<and> task_get (snd (projr (mutate_task ''up'' (\<lambda>t. Inr (task_up\<lparr>tk_phase := Dev\<rparr>)) saved_db))) ''down'' = task_get saved_db ''down''"
proof -
  let ?fn = "\<lambda>t. Inr (task_up\<lparr>tk_phase := Dev\<rparr>) :: exn + task"
  have "valid_task (task_up\<lparr>tk_phase := Dev\<rparr>)" using valid_samples(1) by (simp add: valid_task_def)
  then have fn: "\<And>t t'. ?fn t = Inr t' \<Longrightarrow> valid_task t'" by auto
  have v: "mutate_task ''up'' ?fn saved_db = Inr (task_up\<lparr>tk_phase := Dev\<rparr>, snd (projr (mutate_task ''up'' ?fn saved_db)))"
    "task_get saved_db ''up'' \<noteq> None" "tk_slug (task_up\<lparr>tk_phase := Dev\<rparr>) = ''up''"
    "tk_phase (norm_task (task_up\<lparr>tk_phase := Dev\<rparr>)) = Dev" by code_simp+
  then obtain b where "task_get saved_db ''up'' = Some b" by blast
  with mutate_task_effect [where fn = ?fn and slug = "''up''", OF wf_saved fn] v(1,3,4) show ?thesis
    by (simp only: option.case sum.case) simp
qed

text \<open>C15: \<open>_persist_state\<close>: when it succeeds, exactly the mapping's slugs read as present, each as the
  normal form of its task, with one exception: a task that equals the stored one is not written,
  so it reads without its edges to the tasks this save removed.\<close>

theorem save_then_load:
  assumes "wf_tasks db" and "dict_ok ts" and "\<forall>t \<in> set (dict_values ts). valid_task t"
    and "persist_state ts db = Inr db'"
  shows "wf_tasks db' \<and> task_get db' s = (case map_of ts s of None \<Rightarrow> None | Some t \<Rightarrow>
      Some (norm_task (if unchanged db t then fold detach (gone ts db) t else t)))"
  using persist_effect [OF assms] by blast

theorem save_then_load_witness:
  "map_option tk_depends_on (task_get (projr (persist_state [(''down'', task_down)] saved_db)) ''down'') = Some []
   \<and> tk_depends_on task_down \<noteq> []"
proof -
  let ?ts = "[(''down'', task_down)]"
  have v: "persist_state ?ts saved_db = Inr (projr (persist_state ?ts saved_db))"
    "unchanged saved_db task_down" "dict_ok ?ts" "tk_depends_on task_down \<noteq> []"
    "tk_depends_on (norm_task (fold detach (gone ?ts saved_db) task_down)) = []" by code_simp+
  have "\<forall>t \<in> set (dict_values ?ts). valid_task t" using valid_samples by simp
  from save_then_load [OF wf_saved v(3) this v(1), of "''down''"] v(2,4,5) show ?thesis by simp
qed




text \<open>C17: \<open>mutate_tasks\<close>: on success the callback's mapping is returned and is what the store holds:
  a selected task reads as its normal form, a requested task the callback dropped is gone, and
  any task the call did not request, or did not change, loses at most its edges to dropped tasks.
  The stored dependency graph stays acyclic.\<close>

theorem mutate_tasks_effect:
  assumes "wf_tasks db" and "dict_ok selected" and "\<forall>t \<in> set (dict_values selected). valid_task t"
    and "mutate_tasks slugs fn db = Inr (selected, db')"
  shows "wf_tasks db' \<and> (\<forall>s. task_get db' s = changed_value db (sort (remdups slugs)) selected s)
    \<and> (acyclic (depends (task_list db)) \<longrightarrow> acyclic (depends (task_list db')))"
  using mutate_tasks_law [OF assms] mutate_tasks_acyclic [OF assms] by blast

definition drop_up :: "tasks \<Rightarrow> exn + tasks" where
  "drop_up ts = Inr (AList.delete ''up'' ts)"

theorem mutate_tasks_effect_witness:
  "\<exists>db'. mutate_tasks [''up''] drop_up saved_db = Inr ([], db') \<and> task_get db' ''up'' = None
     \<and> map_option tk_depends_on (task_get db' ''down'') = Some []"
proof -
  let ?db = "snd (projr (mutate_tasks [''up''] drop_up saved_db))"
  have m: "mutate_tasks [''up''] drop_up saved_db = Inr ([], ?db)"
    and v: "changed_value saved_db (sort (remdups [''up''])) [] ''up'' = None"
      "map_option tk_depends_on (changed_value saved_db (sort (remdups [''up''])) [] ''down'') = Some []"
    by code_simp+
  from mutate_tasks_effect [OF wf_saved _ _ m] v m show ?thesis by (intro exI [of _ ?db]) simp
qed

end
