(* ===== verification/Lifecycle_Properties.thy ===== *)
theory Lifecycle_Properties
  imports Lifecycle_Laws Task_Properties
begin

text \<open>
  The properties of work item ownership and of the lifecycle operations. The lifecycle is a step
  relation over workspaces, one constructor per operation; its invariant says that the two sides
  of every link agree.
\<close>

section \<open>Steps\<close>

inductive lifecycle_step :: "workspace \<Rightarrow> workspace \<Rightarrow> bool" where
  register: "valid_task t \<Longrightarrow> register_task t i now ws = Inr ws' \<Longrightarrow> lifecycle_step ws ws'"
| link: "link_task i s now ws = Inr ws' \<Longrightarrow> lifecycle_step ws ws'"
| bind: "bind_spec s i spec now ws = Inr ws' \<Longrightarrow> lifecycle_step ws ws'"
| adopt: "adopt_merged_metadata x urls fin base now ws = Inr (b, ws') \<Longrightarrow> lifecycle_step ws ws'"
| retain_delete: "retain_and_delete_task s now x ws = Inr (b, ws') \<Longrightarrow> lifecycle_step ws ws'"
| retain_delete_all: "retain_and_delete_tasks xs now ws = Inr (ss, ws') \<Longrightarrow> lifecycle_step ws ws'"
| prune: "retain_and_prune_task_repos s rs now x ws = Inr (b, ws') \<Longrightarrow> lifecycle_step ws ws'"
| record_prs: "record_pr_urls s urls now allow ws = Inr (t, ws') \<Longrightarrow> lifecycle_step ws ws'"

definition wf_ws :: "workspace \<Rightarrow> bool" where
  "wf_ws ws \<longleftrightarrow> wf_tasks (ws_tasks ws) \<and> wf_rows (ws_items ws)"

text \<open>Both sides of a link agree, where both sides are stored; the second form leaves one task out.\<close>

definition linked_except :: "str set \<Rightarrow> workspace \<Rightarrow> bool" where
  "linked_except S ws \<longleftrightarrow> (\<forall>s t i e. s \<notin> S \<longrightarrow> task_get (ws_tasks ws) s = Some t \<longrightarrow> item_get (ws_items ws) i = Some e \<longrightarrow>
     (tk_work_item_id t = Some i \<longleftrightarrow> s \<in> set (it_task_slugs e)))"

definition linked :: "workspace \<Rightarrow> bool" where
  "linked ws = linked_except {} ws"

text \<open>No item is lost, and none loses a task, a repository or a PR URL.\<close>

definition grows :: "workspace \<Rightarrow> workspace \<Rightarrow> bool" where
  "grows ws ws' \<longleftrightarrow> (\<forall>i e. item_get (ws_items ws) i = Some e \<longrightarrow> (\<exists>e'. item_get (ws_items ws') i = Some e'
     \<and> set (it_task_slugs e) \<subseteq> set (it_task_slugs e') \<and> set (it_affected_repos e) \<subseteq> set (it_affected_repos e')
     \<and> set (it_pr_urls e) \<subseteq> set (it_pr_urls e')))"

section \<open>Writes that do not touch links\<close>

definition tasks_keep :: "task_db \<Rightarrow> task_db \<Rightarrow> bool" where
  "tasks_keep tdb tdb' \<longleftrightarrow> wf_tasks tdb' \<and> (\<forall>s t'. task_get tdb' s = Some t' \<longrightarrow>
     (\<exists>t. task_get tdb s = Some t \<and> tk_work_item_id t' = tk_work_item_id t))"

definition items_keep :: "item_db \<Rightarrow> item_db \<Rightarrow> bool" where
  "items_keep idb idb' \<longleftrightarrow> wf_rows idb' \<and> (\<forall>i. rel_option (\<lambda>e e'. it_task_slugs e' = it_task_slugs e
     \<and> set (it_affected_repos e) \<subseteq> set (it_affected_repos e') \<and> set (it_pr_urls e) \<subseteq> set (it_pr_urls e'))
     (item_get idb i) (item_get idb' i))"

lemma keep_refl: "wf_tasks tdb \<Longrightarrow> tasks_keep tdb tdb" "wf_rows idb \<Longrightarrow> items_keep idb idb"
  by (auto simp: tasks_keep_def items_keep_def option.rel_refl)

lemma tasks_keep_trans: "tasks_keep a b \<Longrightarrow> tasks_keep b c \<Longrightarrow> tasks_keep a c"
  unfolding tasks_keep_def by metis

lemma items_keep_trans: "items_keep a b \<Longrightarrow> items_keep b c \<Longrightarrow> items_keep a c"
proof -
  assume ab: "items_keep a b" and bc: "items_keep b c"
  let ?R = "\<lambda>e e'. it_task_slugs e' = it_task_slugs e \<and> set (it_affected_repos e) \<subseteq> set (it_affected_repos e')
     \<and> set (it_pr_urls e) \<subseteq> set (it_pr_urls e')"
  have "rel_option ?R (item_get a i) (item_get c i)" for i
  proof -
    have "rel_option ?R (item_get a i) (item_get b i)" "rel_option ?R (item_get b i) (item_get c i)"
      using ab bc by (simp_all add: items_keep_def)
    then show ?thesis
      by (cases "item_get a i"; cases "item_get b i"; cases "item_get c i") auto
  qed
  with bc show ?thesis by (simp add: items_keep_def)
qed

lemma items_keep_get:
  assumes "items_keep idb idb'" and "item_get idb' i = Some e'"
  obtains e where "item_get idb i = Some e" and "it_task_slugs e' = it_task_slugs e"
proof -
  have "rel_option (\<lambda>e e'. it_task_slugs e' = it_task_slugs e
     \<and> set (it_affected_repos e) \<subseteq> set (it_affected_repos e') \<and> set (it_pr_urls e) \<subseteq> set (it_pr_urls e'))
     (item_get idb i) (item_get idb' i)" using assms(1) by (simp add: items_keep_def)
  with assms(2) that show ?thesis by (cases "item_get idb i") auto
qed

lemma keep_links:
  assumes "tasks_keep (ws_tasks ws) (ws_tasks ws')" and "items_keep (ws_items ws) (ws_items ws')"
  shows "wf_ws ws'" and "linked ws \<Longrightarrow> linked ws'" and "grows ws ws'"
proof -
  show "wf_ws ws'" using assms by (simp add: wf_ws_def tasks_keep_def items_keep_def)
  show "linked ws'" if l: "linked ws"
    unfolding linked_def linked_except_def
  proof (intro allI impI)
    fix s t i e assume t: "task_get (ws_tasks ws') s = Some t" and e: "item_get (ws_items ws') i = Some e"
    obtain t0 where t0: "task_get (ws_tasks ws) s = Some t0" "tk_work_item_id t = tk_work_item_id t0"
      using assms(1) t by (auto simp: tasks_keep_def)
    obtain e0 where e0: "item_get (ws_items ws) i = Some e0" "it_task_slugs e = it_task_slugs e0"
      by (rule items_keep_get [OF assms(2) e])
    show "tk_work_item_id t = Some i \<longleftrightarrow> s \<in> set (it_task_slugs e)"
      using l t0 e0 by (simp add: linked_def linked_except_def)
  qed
  show "grows ws ws'"
    unfolding grows_def
  proof (intro allI impI)
    fix i e assume e: "item_get (ws_items ws) i = Some e"
    have "rel_option (\<lambda>e e'. it_task_slugs e' = it_task_slugs e
     \<and> set (it_affected_repos e) \<subseteq> set (it_affected_repos e') \<and> set (it_pr_urls e) \<subseteq> set (it_pr_urls e'))
     (item_get (ws_items ws) i) (item_get (ws_items ws') i)" using assms(2) by (simp add: items_keep_def)
    with e show "\<exists>e'. item_get (ws_items ws') i = Some e'
     \<and> set (it_task_slugs e) \<subseteq> set (it_task_slugs e') \<and> set (it_affected_repos e) \<subseteq> set (it_affected_repos e')
     \<and> set (it_pr_urls e) \<subseteq> set (it_pr_urls e')" by (cases "item_get (ws_items ws') i") auto
  qed
qed

lemma replace_keeps:
  assumes "wf_tasks tdb" and "task_get tdb s = Some t" and "valid_task t'" and "tk_slug t' = s"
    and "tk_work_item_id t' = tk_work_item_id t" and "replace_db t' tdb = Inr tdb'"
  shows "tasks_keep tdb tdb'"
  using replace_law(1,3) [OF assms(1,3,6)] assms(2,4,5)
  by (auto simp: tasks_keep_def norm_task_def)

lemma delete_keeps:
  assumes "wf_tasks tdb" and "delete_db s tdb = Inr tdb'"
  shows "tasks_keep tdb tdb'"
  using delete_law [OF assms] by (auto simp: tasks_keep_def detach_def split: if_split_asm)

lemma retain_keeps:
  assumes "wf_rows idb" and "retain_loaded t now allow idb = Inr (b, idb')"
  shows "items_keep idb idb'"
  unfolding items_keep_def
proof (intro conjI allI)
  show "wf_rows idb'" by (rule retain_loaded_effect(1) [OF assms])
  fix i
  show "rel_option (\<lambda>e e'. it_task_slugs e' = it_task_slugs e
     \<and> set (it_affected_repos e) \<subseteq> set (it_affected_repos e') \<and> set (it_pr_urls e) \<subseteq> set (it_pr_urls e'))
     (item_get idb i) (item_get idb' i)"
    unfolding retain_loaded_effect(2) [OF assms] by (cases "item_get idb i") auto
qed

section \<open>Each operation\<close>

lemma get_valid: "wf_tasks tdb \<Longrightarrow> task_get tdb s = Some t \<Longrightarrow> valid_task t \<and> tk_slug t = s \<and> norm_task t = t"
  using wf_tasks_get by blast

lemma task_delete_keeps:
  assumes "wf_tasks tdb" and "task_delete s tdb = Inr (b, tdb')"
  shows "tasks_keep tdb tdb'"
  by (rule delete_keeps [OF assms(1), of s]) (simp add: delete_db_def assms(2))

lemma valid_updates:
  "valid_task t \<Longrightarrow> valid_task (adopted t urls fin base)"
  "valid_task t \<Longrightarrow> valid_task (t\<lparr>tk_pr_urls := dict_update (tk_pr_urls t) urls\<rparr>)"
  "valid_task t \<Longrightarrow> valid_task (t\<lparr>tk_worktrees := filter P (tk_worktrees t)\<rparr>)"
  "valid_task t \<Longrightarrow> valid_task (t\<lparr>tk_work_item_id := i\<rparr>)"
  by (simp_all add: valid_task_def adopted_def) (simp add: dict_ok_def distinct_map_filter)

lemma adopt_keeps:
  assumes wf: "wf_ws ws" and a: "adopt_merged_metadata x urls fin base now ws = Inr (b, ws')"
  shows "tasks_keep (ws_tasks ws) (ws_tasks ws') \<and> items_keep (ws_items ws) (ws_items ws')"
proof -
  obtain t where t: "task_get (ws_tasks ws) (tk_slug x) = Some t"
    using a by (auto simp: adopt_merged_metadata_def split: option.splits)
  let ?t = "adopted t urls fin base"
  obtain tdb c idb where w: "(if \<not> task_eq ?t x then replace_db ?t (ws_tasks ws) else Inr (ws_tasks ws)) = Inr tdb"
    and r: "retain_loaded ?t now True (ws_items ws) = Inr (c, idb)" and ws': "ws' = \<lparr>ws_tasks = tdb, ws_items = idb\<rparr>"
    using a t by (auto simp: adopt_merged_metadata_def Let_def rbind_eq_Inr)
  note v = get_valid [OF _ t]
  have "tasks_keep (ws_tasks ws) tdb"
  proof (cases "task_eq ?t x")
    case False
    with w have "replace_db ?t (ws_tasks ws) = Inr tdb" by simp
    from replace_keeps [OF _ t _ _ _ this] v wf valid_updates(1) show ?thesis by (simp add: wf_ws_def adopted_def)
  qed (use w wf in \<open>simp add: wf_ws_def keep_refl\<close>)
  with retain_keeps [OF _ r] wf ws' show ?thesis by (simp add: wf_ws_def)
qed

lemma retain_delete_keeps:
  assumes wf: "wf_ws ws" and a: "retain_and_delete_task s now x ws = Inr (b, ws')"
  shows "tasks_keep (ws_tasks ws) (ws_tasks ws') \<and> items_keep (ws_items ws) (ws_items ws')"
proof (cases "task_get (ws_tasks ws) s")
  case None
  with a wf show ?thesis
    by (simp add: retain_and_delete_task_def wf_ws_def keep_refl split: if_split_asm)
next
  case (Some t)
  then obtain c idb tdb where "retain_loaded t now False (ws_items ws) = Inr (c, idb)"
    "task_delete s (ws_tasks ws) = Inr (b, tdb)" "ws' = \<lparr>ws_tasks = tdb, ws_items = idb\<rparr>"
    using a by (auto simp: retain_and_delete_task_def rbind_eq_Inr)
  with retain_keeps task_delete_keeps wf show ?thesis by (simp add: wf_ws_def)
qed

lemma retain_all_keeps:
  "wf_rows idb \<Longrightarrow> rfold (retain_step now) xs idb = Inr idb' \<Longrightarrow> items_keep idb idb'"
proof (induction xs arbitrary: idb)
  case (Cons x xs)
  then obtain b idb1 where 1: "retain_loaded (snd x) now False idb = Inr (b, idb1)"
    and 2: "rfold (retain_step now) xs idb1 = Inr idb'"
    by (auto simp: retain_step_def [of now x] rbind_eq_Inr)
  have k: "items_keep idb idb1" by (rule retain_keeps [OF Cons.prems(1) 1])
  then have "wf_rows idb1" by (simp add: items_keep_def)
  from items_keep_trans [OF k Cons.IH [OF this 2]] show ?case .
qed (simp add: keep_refl)

lemma delete_all_keeps:
  "wf_tasks tdb \<Longrightarrow> rfold delete_db xs tdb = Inr tdb' \<Longrightarrow> tasks_keep tdb tdb'"
proof (induction xs arbitrary: tdb)
  case (Cons x xs)
  then obtain tdb1 where 1: "delete_db x tdb = Inr tdb1" "rfold delete_db xs tdb1 = Inr tdb'"
    by (auto simp: rbind_eq_Inr)
  have k: "tasks_keep tdb tdb1" by (rule delete_keeps [OF Cons.prems(1) 1(1)])
  then have "wf_tasks tdb1" by (simp add: tasks_keep_def)
  from tasks_keep_trans [OF k Cons.IH [OF this 1(2)]] show ?case .
qed (simp add: keep_refl)

lemma retain_delete_all_keeps:
  assumes wf: "wf_ws ws" and a: "retain_and_delete_tasks xs now ws = Inr (ss, ws')"
  shows "tasks_keep (ws_tasks ws) (ws_tasks ws') \<and> items_keep (ws_items ws) (ws_items ws')"
proof -
  obtain loaded idb tdb where "rfold (retain_step now) loaded (ws_items ws) = Inr idb"
    "rfold delete_db (dict_keys loaded) (ws_tasks ws) = Inr tdb" "ws' = \<lparr>ws_tasks = tdb, ws_items = idb\<rparr>"
    using a by (auto simp: retain_and_delete_tasks_def rbind_eq_Inr)
  with retain_all_keeps delete_all_keeps wf show ?thesis by (simp add: wf_ws_def)
qed

lemma prune_keeps:
  assumes wf: "wf_ws ws" and a: "retain_and_prune_task_repos s rs now x ws = Inr (b, ws')"
  shows "tasks_keep (ws_tasks ws) (ws_tasks ws') \<and> items_keep (ws_items ws) (ws_items ws')"
proof (cases "task_get (ws_tasks ws) s")
  case None
  with a wf show ?thesis
    by (simp add: retain_and_prune_task_repos_def wf_ws_def keep_refl split: if_split_asm)
next
  case (Some t)
  let ?t = "t\<lparr>tk_worktrees := filter (\<lambda>kv. fst kv \<notin> set rs) (tk_worktrees t)\<rparr>"
  show ?thesis
  proof (cases "tk_worktrees ?t = []")
    case True
    with a Some obtain c idb d where "retain_loaded ?t now False (ws_items ws) = Inr (c, idb)"
      "task_delete s (ws_tasks ws) = Inr d" "ws' = \<lparr>ws_tasks = snd d, ws_items = idb\<rparr>"
      by (auto simp: retain_and_prune_task_repos_def rbind_eq_Inr Let_def)
    with retain_keeps task_delete_keeps [of "ws_tasks ws" s "fst d" "snd d"] wf show ?thesis by (simp add: wf_ws_def)
  next
    case False
    with a Some obtain tdb where "replace_db ?t (ws_tasks ws) = Inr tdb" "ws' = ws\<lparr>ws_tasks := tdb\<rparr>"
      by (auto simp: retain_and_prune_task_repos_def rbind_eq_Inr Let_def)
    with replace_keeps [OF _ Some _ _ _ this(1)] get_valid [OF _ Some] valid_updates(3) wf
    show ?thesis by (simp add: wf_ws_def keep_refl)
  qed
qed

lemma record_keeps:
  assumes wf: "wf_ws ws" and a: "record_pr_urls s urls now allow ws = Inr (r, ws')"
  shows "tasks_keep (ws_tasks ws) (ws_tasks ws') \<and> items_keep (ws_items ws) (ws_items ws')"
proof -
  obtain t where t: "task_get (ws_tasks ws) s = Some t"
    using a by (auto simp: record_pr_urls_def split: option.splits)
  let ?t = "t\<lparr>tk_pr_urls := dict_update (tk_pr_urls t) urls\<rparr>"
  obtain tdb c idb where "replace_db ?t (ws_tasks ws) = Inr tdb"
    "retain_loaded ?t now allow (ws_items ws) = Inr (c, idb)" "ws' = \<lparr>ws_tasks = tdb, ws_items = idb\<rparr>"
    using a t by (auto simp: record_pr_urls_def Let_def rbind_eq_Inr)
  with replace_keeps [OF _ t _ _ _ this(1)] retain_keeps [OF _ this(2)] get_valid [OF _ t] valid_updates(2) wf
  show ?thesis by (simp add: wf_ws_def)
qed

section \<open>Linking\<close>

lemma link_loaded_links:
  assumes wf: "wf_ws ws" and t: "valid_task t" "task_get (ws_tasks ws) (tk_slug t) = Some (norm_task t)"
    and e: "item_get (ws_items ws) i = Some e" and own: "set (owner_ids (tk_slug t) (ws_items ws)) \<subseteq> {i}"
    and r: "link_loaded t e now spec ws = Inr ws'" and l: "linked_except {tk_slug t} ws"
  shows "linked ws'"
  unfolding linked_def linked_except_def
proof (intro allI impI)
  note wfs = wf [unfolded wf_ws_def, THEN conjunct1] wf [unfolded wf_ws_def, THEN conjunct2]
  note eff = link_loaded_effect [OF wfs(1) t wfs(2) e r]
  let ?e = "item_after_link e (tk_slug t) spec now"
  fix s q j f assume q: "task_get (ws_tasks ws') s = Some q" and f: "item_get (ws_items ws') j = Some f"
  have mem: "s \<in> set (it_task_slugs f) \<longleftrightarrow> (if j = i then s = tk_slug t \<or> s \<in> set (it_task_slugs e)
      else \<exists>g. item_get (ws_items ws) j = Some g \<and> s \<in> set (it_task_slugs g))"
    using f eff(4) [of j] by (auto simp: item_after_link_simps split: if_split_asm)
  show "tk_work_item_id q = Some j \<longleftrightarrow> s \<in> set (it_task_slugs f)"
  proof (cases "s = tk_slug t")
    case True
    then have "q = norm_task (linked_task t i spec)" using q eff(3) [of s] by simp
    then have "tk_work_item_id q = Some i" by (simp add: norm_task_def)
    moreover have "\<exists>g. item_get (ws_items ws) j = Some g \<and> s \<in> set (it_task_slugs g) \<Longrightarrow> j = i"
      using own set_owner_ids [OF wfs(2), of j s] True by auto
    ultimately show ?thesis using mem True by auto
  next
    case False
    then have qs: "task_get (ws_tasks ws) s = Some q" using q eff(3) [of s] by simp
    show ?thesis
    proof (cases "j = i")
      case True
      with mem False l qs e show ?thesis by (auto simp: linked_except_def)
    next
      case ji: False
      then have "item_get (ws_items ws) j = Some f" using f eff(4) [of j] by simp
      with mem False ji l qs show ?thesis by (auto simp: linked_except_def)
    qed
  qed
qed

lemma link_loaded_grows:
  assumes wf: "wf_ws ws" and t: "valid_task t" "task_get (ws_tasks ws) (tk_slug t) = Some (norm_task t)"
    and e: "item_get (ws_items ws) i = Some e" and r: "link_loaded t e now spec ws = Inr ws'"
  shows "wf_ws ws'" and "grows ws ws'"
proof -
  note wfs = wf [unfolded wf_ws_def, THEN conjunct1] wf [unfolded wf_ws_def, THEN conjunct2]
  note eff = link_loaded_effect [OF wfs(1) t wfs(2) e r]
  show "wf_ws ws'" using eff(1,2) by (simp add: wf_ws_def)
  show "grows ws ws'"
    unfolding grows_def eff(4) using e by (auto simp: item_after_link_simps)
qed

lemma link_to_item_steps:
  assumes wf: "wf_ws ws" and a: "link_to_item s i spec now ws = Inr ws'"
  obtains t e where "task_get (ws_tasks ws) s = Some t" and "item_get (ws_items ws) i = Some e"
    and "set (owner_ids s (ws_items ws)) \<subseteq> {i}" and "link_loaded t e now spec ws = Inr ws'"
    and "valid_task t" and "tk_slug t = s" and "task_get (ws_tasks ws) (tk_slug t) = Some (norm_task t)"
proof -
  obtain t e where t: "task_get (ws_tasks ws) s = Some t" and own: "require_owner_available s i (ws_items ws) = Inr e"
    and l: "link_loaded t e now spec ws = Inr ws'"
    using a by (auto simp: link_to_item_def rbind_eq_Inr split: option.splits)
  have "wf_tasks (ws_tasks ws)" using wf by (simp add: wf_ws_def)
  note v = get_valid [OF this t]
  note o = own [unfolded require_owner_Inr]
  from v t have "task_get (ws_tasks ws) (tk_slug t) = Some (norm_task t)" by simp
  with t o l v show ?thesis using that by blast
qed

lemma link_to_item_keeps:
  assumes wf: "wf_ws ws" and a: "link_to_item s i spec now ws = Inr ws'"
  shows "wf_ws ws'" and "linked ws \<Longrightarrow> linked ws'" and "grows ws ws'"
proof -
  obtain t e where st: "task_get (ws_tasks ws) s = Some t" "item_get (ws_items ws) i = Some e"
    "set (owner_ids s (ws_items ws)) \<subseteq> {i}" "link_loaded t e now spec ws = Inr ws'"
    "valid_task t" "tk_slug t = s" "task_get (ws_tasks ws) (tk_slug t) = Some (norm_task t)"
    by (rule link_to_item_steps [OF wf a])
  show "wf_ws ws'" "grows ws ws'" by (rule link_loaded_grows [OF wf st(5,7,2,4)])+
  show "linked ws'" if "linked ws"
    by (rule link_loaded_links [OF wf st(5,7,2) _ st(4)]) (use st that in \<open>simp_all add: linked_def linked_except_def\<close>)
qed

lemma register_keeps:
  assumes wf: "wf_ws ws" and v: "valid_task t" and a: "register_task t i now ws = Inr ws'"
  shows "wf_ws ws'" and "linked ws \<Longrightarrow> linked ws'" and "grows ws ws'"
proof -
  let ?t = "t\<lparr>tk_work_item_id := Some i\<rparr>"
  obtain tdb e where ins: "task_insert ?t (ws_tasks ws) = Inr tdb"
    and own: "require_owner_available (tk_slug t) i (ws_items ws) = Inr e"
    and r: "link_loaded ?t e now None (ws\<lparr>ws_tasks := tdb\<rparr>) = Inr ws'"
    using a by (auto simp: register_task_def Let_def rbind_eq_Inr split: if_split_asm)
  have v': "valid_task ?t" by (rule valid_updates(4) [OF v])
  have wft: "wf_tasks (ws_tasks ws)" using wf by (simp add: wf_ws_def)
  note law = insert_law [OF wft v' ins] insert_wf_law [OF wft v' ins]
  have wf1: "wf_ws (ws\<lparr>ws_tasks := tdb\<rparr>)" using wf law by (simp add: wf_ws_def)
  have e: "item_get (ws_items (ws\<lparr>ws_tasks := tdb\<rparr>)) i = Some e"
    and o: "set (owner_ids (tk_slug ?t) (ws_items (ws\<lparr>ws_tasks := tdb\<rparr>))) \<subseteq> {i}"
    using own by (simp_all add: require_owner_Inr)
  have get: "task_get (ws_tasks (ws\<lparr>ws_tasks := tdb\<rparr>)) (tk_slug ?t) = Some (norm_task ?t)" using law by simp
  show "wf_ws ws'" by (rule link_loaded_grows(1) [OF wf1 v' get e r])
  show "grows ws ws'" using link_loaded_grows(2) [OF wf1 v' get e r] by (simp add: grows_def)
  show "linked ws'" if "linked ws"
    by (rule link_loaded_links [OF wf1 v' get e o r]) (use law that in \<open>simp add: linked_def linked_except_def\<close>)
qed

lemma step_keeps:
  assumes "lifecycle_step ws ws'" and "wf_ws ws"
  shows "wf_ws ws' \<and> (linked ws \<longrightarrow> linked ws') \<and> grows ws ws'"
  using assms
proof (induction rule: lifecycle_step.induct)
  case (register t i now ws ws')
  with register_keeps show ?case by blast
next
  case (link i s now ws ws')
  with link_to_item_keeps show ?case unfolding link_task_def by blast
next
  case (bind s i spec now ws ws')
  with link_to_item_keeps show ?case unfolding bind_spec_def by blast
next
  case (adopt x urls fin base now ws b ws')
  from adopt_keeps [OF adopt(2,1)] keep_links show ?case by blast
next
  case (retain_delete s now x ws b ws')
  from retain_delete_keeps [OF retain_delete(2,1)] keep_links show ?case by blast
next
  case (retain_delete_all xs now ws ss ws')
  from retain_delete_all_keeps [OF retain_delete_all(2,1)] keep_links show ?case by blast
next
  case (prune s rs now x ws b ws')
  from prune_keeps [OF prune(2,1)] keep_links show ?case by blast
next
  case (record_prs s urls now allow ws t ws')
  from record_keeps [OF record_prs(2,1)] keep_links show ?case by blast
qed

section \<open>A concrete workspace\<close>

definition item_one :: work_item where
  "item_one = \<lparr>it_id = ''wi-1'', it_title = ''one'', it_workspace = ''w'', it_kind = Feature, it_created_at = Aware 0 0,
     it_updated_at = Aware 0 0, it_spec_id = None, it_plan_path = None, it_task_slugs = [], it_thread_ids = [''t1''],
     it_external_links = [], it_phase_override = None, it_unattended = False, it_archived = False,
     it_affected_repos = [''old''], it_pr_urls = [], it_extras = [(''z'', JNull), (''a'', JObj [(''y'', JNull), (''b'', JNull)])]\<rparr>"

definition no_items :: item_db where
  "no_items = \<lparr>db_items = [], db_item_tasks = [], db_item_threads = [], db_item_links = [], db_item_repos = [], db_item_prs = []\<rparr>"

definition one_item :: item_db where
  "one_item = projr (save_item item_one no_items)"

definition bare_ws :: workspace where
  "bare_ws = \<lparr>ws_tasks = empty_db, ws_items = one_item\<rparr>"

definition task_pr :: task where
  "task_pr = task_up\<lparr>tk_pr_urls := [(''api'', ''pr1'')]\<rparr>"

definition linked_ws :: workspace where
  "linked_ws = projr (register_task task_pr ''wi-1'' (Aware 5 0) bare_ws)"

lemma wf_no_items: "wf_rows no_items"
  by (simp add: wf_rows_def no_items_def childless_def item_ids_def children_def)

lemma wf_one_item: "wf_rows one_item"
proof -
  have "item_insert item_one no_items = Inr one_item" by code_simp
  then show ?thesis by (rule item_insert_wf [OF wf_no_items])
qed

lemma wf_bare: "wf_ws bare_ws" and linked_bare: "linked bare_ws"
  using wf_empty wf_one_item by (simp_all add: wf_ws_def bare_ws_def linked_def linked_except_def empty_db_def task_get_def)

lemma registered: "register_task task_pr ''wi-1'' (Aware 5 0) bare_ws = Inr linked_ws"
  by code_simp

lemma valid_task_pr: "valid_task task_pr"
  using valid_samples(1) by (simp add: task_pr_def valid_task_def dict_ok_def)

lemma wf_linked: "wf_ws linked_ws"
  by (rule register_keeps(1) [OF wf_bare valid_task_pr registered])

section \<open>Invariants of the lifecycle\<close>

text \<open>C22: whatever sequence of lifecycle operations runs (registering, linking, binding a spec,
  adopting merged metadata, recording PRs, pruning, tearing down one or several tasks), the tables
  stay well formed, the two sides of every link agree afterwards if they agreed before, and no
  work item disappears or loses a task slug, an affected repository or a PR URL.\<close>

theorem lifecycle_keeps_links:
  assumes "lifecycle_step\<^sup>*\<^sup>* ws ws'" and "wf_ws ws" and "linked ws"
  shows "wf_ws ws' \<and> linked ws' \<and> grows ws ws'"
  using assms
proof (induction rule: rtranclp_induct)
  case (step a b)
  then have "wf_ws b \<and> linked b \<and> grows a b" "grows ws a" using step_keeps by blast+
  then show ?case unfolding grows_def by (meson order_trans)
qed (auto simp: grows_def)

theorem lifecycle_keeps_links_witness:
  "lifecycle_step\<^sup>*\<^sup>* bare_ws linked_ws \<and> linked linked_ws \<and> grows bare_ws linked_ws
   \<and> map_option tk_work_item_id (task_get (ws_tasks linked_ws) ''up'') = Some (Some ''wi-1'')
   \<and> map_option it_task_slugs (item_get (ws_items linked_ws) ''wi-1'') = Some [''up'']"
proof -
  have s: "lifecycle_step\<^sup>*\<^sup>* bare_ws linked_ws"
    by (rule r_into_rtranclp) (rule register [OF valid_task_pr registered])
  have v: "map_option tk_work_item_id (task_get (ws_tasks linked_ws) ''up'') = Some (Some ''wi-1'')"
    "map_option it_task_slugs (item_get (ws_items linked_ws) ''wi-1'') = Some [''up'']" by code_simp+
  from lifecycle_keeps_links [OF s wf_bare linked_bare] s v show ?thesis by blast
qed


definition two_ws :: workspace where
  "two_ws = linked_ws\<lparr>ws_items := projr (save_item (item_one\<lparr>it_id := ''wi-2'', it_thread_ids := [''t2'']\<rparr>) (ws_items linked_ws))\<rparr>"

lemma wf_two: "wf_ws two_ws"
proof -
  have "item_insert (item_one\<lparr>it_id := ''wi-2'', it_thread_ids := [''t2'']\<rparr>) (ws_items linked_ws) = Inr (ws_items two_ws)"
    "ws_tasks two_ws = ws_tasks linked_ws" by code_simp+
  with item_insert_wf [OF _ this(1)] wf_linked show ?thesis by (simp add: wf_ws_def)
qed


text \<open>C24: tearing a task down with \<open>retain_and_delete_task\<close> loses no delivery metadata: when it reports
  a deletion, the task is gone, and the item that owns it (by its forward link, or else by the
  task's own link) is there and lists every affected repository and every PR URL of the task
  besides what it listed before.\<close>

theorem teardown_keeps_delivery:
  assumes "wf_ws ws" and "retain_and_delete_task s now expected ws = Inr (True, ws')"
  shows "\<exists>t. task_get (ws_tasks ws) s = Some t \<and> task_get (ws_tasks ws') s = None
    \<and> (case owner_of t (ws_items ws) of None \<Rightarrow> ws_items ws' = ws_items ws
       | Some i \<Rightarrow> \<exists>e e'. item_get (ws_items ws) i = Some e \<and> item_get (ws_items ws') i = Some e'
           \<and> set (it_affected_repos e') = set (it_affected_repos e) \<union> set (tk_affected_repos t)
           \<and> set (it_pr_urls e') = set (it_pr_urls e) \<union> set (dict_values (tk_pr_urls t)))"
proof -
  obtain t where t: "task_get (ws_tasks ws) s = Some t"
    using assms(2) by (auto simp: retain_and_delete_task_def split: option.splits if_splits)
  then obtain c idb tdb where r: "retain_loaded t now False (ws_items ws) = Inr (c, idb)"
    and d: "task_delete s (ws_tasks ws) = Inr (True, tdb)" and ws': "ws' = \<lparr>ws_tasks = tdb, ws_items = idb\<rparr>"
    using assms(2) by (auto simp: retain_and_delete_task_def rbind_eq_Inr)
  have wf: "wf_tasks (ws_tasks ws)" "wf_rows (ws_items ws)" using assms(1) by (simp_all add: wf_ws_def)
  have "delete_db s (ws_tasks ws) = Inr tdb" using d by (simp add: delete_db_def)
  from delete_law(1) [OF wf(1) this] have none: "task_get tdb s = None" by simp
  note eff = retain_loaded_effect [OF wf(2) r]
  from r have "c = False \<longrightarrow> idb = ws_items ws"
    by (auto simp: retain_loaded_def rbind_eq_Inr split: option.splits if_splits)
  moreover have "owner_of t (ws_items ws) = None \<Longrightarrow> c = False"
    using r resolve_owner_Inr [of t False "ws_items ws"]
    by (auto simp: retain_loaded_def rbind_eq_Inr split: option.splits)
  ultimately have same: "owner_of t (ws_items ws) = None \<Longrightarrow> idb = ws_items ws" by blast
  have "\<exists>e. item_get (ws_items ws) i = Some e" if "owner_of t (ws_items ws) = Some i" for i
    using r that by (auto simp: retain_loaded_def rbind_eq_Inr resolve_owner_item_def owner_of_def Let_def
        split: option.splits list.splits if_splits)
  note stored = this
  have "\<exists>e e'. item_get (ws_items ws) i = Some e \<and> item_get idb i = Some e'
           \<and> set (it_affected_repos e') = set (it_affected_repos e) \<union> set (tk_affected_repos t)
           \<and> set (it_pr_urls e') = set (it_pr_urls e) \<union> snd ` set (tk_pr_urls t)"
    if o: "owner_of t (ws_items ws) = Some i" for i
  proof -
    obtain e where e: "item_get (ws_items ws) i = Some e" using stored [OF o] by blast
    show ?thesis
    proof (cases c)
      case True
      with eff(2) [of i] o e show ?thesis by simp
    next
      case False
      with eff(3) [OF False o e] keeps_already_sets [of e t] eff(2) [of i] e show ?thesis by auto
    qed
  qed
  with t none same ws' show ?thesis by (auto split: option.split)
qed

theorem teardown_keeps_delivery_witness:
  "\<exists>ws'. retain_and_delete_task ''up'' (Aware 9 0) None linked_ws = Inr (True, ws')
     \<and> task_get (ws_tasks ws') ''up'' = None"
proof -
  let ?r = "retain_and_delete_task ''up'' (Aware 9 0) None linked_ws"
  have r: "?r = Inr (True, snd (projr ?r))" by code_simp
  from teardown_keeps_delivery [OF wf_linked r] r show ?thesis by (intro exI [of _ "snd (projr ?r)"]) auto
qed

text \<open>Optimistic concurrency of the teardown operations: when the stored task is missing or differs
  from the snapshot the caller checked, deleting it, pruning it and adopting metadata for it are
  all refused with a retention conflict, so nothing is written.\<close>

theorem stale_snapshot_refused:
  assumes "case task_get (ws_tasks ws) s of None \<Rightarrow> True | Some t \<Rightarrow> \<not> task_eq t x \<and> tk_slug t = s" and "tk_slug x = s"
  shows "(\<exists>msg. retain_and_delete_task s now (Some x) ws = Inl (RetentionConflict s msg))
    \<and> (\<exists>msg. retain_and_prune_task_repos s rs now (Some x) ws = Inl (RetentionConflict s msg))
    \<and> (\<exists>msg. adopt_merged_metadata x urls fin base now ws = Inl (RetentionConflict s msg))
    \<and> (\<exists>msg. retain_and_delete_tasks [(s, x)] now ws = Inl (RetentionConflict s msg))"
  using assms
  by (auto simp: retain_and_delete_task_def retain_and_prune_task_repos_def adopt_merged_metadata_def
      retain_and_delete_tasks_def load_expected_def validate_expected_def Let_def split: option.splits)

theorem stale_snapshot_refused_witness:
  "\<exists>msg. retain_and_delete_task ''up'' (Aware 9 0) (Some task_up) linked_ws = Inl (RetentionConflict ''up'' msg)"
proof -
  have "case task_get (ws_tasks linked_ws) ''up'' of None \<Rightarrow> True | Some t \<Rightarrow> \<not> task_eq t task_up \<and> tk_slug t = ''up''"
    "tk_slug task_up = ''up''" by code_simp+
  from stale_snapshot_refused [OF this] show ?thesis by blast
qed

section \<open>Saving and linking items\<close>

text \<open>C25: \<open>WorkItemStore.save\<close> succeeds exactly for a safe id and lists without repeats whose tasks and
  threads no other item lists; after a save the item reads as its normal form (timestamps in UTC,
  extra fields with their keys sorted at every level) and every other item reads as before.\<close>

theorem save_item_exact:
  assumes "wf_rows db"
  shows "((\<exists>db'. save_item e db = Inr db') \<longleftrightarrow> \<not> unsafe_id (it_id e) \<and> fits e db)
    \<and> (\<forall>db'. save_item e db = Inr db' \<longrightarrow> wf_rows db'
        \<and> (\<forall>j. item_get db' j = (if j = it_id e then Some (norm_item e) else item_get db j)))"
proof
  have "fits e db \<Longrightarrow> validate_ownership e (item_list True db) = Inr ()"
    unfolding validate_Inr [OF assms] fits_def by blast
  then show "(\<exists>db'. save_item e db = Inr db') \<longleftrightarrow> \<not> unsafe_id (it_id e) \<and> fits e db"
    using write_item_exact [OF assms, of e] unfolding save_item_def rbind_eq_Inr by auto
qed (use save_item_effect [OF assms] in blast)

theorem save_item_exact_witness:
  "map_option it_extras (item_get (projr (save_item item_one no_items)) ''wi-1'')
     = Some [(''a'', JObj [(''b'', JNull), (''y'', JNull)]), (''z'', JNull)]"
proof -
  have v: "save_item item_one no_items = Inr (projr (save_item item_one no_items))" "it_id item_one = ''wi-1''"
    "it_extras (norm_item item_one) = [(''a'', JObj [(''b'', JNull), (''y'', JNull)]), (''z'', JNull)]" by code_simp+
  from save_item_exact [OF wf_no_items, of item_one] v show ?thesis by simp
qed



text \<open>The WorkItem a task resolves to: its one forward owner where there is one, the task's own
  link otherwise; the ambiguity error is never raised on well-formed tables.\<close>

theorem resolve_never_ambiguous:
  assumes "wf_rows db"
  shows "resolve_task_workitem_id s reverse db = Inr
    (if \<exists>i e. item_get db i = Some e \<and> s \<in> set (it_task_slugs e)
     then Some (THE i. \<exists>e. item_get db i = Some e \<and> s \<in> set (it_task_slugs e)) else reverse)"
proof (cases rule: owner_ids_cases [OF assms, of s, case_names none one])
  case none
  then show ?thesis by (auto simp: resolve_task_workitem_id_def)
next
  case (one i e)
  have "(THE i. \<exists>e. item_get db i = Some e \<and> s \<in> set (it_task_slugs e)) = i"
  proof (rule the_equality)
    fix j assume "\<exists>e. item_get db j = Some e \<and> s \<in> set (it_task_slugs e)"
    then have "owner_ids s db = [j]" using owner_ids_unique [OF assms] by blast
    with one(1) show "j = i" by simp
  qed (use one in blast)
  with one show ?thesis by (auto simp: resolve_task_workitem_id_def)
qed

theorem resolve_never_ambiguous_witness:
  "resolve_task_workitem_id ''x'' (Some ''wi-9'') one_item = Inr (Some ''wi-9'')"
proof -
  have o: "owner_ids ''x'' one_item = []" by code_simp
  then have "\<nexists>i e. item_get one_item i = Some e \<and> ''x'' \<in> set (it_task_slugs e)"
    using set_owner_ids [OF wf_one_item, of _ "''x''"] by auto
  with resolve_never_ambiguous [OF wf_one_item, of "''x''" "Some ''wi-9''"] show ?thesis by auto
qed

end
