(* ===== verification/Iso_Time.thy ===== *)
theory Iso_Time
  imports Text_Values
begin

text \<open>
  The timestamps the program writes: \<open>datetime.isoformat()\<close>, and that
  \<open>datetime.fromisoformat\<close> reads every one of them back.
\<close>

section \<open>Writing\<close>

definition digit_char :: "int \<Rightarrow> char" where
  "digit_char d = char_of (48 + d)"

fun digits_of :: "nat \<Rightarrow> int \<Rightarrow> str" where
  "digits_of 0 v = []"
| "digits_of (Suc n) v = digits_of n (v div 10) @ [digit_char (v mod 10)]"

definition year_of :: "int \<Rightarrow> int" where
  "year_of d = (let y = d * 400 div 146097 + 1
     in if d < days_before_year y then y - 1
        else if days_before_year (y + 1) \<le> d then y + 1 else y)"

definition month_of :: "int \<Rightarrow> int \<Rightarrow> int" where
  "month_of y r = (case List.find (\<lambda>m. days_before_month y m \<le> r) [12, 11, 10, 9, 8, 7, 6, 5, 4, 3, 2]
     of None \<Rightarrow> 1 | Some m \<Rightarrow> m)"

definition iso_date :: "int \<Rightarrow> str" where
  "iso_date d = (let y = year_of d; r = d - days_before_year y; m = month_of y r
     in digits_of 4 y @ ''-'' @ digits_of 2 m @ ''-'' @ digits_of 2 (r - days_before_month y m + 1))"

definition iso_fraction :: "int \<Rightarrow> str" where
  "iso_fraction us = (if us = 0 then [] else ''.'' @ digits_of 6 us)"

definition iso_seconds :: "int \<Rightarrow> str" where
  "iso_seconds t = '':'' @ digits_of 2 (t div 1000000 mod 60) @ iso_fraction (t mod 1000000)"

definition iso_minutes :: "int \<Rightarrow> str" where
  "iso_minutes t = digits_of 2 (t div 3600000000) @ '':'' @ digits_of 2 (t div 60000000 mod 60)"

definition iso_offset :: "int \<Rightarrow> str" where
  "iso_offset off = (let t = \<bar>off\<bar>
     in (if off < 0 then ''-'' else ''+'') @ iso_minutes t
        @ (if t mod 60000000 = 0 then [] else iso_seconds t))"

definition iso_local :: "int \<Rightarrow> str" where
  "iso_local w = iso_date (w div 86400000000) @ ''T'' @ iso_minutes (w mod 86400000000)
     @ iso_seconds (w mod 86400000000)"

fun isoformat :: "dt \<Rightarrow> str" where
  "isoformat (Naive w) = iso_local w"
| "isoformat (Aware w off) = iso_local w @ iso_offset off"

lemma isoformat_samples:
  "isoformat (Aware (719162 * 86400000000) 0) = ''1970-01-01T00:00:00+00:00''"
  "isoformat (Aware (738944 * 86400000000 + 45015250000) (- 18000000000)) =
     ''2024-02-29T12:30:15.250000-05:00''"
  "isoformat (Naive (days_before_year 10000 * 86400000000 - 1)) = ''9999-12-31T23:59:59.999999''"
  by code_simp+

text \<open>The values \<open>datetime\<close> can hold: years 1 to 9999, offsets of less than a day.\<close>

definition valid_wall :: "int \<Rightarrow> bool" where
  "valid_wall w \<longleftrightarrow> 0 \<le> w \<and> w < 3652059 * 86400000000"

fun valid_dt :: "dt \<Rightarrow> bool" where
  "valid_dt (Naive w) = valid_wall w"
| "valid_dt (Aware w off) = (valid_wall w \<and> \<bar>off\<bar> < 86400000000)"

section \<open>Reading back\<close>

lemma digit_digit_char: "0 \<le> d \<Longrightarrow> d \<le> 9 \<Longrightarrow> digit (digit_char d) = Some d"
  by (simp add: digit_def digit_char_def Let_def)

lemma length_digits_of [simp]: "length (digits_of n v) = n"
  by (induction n arbitrary: v) simp_all

lemma digits_of_digits: "list_all (\<lambda>c. digit c \<noteq> None) (digits_of n v)"
  by (induction n arbitrary: v) (simp_all add: digit_digit_char)

lemma digits_of_value: "0 \<le> v \<Longrightarrow> v < 10 ^ n \<Longrightarrow> digits_value (digits_of n v) = v"
  by (induction n arbitrary: v) (simp_all add: digits_value_def digit_digit_char)

lemma fixed_digits_of:
  assumes "0 \<le> v" and "v < 10 ^ n" and "0 < n"
  shows "fixed_digits n (digits_of n v @ s) = Some (v, s)"
proof -
  have "digits_of n v \<noteq> []" using assms(3) length_digits_of [of n v] by fastforce
  then show ?thesis
    using assms digits_of_digits [of n v] by (simp add: fixed_digits_def all_digits_def digits_of_value)
qed

text \<open>The day number splits into year, month and day of the month.\<close>

lemma year_bracket:
  assumes "146097 * p \<le> 400 * d" and "400 * d < 146097 * (p + (1 :: int))"
  shows "days_before_year p \<le> d" "d < days_before_year (p + 3)"
proof -
  have div_bounds: "k * (q div k) \<le> q" "q < k * (q div k) + k" if "0 < k" for q k :: int
    using that mult_div_mod_eq [of k q] pos_mod_sign [of k q] pos_mod_bound [of k q] by linarith+
  have b: "4 * (q div 4) \<le> q" "q < 4 * (q div 4) + 4" "100 * (q div 100) \<le> q"
    "q < 100 * (q div 100) + 100" "400 * (q div 400) \<le> q" "q < 400 * (q div 400) + 400" for q :: int
    by (rule div_bounds, simp)+
  have "365 * (p - 1) + i - j + k \<le> d"
    if "4 * i \<le> p - 1" "p - 1 < 100 * j + 100" "400 * k \<le> p - 1" for i j k
  proof -
    have "400 * i \<le> 100 * p - 100" "4 * p - 404 < 400 * j" using that by linarith+
    moreover have "400 * (365 * (p - 1) + i - j + k) = 146000 * p - 146000 + 400 * i - 400 * j + 400 * k"
      by (simp add: algebra_simps)
    ultimately have "400 * (365 * (p - 1) + i - j + k) \<le> 400 * d" using that(3) assms(1) by linarith
    then show ?thesis by simp
  qed
  from this [OF b(1) b(4) b(5)] show "days_before_year p \<le> d"
    unfolding days_before_year_def Let_def .
  have "d < 365 * (p + 2) + i - j + k"
    if "p + 2 < 4 * i + 4" "100 * j \<le> p + 2" "p + 2 < 400 * k + 400" for i j k
  proof -
    have "100 * p - 200 < 400 * i" "400 * j \<le> 4 * p + 8" using that by linarith+
    then have "146000 * p + 292000 + (100 * p - 200) - (4 * p + 8) + (p - 398)
        < 146000 * p + 292000 + 400 * i - 400 * j + 400 * k" using that(3) by linarith
    moreover have "400 * (365 * (p + 2) + i - j + k) = 146000 * p + 292000 + 400 * i - 400 * j + 400 * k"
      by (simp add: algebra_simps)
    ultimately have "400 * d < 400 * (365 * (p + 2) + i - j + k)" using assms(2) by simp
    then show ?thesis by simp
  qed
  from this [OF b(2) b(3) b(6)] show "d < days_before_year (p + 3)"
    unfolding days_before_year_def Let_def by (simp add: ac_simps)
qed

lemma year_of_bounds: "days_before_year (year_of d) \<le> d" "d < days_before_year (year_of d + 1)"
proof -
  define p where "p = d * 400 div 146097"
  have "146097 * p \<le> 400 * d" "400 * d < 146097 * (p + 1)"
    using mult_div_mod_eq [of 146097 "d * 400"] pos_mod_sign [of 146097 "d * 400"]
      pos_mod_bound [of 146097 "d * 400"] by (simp_all add: p_def)
  note b = year_bracket [OF this]
  define q where "q = p + 1"
  have "year_of d = (if d < days_before_year q then q - 1
      else if days_before_year (q + 1) \<le> d then q + 1 else q)"
    by (simp add: year_of_def p_def [symmetric] q_def Let_def)
  moreover have "days_before_year (q - 1) \<le> d" "d < days_before_year (q + 2)"
    using b by (simp_all add: q_def ac_simps)
  ultimately show "days_before_year (year_of d) \<le> d" "d < days_before_year (year_of d + 1)"
    by (auto simp: ac_simps split: if_splits)
qed

lemma days_before_year_Suc: "days_before_year (y + 1) = days_before_year y + (if leap y then 366 else 365)"
proof -
  have step: "q div k = (q - 1) div k + (if q mod k = 0 then 1 else 0)" if "1 < k" for q k :: int
  proof (cases "q mod k = 0")
    case True
    then have "q - 1 = k * (q div k - 1) + (k - 1)"
      using mult_div_mod_eq [of k q] by (simp add: algebra_simps)
    then have "(q - 1) div k = q div k - 1" using that by (intro int_div_pos_eq [of _ _ _ "k - 1"]) auto
    with True show ?thesis by simp
  next
    case False
    then have "0 < q mod k" using that by (metis less_le order_less_trans pos_mod_sign zero_less_one)
    moreover have "q - 1 = k * (q div k) + (q mod k - 1)" by simp
    moreover have "q mod k - 1 < k" using that pos_mod_bound [of k q] by linarith
    ultimately have "(q - 1) div k = q div k" by (intro int_div_pos_eq [of _ _ _ "q mod k - 1"]) auto
    with False show ?thesis by simp
  qed
  have hundred: "y mod 100 = 0 \<longrightarrow> y mod 4 = 0" by presburger
  have cycle: "y mod 400 = 0 \<longrightarrow> y mod 100 = 0" by presburger
  have sum: "365 * y + i - j + k
      = 365 * (y - 1) + i' - j' + k' + (if a \<and> (\<not> b \<or> c) then 366 else 365)"
    if "b \<longrightarrow> a" "c \<longrightarrow> b" "i = i' + (if a then 1 else 0)" "j = j' + (if b then 1 else 0)"
      "k = k' + (if c then 1 else 0)" for a b c i i' j j' k k'
    using that by (cases a; cases b; cases c) simp_all
  show ?thesis
    unfolding days_before_year_def Let_def add_diff_cancel_right' leap_def
    by (rule sum [OF hundred cycle step [of 4] step [of 100] step [of 400]]) simp_all
qed

lemma days_before_year_mono: "x \<le> y \<Longrightarrow> days_before_year x \<le> days_before_year y"
proof (induction "nat (y - x)" arbitrary: y)
  case (Suc n)
  then have "days_before_year x \<le> days_before_year (y - 1)" by simp
  also have "\<dots> \<le> days_before_year y" using days_before_year_Suc [of "y - 1"] by simp
  finally show ?case .
qed simp

lemma year_of_range:
  assumes "0 \<le> d" and "d < 3652059"
  shows "1 \<le> year_of d" "year_of d \<le> 9999"
proof -
  have "days_before_year 1 = 0" "days_before_year 10000 = 3652059" by code_simp+
  with assms year_of_bounds [of d] show "1 \<le> year_of d" "year_of d \<le> 9999"
    using days_before_year_mono [of "year_of d + 1" 1] days_before_year_mono [of 10000 "year_of d"]
    by linarith+
qed

lemma month_starts:
  "days_before_month y 1 = 0" "days_before_month y 2 = 31"
  "days_before_month y 3 = 59 + (if leap y then 1 else 0)"
  "days_before_month y 4 = 90 + (if leap y then 1 else 0)"
  "days_before_month y 5 = 120 + (if leap y then 1 else 0)"
  "days_before_month y 6 = 151 + (if leap y then 1 else 0)"
  "days_before_month y 7 = 181 + (if leap y then 1 else 0)"
  "days_before_month y 8 = 212 + (if leap y then 1 else 0)"
  "days_before_month y 9 = 243 + (if leap y then 1 else 0)"
  "days_before_month y 10 = 273 + (if leap y then 1 else 0)"
  "days_before_month y 11 = 304 + (if leap y then 1 else 0)"
  "days_before_month y 12 = 334 + (if leap y then 1 else 0)"
  by (simp_all add: days_before_month_def month_days_def upt_rec)

lemma day_split:
  assumes "0 \<le> r" and "r < (if leap y then 366 else 365)"
  shows "1 \<le> month_of y r \<and> month_of y r \<le> 12 \<and> days_before_month y (month_of y r) \<le> r
    \<and> r < days_before_month y (month_of y r) + month_days y (month_of y r)"
proof -
  define l where "l = (if leap y then 1 else 0 :: int)"
  note starts = month_starts [of y, folded l_def]
  have days: "month_days y m = (if m = 2 then 28 + l else if m \<in> {4, 6, 9, 11} then 30 else 31)" for m
    by (simp add: month_days_def l_def)
  have l: "0 \<le> l" "l \<le> 1" "r < 365 + l" using assms(2) by (auto simp: l_def)
  have "r < 31 \<or> 31 \<le> r \<and> r < 59 + l \<or> 59 + l \<le> r \<and> r < 90 + l \<or> 90 + l \<le> r \<and> r < 120 + l
    \<or> 120 + l \<le> r \<and> r < 151 + l \<or> 151 + l \<le> r \<and> r < 181 + l \<or> 181 + l \<le> r \<and> r < 212 + l
    \<or> 212 + l \<le> r \<and> r < 243 + l \<or> 243 + l \<le> r \<and> r < 273 + l \<or> 273 + l \<le> r \<and> r < 304 + l
    \<or> 304 + l \<le> r \<and> r < 334 + l \<or> 334 + l \<le> r" by linarith
  then show ?thesis
    using l assms(1) by (elim disjE conjE) (simp_all add: month_of_def starts days)
qed

section \<open>The round trip\<close>

lemma digits_first: "n \<noteq> 0 \<Longrightarrow> \<exists>d xs. digits_of n v = digit_char d # xs \<and> 0 \<le> d \<and> d \<le> 9"
proof (induction n arbitrary: v)
  case (Suc n)
  show ?case
  proof (cases n)
    case 0
    have "0 \<le> v mod 10" "v mod 10 \<le> 9" by simp_all
    with 0 show ?thesis by auto
  next
    case (Suc m)
    then have "n \<noteq> 0" by simp
    with Suc.IH [of "v div 10"] show ?thesis by auto
  qed
qed simp

lemma read_iso_date:
  assumes "0 \<le> d" and "d < 3652059"
  shows "read_date (iso_date d @ s) = Some (d, s)"
proof -
  define y r m where "y = year_of d" and "r = d - days_before_year y" and "m = month_of y r"
  note defs = y_def [symmetric] r_def [symmetric] m_def [symmetric]
  have y: "1 \<le> y" "y \<le> 9999" using year_of_range [OF assms] by (simp_all add: y_def)
  have "0 \<le> r" "r < (if leap y then 366 else 365)"
    using year_of_bounds [of d] days_before_year_Suc [of y] by (simp_all add: y_def r_def)
  note split = day_split [OF this]
  have sum: "days_before_year y + r = d" by (simp add: r_def)
  have len: "month_days y m \<le> 31" by (simp add: month_days_def)
  have m: "1 \<le> m" "m \<le> 12" "1 \<le> r - days_before_month y m + 1"
    "r - days_before_month y m + 1 \<le> month_days y m"
    using split by (simp_all add: m_def)
  have "r - days_before_month y m + 1 < 10 ^ 2" "m < 10 ^ 2" "y < 10 ^ 4"
    using m(4) len m(2) y(2) by simp_all
  note fixed = fixed_digits_of [OF _ this(3)] fixed_digits_of [OF _ this(2)] fixed_digits_of [OF _ this(1)]
  show ?thesis
    using y m fixed
    by (simp add: read_date_def iso_date_def defs Let_def expect_def numeral_eq_Suc sum del: digits_of.simps)
qed

lemma clock_split:
  fixes t :: int
  shows "t div 3600000000 * 3600000000 + t div 60000000 mod 60 * 60000000
    + t div 1000000 mod 60 * 1000000 + t mod 1000000 = t"
proof -
  define s where "s = t div 1000000"
  have m: "t div 60000000 = s div 60" and h: "t div 3600000000 = s div 60 div 60"
    by (simp_all add: s_def zdiv_zmult2_eq [symmetric])
  have "t = s * 1000000 + t mod 1000000" by (simp add: s_def)
  moreover have "s = s div 60 * 60 + s mod 60" by simp
  moreover have "s div 60 = s div 60 div 60 * 60 + s div 60 mod 60" by simp
  ultimately have "t = ((s div 60 div 60 * 60 + s div 60 mod 60) * 60 + s mod 60) * 1000000 + t mod 1000000"
    by (simp only:)
  moreover have "((i * 60 + j) * 60 + k) * 1000000 + l = i * 3600000000 + j * 60000000 + k * 1000000 + l"
    for i j k l :: int by simp
  ultimately show ?thesis unfolding m h s_def [symmetric] by (simp only:)
qed

definition clock_end :: "str \<Rightarrow> bool" where
  "clock_end s \<longleftrightarrow> (case s of [] \<Rightarrow> True | c # _ \<Rightarrow> digit c = None \<and> c \<noteq> CHR ''.'' \<and> c \<noteq> CHR '':'')"

lemma clock_end_expect:
  "clock_end s \<Longrightarrow> expect (CHR ''.'') s = None" "clock_end s \<Longrightarrow> expect (CHR '':'') s = None"
  by (cases s; simp add: clock_end_def expect_def)+

lemma read_fraction_digits:
  assumes "0 \<le> v" and "v < 1000000" and "clock_end s"
  shows "read_fraction (digits_of 6 v @ s) = Some (v, s)"
proof -
  have digits: "list_all (\<lambda>c. digit c \<noteq> None) (digits_of 6 v)" by (rule digits_of_digits)
  have "takeWhile (\<lambda>c. digit c \<noteq> None) (digits_of 6 v @ s) = digits_of 6 v"
    using digits assms(3) by (cases s) (auto simp: clock_end_def list_all_iff takeWhile_append2 takeWhile_append1)
  moreover have "digits_of 6 v \<noteq> []" using length_digits_of [of 6 v] by fastforce
  ultimately show ?thesis
    using digits_of_value [of v 6] assms by (simp add: read_fraction_def)
qed

lemma two_digits: "0 \<le> v \<Longrightarrow> v < 100 \<Longrightarrow> fixed_digits 2 (digits_of 2 v @ s) = Some (v, s)"
  by (rule fixed_digits_of) simp_all

lemma read_clock_minutes:
  assumes "0 \<le> h" "h \<le> 23" "0 \<le> m" "m \<le> 59" "clock_end s"
  shows "read_clock (digits_of 2 h @ '':'' @ digits_of 2 m @ s) = Some (h * 3600000000 + m * 60000000, s)"
  using assms clock_end_expect(2) [OF assms(5)]
  by (simp add: read_clock_def two_digits expect_def del: digits_of.simps)

lemma read_clock_seconds:
  assumes "0 \<le> h" "h \<le> 23" "0 \<le> m" "m \<le> 59" "0 \<le> sec" "sec \<le> 59" "0 \<le> us" "us < 1000000"
    "clock_end s"
  shows "read_clock (digits_of 2 h @ '':'' @ digits_of 2 m @ '':'' @ digits_of 2 sec @ iso_fraction us @ s)
    = Some (h * 3600000000 + m * 60000000 + sec * 1000000 + us, s)"
  using assms clock_end_expect [OF assms(9)] read_fraction_digits [OF assms(7-9)]
  by (simp add: read_clock_def iso_fraction_def two_digits expect_def Let_def del: digits_of.simps)

lemma clock_ranges:
  fixes t :: int
  assumes "0 \<le> t" and "t < 86400000000"
  shows "0 \<le> t div 3600000000" "t div 3600000000 \<le> 23" "0 \<le> t div 60000000 mod 60"
    "t div 60000000 mod 60 \<le> 59" "0 \<le> t div 1000000 mod 60" "t div 1000000 mod 60 \<le> 59"
    "0 \<le> t mod 1000000" "t mod 1000000 < 1000000"
  using assms by simp_all

lemma read_iso_minutes:
  assumes "0 \<le> t" and "t < 86400000000" and "t mod 60000000 = 0" and "clock_end s"
  shows "read_clock (iso_minutes t @ s) = Some (t, s)"
proof -
  obtain k where "t = 1000000 * (60 * k)" using assms(3) by (auto simp: mod_eq_0_iff_dvd elim!: dvdE)
  then have "t mod 1000000 = 0" "t div 1000000 mod 60 = 0" by simp_all
  then have "t div 3600000000 * 3600000000 + t div 60000000 mod 60 * 60000000 = t"
    using clock_split [of t] by simp
  with read_clock_minutes [OF clock_ranges(1-4) [OF assms(1,2)] assms(4)] show ?thesis
    by (simp only: iso_minutes_def append_assoc)
qed

lemma read_iso_clock:
  assumes "0 \<le> t" and "t < 86400000000" and "clock_end s"
  shows "read_clock (iso_minutes t @ iso_seconds t @ s) = Some (t, s)"
  using read_clock_seconds [OF clock_ranges [OF assms(1,2)] assms(3)] clock_split [of t]
  by (simp only: iso_minutes_def iso_seconds_def append_assoc)

lemma clock_end_offset: "clock_end (iso_offset off)" "iso_offset off \<noteq> []"
  by (simp_all add: clock_end_def iso_offset_def Let_def digit_def)

lemma read_iso_offset:
  assumes "\<bar>off\<bar> < 86400000000"
  shows "read_offset (iso_offset off) = Some (Some off)"
proof -
  define rest where "rest = iso_minutes \<bar>off\<bar>
    @ (if \<bar>off\<bar> mod 60000000 = 0 then [] else iso_seconds \<bar>off\<bar>)"
  have "read_clock rest = Some (\<bar>off\<bar>, [])"
    using read_iso_minutes [of "\<bar>off\<bar>" "[]"] read_iso_clock [of "\<bar>off\<bar>" "[]"] assms
    by (simp add: rest_def clock_end_def split: if_split)
  moreover have "iso_offset off = (if off < 0 then CHR ''-'' else CHR ''+'') # rest"
    by (simp add: iso_offset_def rest_def Let_def)
  ultimately show ?thesis by (simp add: read_offset_def)
qed

lemma read_iso_local:
  assumes "valid_wall w" and "clock_end s"
  shows "fromisoformat (iso_local w @ s) = (case read_offset s of None \<Rightarrow> None
     | Some None \<Rightarrow> Some (Naive w) | Some (Some off) \<Rightarrow> Some (Aware w off))"
proof -
  have "w div 86400000000 < 3652059" "0 \<le> w div 86400000000"
    using assms(1) by (auto simp: valid_wall_def)
  then have date: "read_date (iso_date (w div 86400000000) @ r) = Some (w div 86400000000, r)" for r
    by (intro read_iso_date)
  have time: "read_clock (iso_minutes (w mod 86400000000) @ iso_seconds (w mod 86400000000) @ s)
      = Some (w mod 86400000000, s)"
    using assms(2) by (intro read_iso_clock) simp_all
  have sum: "w div 86400000000 * 86400000000 + w mod 86400000000 = w" by simp
  show ?thesis unfolding fromisoformat_def iso_local_def
    by (simp add: date time) (simp only: sum)
qed

theorem fromisoformat_isoformat:
  assumes "valid_dt t"
  shows "fromisoformat (isoformat t) = Some t"
proof (cases t)
  case (Naive w)
  have "clock_end []" by (simp add: clock_end_def)
  from read_iso_local [OF _ this, of w] assms Naive show ?thesis by (simp add: read_offset_def)
next
  case (Aware w off)
  from read_iso_local [OF _ clock_end_offset(1), of w off] assms Aware show ?thesis
    by (simp add: read_iso_offset)
qed

end
