(* ===== verification/Leases.thy ===== *)
theory Leases
  imports Iso_Time
begin

text \<open>
  The single-listener lease of the message mailbox: the reclaim rule of core/lease_common.py
  and the lease file of core/inbox_lease.py. Every operation runs under the lock of the lease
  file, so it is one atomic step from file content to file content. The time to live is counted
  in microseconds. Which processes exist is an argument.
\<close>

section \<open>The reclaim rule (core/lease_common.py)\<close>

text \<open>\<open>a - b\<close>: naive with aware raises.\<close>

definition dt_minus :: "dt \<Rightarrow> dt \<Rightarrow> exn + int" where
  "dt_minus a b = (if is_naive a \<noteq> is_naive b then Inl TypeError else Inr (instant a - instant b))"

definition is_reclaimable ::
  "'i option \<Rightarrow> dt option \<Rightarrow> 'i \<Rightarrow> dt \<Rightarrow> int \<Rightarrow> ('i \<Rightarrow> bool) option \<Rightarrow> exn + bool" where
  "is_reclaimable holder heartbeat me now ttl alive =
     (case holder of None \<Rightarrow> Inr True | Some h \<Rightarrow>
      if h = me then Inr True
      else (case heartbeat of None \<Rightarrow> Inr True | Some beat \<Rightarrow>
        rbind (dt_minus now beat) (\<lambda>age.
          if age > ttl then Inr True
          else (case alive of None \<Rightarrow> Inr False | Some probe \<Rightarrow> Inr (\<not> probe h)))))"

section \<open>The lease file (core/inbox_lease.py)\<close>

record lease_info =
  li_pid :: int
  li_heartbeat :: dt

text \<open>What is on disk: nothing, text that is not JSON, or a JSON value.\<close>

datatype lease_file = No_File | Bad_Text | Json_Text json

text \<open>\<open>int(v)\<close> of a decoded JSON value; \<open>None\<close> where it raises.\<close>

definition json_int :: "json \<Rightarrow> int option" where
  "json_int v = (case v of JNum n \<Rightarrow> Some n | JBool b \<Rightarrow> Some (if b then 1 else 0)
     | JStr s \<Rightarrow> py_int s | _ \<Rightarrow> None)"

definition read_lease :: "lease_file \<Rightarrow> lease_info option" where
  "read_lease f = (case f of Json_Text (JObj raw) \<Rightarrow>
       (case map_of raw ''pid'' of None \<Rightarrow> None | Some p \<Rightarrow>
        (case json_int p of None \<Rightarrow> None | Some pid \<Rightarrow>
         (case map_of raw ''heartbeat_at'' of
            Some (JStr s) \<Rightarrow>
              (case fromisoformat s of None \<Rightarrow> None
               | Some t \<Rightarrow> Some \<lparr>li_pid = pid, li_heartbeat = t\<rparr>)
          | _ \<Rightarrow> None)))
     | _ \<Rightarrow> None)"

definition reclaimable :: "int \<Rightarrow> (int \<Rightarrow> bool) \<Rightarrow> lease_info option \<Rightarrow> int \<Rightarrow> dt \<Rightarrow> exn + bool" where
  "reclaimable ttl alive info me now =
     is_reclaimable (map_option li_pid info) (map_option li_heartbeat info) me now ttl (Some alive)"

definition write_lease :: "int \<Rightarrow> dt \<Rightarrow> lease_file" where
  "write_lease pid now = Json_Text (JObj [(''pid'', JNum pid), (''heartbeat_at'', JStr (isoformat now))])"

text \<open>The result is the holder that stands in the way; \<open>None\<close> is success.\<close>

definition try_acquire ::
  "int \<Rightarrow> (int \<Rightarrow> bool) \<Rightarrow> int \<Rightarrow> dt \<Rightarrow> lease_file \<Rightarrow> exn + (lease_info option \<times> lease_file)" where
  "try_acquire ttl alive pid now f =
     (let info = read_lease f
      in rbind (reclaimable ttl alive info pid now) (\<lambda>free.
           if \<not> free then Inr (info, f) else Inr (None, write_lease pid now)))"

definition refresh :: "int \<Rightarrow> dt \<Rightarrow> lease_file \<Rightarrow> lease_file" where
  "refresh pid now f = (case read_lease f of None \<Rightarrow> write_lease pid now
     | Some info \<Rightarrow> if li_pid info = pid then write_lease pid now else f)"

definition release :: "int \<Rightarrow> lease_file \<Rightarrow> lease_file" where
  "release pid f = (case read_lease f of None \<Rightarrow> f
     | Some info \<Rightarrow> if li_pid info = pid then No_File else f)"

section \<open>Laws of the operations\<close>

lemma read_write_lease [simp]:
  "valid_dt now \<Longrightarrow> read_lease (write_lease pid now) = Some \<lparr>li_pid = pid, li_heartbeat = now\<rparr>"
  by (simp add: read_lease_def write_lease_def json_int_def fromisoformat_isoformat)

lemma read_No_File [simp]: "read_lease No_File = None"
  by (simp add: read_lease_def)

text \<open>Who holds the mailbox: a recorded process that still exists and whose heartbeat is fresh.\<close>

definition fresh :: "int \<Rightarrow> dt \<Rightarrow> dt \<Rightarrow> bool" where
  "fresh ttl now beat \<longleftrightarrow> instant now - instant beat \<le> ttl"

definition owner :: "int \<Rightarrow> (int \<Rightarrow> bool) \<Rightarrow> dt \<Rightarrow> lease_file \<Rightarrow> int option" where
  "owner ttl alive now f = (case read_lease f of None \<Rightarrow> None
     | Some info \<Rightarrow> if fresh ttl now (li_heartbeat info) \<and> alive (li_pid info)
                   then Some (li_pid info) else None)"

definition aware_beat :: "lease_file \<Rightarrow> bool" where
  "aware_beat f \<longleftrightarrow> (\<forall>info. read_lease f = Some info \<longrightarrow> \<not> is_naive (li_heartbeat info))"

lemma reclaimable_aware:
  assumes "\<not> is_naive now" and "aware_beat f"
  shows "reclaimable ttl alive (read_lease f) pid now =
    Inr (case owner ttl alive now f of None \<Rightarrow> True
         | Some q \<Rightarrow> q = pid)"
  using assms
  by (cases "read_lease f")
    (auto simp: reclaimable_def is_reclaimable_def owner_def fresh_def dt_minus_def aware_beat_def)

lemma try_acquire_owner:
  assumes "\<not> is_naive now" and "aware_beat f"
  shows "try_acquire ttl alive pid now f =
    (case owner ttl alive now f of
       None \<Rightarrow> Inr (None, write_lease pid now)
     | Some q \<Rightarrow> if q = pid then Inr (None, write_lease pid now) else Inr (read_lease f, f))"
  by (simp add: try_acquire_def reclaimable_aware [OF assms] Let_def split: option.split)

lemma owner_holder: "owner ttl alive now f = Some q \<Longrightarrow> \<exists>info. read_lease f = Some info \<and> li_pid info = q"
  by (auto simp: owner_def split: option.splits if_splits)

lemma owner_write:
  "valid_dt now \<Longrightarrow> 0 \<le> ttl \<Longrightarrow> alive pid \<Longrightarrow> owner ttl alive now (write_lease pid now) = Some pid"
  by (simp add: owner_def fresh_def)

lemma aware_beat_simps [simp]:
  "aware_beat No_File" "valid_dt now \<Longrightarrow> aware_beat (write_lease pid now) = (\<not> is_naive now)"
  by (simp_all add: aware_beat_def)

lemma refresh_cases:
  "refresh pid now f = (if read_lease f = None \<or> map_option li_pid (read_lease f) = Some pid
     then write_lease pid now else f)"
  by (auto simp: refresh_def split: option.split)

lemma release_cases:
  "release pid f = (if map_option li_pid (read_lease f) = Some pid then No_File else f)"
  by (auto simp: release_def split: option.split)

end
