(* ===== verification/Lease_Protocol.thy ===== *)
theory Lease_Protocol
  imports Leases
begin

text \<open>
  The lease as a protocol between processes: each transition is one locked operation of
  core/inbox_lease.py, or the world moving on (the clock advances, processes end). The lease
  refines a lock with at most one owner, which is lost only by release, death or silence.
\<close>

section \<open>The protocol of the code\<close>

record lease_world =
  lw_file :: lease_file
  lw_now :: dt
  lw_alive :: "int set"

definition lw_owner :: "int \<Rightarrow> lease_world \<Rightarrow> int option" where
  "lw_owner ttl w = owner ttl (\<lambda>q. q \<in> lw_alive w) (lw_now w) (lw_file w)"

datatype lease_event =
    Acquired int
  | Refused int int
  | Beat int
  | Released int
  | Tick
  | Lapsed int

text \<open>
  The world may move to a later time and lose processes; a process that was recorded in the
  lease file and has ended does not come back under the same number.
\<close>

definition moves_on :: "lease_world \<Rightarrow> dt \<Rightarrow> int set \<Rightarrow> bool" where
  "moves_on w now' alive' \<longleftrightarrow>
     valid_dt now' \<and> \<not> is_naive now' \<and> instant (lw_now w) \<le> instant now' \<and>
     (\<forall>info. read_lease (lw_file w) = Some info \<longrightarrow> li_pid info \<in> alive' \<longrightarrow> li_pid info \<in> lw_alive w)"

inductive lease_step :: "int \<Rightarrow> lease_world \<Rightarrow> lease_event \<Rightarrow> lease_world \<Rightarrow> bool" for ttl where
  acquired: "p \<in> lw_alive w \<Longrightarrow>
    try_acquire ttl (\<lambda>q. q \<in> lw_alive w) p (lw_now w) (lw_file w) = Inr (None, f) \<Longrightarrow>
    lease_step ttl w (Acquired p) (w\<lparr>lw_file := f\<rparr>)"
| refused: "p \<in> lw_alive w \<Longrightarrow>
    try_acquire ttl (\<lambda>q. q \<in> lw_alive w) p (lw_now w) (lw_file w) = Inr (Some info, f) \<Longrightarrow>
    lease_step ttl w (Refused p (li_pid info)) (w\<lparr>lw_file := f\<rparr>)"
| beat: "p \<in> lw_alive w \<Longrightarrow>
    lease_step ttl w (Beat p) (w\<lparr>lw_file := refresh p (lw_now w) (lw_file w)\<rparr>)"
| released: "p \<in> lw_alive w \<Longrightarrow>
    lease_step ttl w (Released p) (w\<lparr>lw_file := release p (lw_file w)\<rparr>)"
| tick: "moves_on w now' alive' \<Longrightarrow>
    lw_owner ttl (w\<lparr>lw_now := now', lw_alive := alive'\<rparr>) = lw_owner ttl w \<Longrightarrow>
    lease_step ttl w Tick (w\<lparr>lw_now := now', lw_alive := alive'\<rparr>)"
| lapsed: "moves_on w now' alive' \<Longrightarrow> lw_owner ttl w = Some p \<Longrightarrow>
    read_lease (lw_file w) = Some info \<Longrightarrow>
    p \<notin> alive' \<or> \<not> fresh ttl now' (li_heartbeat info) \<Longrightarrow>
    lease_step ttl w (Lapsed p) (w\<lparr>lw_now := now', lw_alive := alive'\<rparr>)"

inductive lease_run :: "int \<Rightarrow> lease_world \<Rightarrow> lease_event list \<Rightarrow> lease_world \<Rightarrow> bool" for ttl where
  start: "lease_run ttl w [] w"
| step: "lease_step ttl w e w' \<Longrightarrow> lease_run ttl w' es w'' \<Longrightarrow> lease_run ttl w (e # es) w''"

text \<open>Every move of the world is a tick or a lapse of the owner.\<close>

lemma moves_on_cases:
  assumes "moves_on w now' alive'"
  shows "lease_step ttl w Tick (w\<lparr>lw_now := now', lw_alive := alive'\<rparr>) \<or>
    (\<exists>p. lease_step ttl w (Lapsed p) (w\<lparr>lw_now := now', lw_alive := alive'\<rparr>))"
proof (cases "lw_owner ttl (w\<lparr>lw_now := now', lw_alive := alive'\<rparr>) = lw_owner ttl w")
  case True
  with assms show ?thesis by (blast intro: lease_step.tick)
next
  case False
  with assms obtain info where info: "read_lease (lw_file w) = Some info"
    and own: "lw_owner ttl w = Some (li_pid info)"
    and gone: "li_pid info \<notin> alive' \<or> \<not> fresh ttl now' (li_heartbeat info)"
    by (auto simp: lw_owner_def owner_def moves_on_def fresh_def split: option.splits if_splits)
  from lease_step.lapsed [OF assms own info gone] show ?thesis by blast
qed

definition world_ok :: "lease_world \<Rightarrow> bool" where
  "world_ok w \<longleftrightarrow> valid_dt (lw_now w) \<and> \<not> is_naive (lw_now w) \<and> aware_beat (lw_file w)"

section \<open>The lock it implements\<close>

inductive lock_step :: "int option \<Rightarrow> lease_event \<Rightarrow> int option \<Rightarrow> bool" where
  acquire: "held = None \<or> held = Some p \<Longrightarrow> lock_step held (Acquired p) (Some p)"
| refuse: "p \<noteq> q \<Longrightarrow> lock_step (Some q) (Refused p q) (Some q)"
| beat_keep: "lock_step held (Beat p) held"
| beat_take: "lock_step None (Beat p) (Some p)"
| release_own: "lock_step (Some p) (Released p) None"
| release_other: "held \<noteq> Some p \<Longrightarrow> lock_step held (Released p) held"
| tick: "lock_step held Tick held"
| lapse: "lock_step (Some p) (Lapsed p) None"

inductive lock_run :: "int option \<Rightarrow> lease_event list \<Rightarrow> int option \<Rightarrow> bool" where
  start: "lock_run held [] held"
| step: "lock_step held e held' \<Longrightarrow> lock_run held' es held'' \<Longrightarrow> lock_run held (e # es) held''"

inductive_cases lock_acquireE: "lock_step held (Acquired q) held'"
inductive_cases lock_runE: "lock_run held (e # es) held''"

text \<open>The owner of the lock changes only through a release or a lapse of the owner.\<close>

lemma lock_keeps:
  "lock_step (Some p) e held \<Longrightarrow> e \<noteq> Released p \<Longrightarrow> e \<noteq> Lapsed p \<Longrightarrow>
   held = Some p \<and> (\<forall>q. e = Acquired q \<longrightarrow> q = p)"
  by (erule lock_step.cases) auto

lemma lock_run_keeps:
  "lock_run held es held' \<Longrightarrow> held = Some p \<Longrightarrow> Released p \<notin> set es \<Longrightarrow> Lapsed p \<notin> set es \<Longrightarrow>
   held' = Some p \<and> (\<forall>q. Acquired q \<in> set es \<longrightarrow> q = p)"
proof (induction rule: lock_run.induct)
  case (step held e held' es held'')
  then have "held' = Some p \<and> (\<forall>q. e = Acquired q \<longrightarrow> q = p)"
    using lock_keeps [of p e held'] by auto
  with step show ?case by auto
qed simp

section \<open>Simulation\<close>

lemma step_refines:
  assumes "lease_step ttl w e w'" and "world_ok w" and "0 \<le> ttl"
  shows "world_ok w' \<and> lock_step (lw_owner ttl w) e (lw_owner ttl w')"
  using assms(1)
proof cases
  case (acquired p f)
  have ok: "valid_dt (lw_now w)" "\<not> is_naive (lw_now w)" "aware_beat (lw_file w)"
    using assms(2) by (simp_all add: world_ok_def)
  from acquired(4) have f: "f = write_lease p (lw_now w)"
    and held: "lw_owner ttl w = None \<or> lw_owner ttl w = Some p"
    by (auto simp: try_acquire_owner [OF ok(2,3)] lw_owner_def dest!: owner_holder
        split: option.splits if_splits)
  have "lw_owner ttl w' = Some p"
    using ok acquired assms(3) by (simp add: lw_owner_def f owner_write)
  with held ok acquired f show ?thesis by (auto simp: world_ok_def intro: lock_step.acquire)
next
  case (refused p info f)
  have ok: "\<not> is_naive (lw_now w)" "aware_beat (lw_file w)"
    using assms(2) by (simp_all add: world_ok_def)
  from refused(4) have "f = lw_file w \<and> (\<exists>q. q \<noteq> p \<and> lw_owner ttl w = Some q \<and> li_pid info = q)"
    by (auto simp: try_acquire_owner [OF ok] lw_owner_def dest: owner_holder
        split: option.splits if_splits)
  with refused assms(2) show ?thesis by (auto simp: world_ok_def lw_owner_def intro: lock_step.refuse)
next
  case (beat p)
  have ok: "valid_dt (lw_now w)" "\<not> is_naive (lw_now w)" "aware_beat (lw_file w)"
    using assms(2) by (simp_all add: world_ok_def)
  show ?thesis
  proof (cases "read_lease (lw_file w) = None \<or> map_option li_pid (read_lease (lw_file w)) = Some p")
    case True
    then have own: "lw_owner ttl w = None \<or> lw_owner ttl w = Some p"
      by (auto simp: lw_owner_def owner_def)
    have w': "lw_file w' = write_lease p (lw_now w)" "lw_now w' = lw_now w" "lw_alive w' = lw_alive w"
      using beat True by (simp_all add: refresh_cases)
    then have "lw_owner ttl w' = Some p"
      using ok beat(3) assms(3) by (simp add: lw_owner_def owner_write)
    with own w' ok beat(1) show ?thesis
      by (auto simp: world_ok_def intro: lock_step.beat_take lock_step.beat_keep)
  next
    case False
    then have "refresh p (lw_now w) (lw_file w) = lw_file w" by (simp only: refresh_cases if_False)
    with beat assms(2) show ?thesis by (simp add: lock_step.beat_keep)
  qed
next
  case (released p)
  show ?thesis
  proof (cases "map_option li_pid (read_lease (lw_file w)) = Some p")
    case True
    then have own: "lw_owner ttl w = None \<or> lw_owner ttl w = Some p"
      by (auto simp: lw_owner_def owner_def)
    have "lw_owner ttl w' = None" using released True by (simp add: release_cases lw_owner_def owner_def)
    with own released True assms(2) show ?thesis
      by (auto simp: world_ok_def release_cases intro: lock_step.release_own lock_step.release_other)
  next
    case False
    then have "lw_owner ttl w \<noteq> Some p" by (auto simp: lw_owner_def dest: owner_holder)
    moreover have "release p (lw_file w) = lw_file w" using False by (simp only: release_cases if_False)
    ultimately show ?thesis using released assms(2) by (simp add: lock_step.release_other)
  qed
next
  case (tick now' alive')
  with assms(2) show ?thesis by (simp add: moves_on_def world_ok_def lock_step.tick)
next
  case (lapsed now' alive' p info)
  then have "lw_owner ttl w' = None"
    by (auto simp: lw_owner_def owner_def split: if_splits)
  with lapsed assms(2) show ?thesis by (simp add: moves_on_def world_ok_def lock_step.lapse)
qed

lemma run_refines:
  assumes "lease_run ttl w es w'" and "world_ok w" and "0 \<le> ttl"
  shows "lock_run (lw_owner ttl w) es (lw_owner ttl w') \<and> world_ok w'"
  using assms(1,2)
proof (induction rule: lease_run.induct)
  case (step w e w' es w'')
  with step_refines [OF step.hyps(1) step.prems assms(3)] show ?case
    by (blast intro: lock_run.step)
qed (simp add: lock_run.start)

section \<open>Properties\<close>

text \<open>C27: Every run of the lease - acquisitions, heartbeats, releases by any processes under
  their file lock, interleaved with the passage of time and the end of processes - is a run of
  a lock with at most one owner, which refuses exactly when another live process with a fresh
  heartbeat owns it.\<close>

theorem lease_refines_lock:
  assumes "lease_run ttl w es w'" and "world_ok w" and "0 \<le> ttl"
  shows "lock_run (lw_owner ttl w) es (lw_owner ttl w') \<and> world_ok w'"
  using assms(1,2)
proof (induction rule: lease_run.induct)
  case (step w e w' es w'')
  with step_refines [OF step.hyps(1) step.prems assms(3)] show ?case
    by (blast intro: lock_run.step)
qed (simp add: lock_run.start)

definition sample_world :: lease_world where
  "sample_world = \<lparr>lw_file = No_File, lw_now = Aware 63000000000000000 0, lw_alive = {7, 8}\<rparr>"

definition sample_late :: lease_world where
  "sample_late = \<lparr>lw_file = write_lease 7 (Aware 63000000000000000 0),
     lw_now = Aware 63000000020000000 0, lw_alive = {8}\<rparr>"

lemma sample_world_ok: "world_ok sample_world"
  by (simp add: world_ok_def sample_world_def valid_wall_def)

lemma sample_take:
  "lease_step 10000000 sample_world (Acquired 7)
     (sample_world\<lparr>lw_file := write_lease 7 (Aware 63000000000000000 0)\<rparr>)"
  by (rule lease_step.acquired)
    (simp_all add: sample_world_def try_acquire_def reclaimable_def is_reclaimable_def)

lemma sample_lapse:
  "lease_step 10000000 (sample_world\<lparr>lw_file := write_lease 7 (Aware 63000000000000000 0)\<rparr>)
     (Lapsed 7) sample_late"
proof -
  let ?w = "sample_world\<lparr>lw_file := write_lease 7 (Aware 63000000000000000 0)\<rparr>"
  have "lease_step 10000000 ?w (Lapsed 7)
      (?w\<lparr>lw_now := Aware 63000000020000000 0, lw_alive := {8}\<rparr>)"
    by (rule lease_step.lapsed)
      (simp_all add: sample_world_def moves_on_def valid_wall_def lw_owner_def owner_def fresh_def)
  then show ?thesis by (simp add: sample_late_def sample_world_def)
qed

lemma sample_run: "lease_run 10000000 sample_world [Acquired 7, Lapsed 7] sample_late"
  by (rule lease_run.step [OF sample_take lease_run.step [OF sample_lapse lease_run.start]])

theorem lease_refines_lock_witness:
  "lock_run (lw_owner 10000000 sample_world) [Acquired 7, Lapsed 7] (lw_owner 10000000 sample_late)
     \<and> world_ok sample_late"
  by (rule lease_refines_lock [OF sample_run sample_world_ok]) simp

text \<open>C28: A listener that holds the lease keeps it, and nobody else acquires it, for as long as it
  neither releases it, nor ends, nor lets its heartbeat go stale.\<close>

theorem holder_not_displaced:
  assumes "lease_run ttl w es w'" and "world_ok w" and "0 \<le> ttl" and "lw_owner ttl w = Some p"
    and "Released p \<notin> set es" and "Lapsed p \<notin> set es"
  shows "lw_owner ttl w' = Some p \<and> (\<forall>q. Acquired q \<in> set es \<longrightarrow> q = p)"
  by (rule lock_run_keeps [OF conjunct1 [OF run_refines [OF assms(1-3)]] assms(4-6)])

definition sample_held :: lease_world where
  "sample_held = sample_world\<lparr>lw_file := write_lease 7 (Aware 63000000000000000 0)\<rparr>"

lemma sample_refusal: "lease_run 10000000 sample_held [Refused 8 7, Beat 7] sample_held"
proof -
  let ?info = "\<lparr>li_pid = 7, li_heartbeat = Aware 63000000000000000 0\<rparr>"
  have read: "read_lease (lw_file sample_held) = Some ?info"
    by (simp add: sample_held_def valid_wall_def)
  have "try_acquire 10000000 (\<lambda>q. q \<in> lw_alive sample_held) 8 (lw_now sample_held)
      (lw_file sample_held) = Inr (Some ?info, lw_file sample_held)"
    by (simp add: try_acquire_def reclaimable_def is_reclaimable_def read dt_minus_def)
      (simp add: sample_held_def sample_world_def)
  from lease_step.refused [OF _ this]
  have refusal: "lease_step 10000000 sample_held (Refused 8 7) sample_held"
    by (simp add: sample_held_def sample_world_def)
  have "refresh 7 (lw_now sample_held) (lw_file sample_held) = lw_file sample_held"
    by (simp add: refresh_def read) (simp add: sample_held_def sample_world_def)
  then have "lease_step 10000000 sample_held (Beat 7) sample_held"
    using lease_step.beat [of 7 sample_held 10000000] by (simp add: sample_held_def sample_world_def)
  with refusal show ?thesis by (blast intro: lease_run.intros)
qed

theorem holder_not_displaced_witness:
  "lw_owner 10000000 sample_held = Some 7 \<and> Acquired 8 \<notin> set [Refused 8 7, Beat 7]"
proof -
  have "lw_owner 10000000 sample_held = Some 7 \<and>
      (\<forall>q. Acquired q \<in> set [Refused 8 7, Beat 7] \<longrightarrow> q = 7)"
  proof (rule holder_not_displaced [OF sample_refusal])
    show "world_ok sample_held" by (simp add: world_ok_def sample_held_def sample_world_def valid_wall_def)
    show "lw_owner 10000000 sample_held = Some 7"
      by (simp add: lw_owner_def owner_def sample_held_def sample_world_def valid_wall_def fresh_def)
  qed simp_all
  then show ?thesis by auto
qed

text \<open>A mailbox nobody owns - no lease file, a corrupt one, a holder that has ended or whose
  heartbeat is older than the time to live - is taken by the next process that asks.\<close>

theorem abandoned_lease_reclaimed:
  assumes "world_ok w" and "0 \<le> ttl" and "p \<in> lw_alive w"
    and "\<And>info. read_lease (lw_file w) = Some info \<Longrightarrow>
      li_pid info \<notin> lw_alive w \<or> ttl < instant (lw_now w) - instant (li_heartbeat info)"
  shows "\<exists>f. try_acquire ttl (\<lambda>q. q \<in> lw_alive w) p (lw_now w) (lw_file w) = Inr (None, f) \<and>
    lw_owner ttl (w\<lparr>lw_file := f\<rparr>) = Some p"
proof -
  have ok: "valid_dt (lw_now w)" "\<not> is_naive (lw_now w)" "aware_beat (lw_file w)"
    using assms(1) by (simp_all add: world_ok_def)
  have "owner ttl (\<lambda>q. q \<in> lw_alive w) (lw_now w) (lw_file w) = None"
    using assms(4) by (auto simp: owner_def fresh_def split: option.split)
  then show ?thesis
    using ok assms(2,3) by (simp add: try_acquire_owner [OF ok(2,3)] lw_owner_def owner_write)
qed

theorem abandoned_lease_reclaimed_witness:
  "\<exists>f. try_acquire 10000000 (\<lambda>q. q \<in> lw_alive sample_late) 8 (lw_now sample_late)
       (lw_file sample_late) = Inr (None, f) \<and>
     lw_owner 10000000 (sample_late\<lparr>lw_file := f\<rparr>) = Some 8"
  by (rule abandoned_lease_reclaimed)
    (auto simp: sample_late_def world_ok_def valid_wall_def)

end
