(* ===== verification/Messages.thy ===== *)
theory Messages
  imports Iso_Time
begin

text \<open>
  Threads and their attention state: the inbox metadata and classification of core/inbox.py,
  and the messages, threads and computed fields of core/message.py. The spec inbox rule is
  stated on the fields of a spec it reads.
\<close>

section \<open>Times\<close>

text \<open>\<open>t + timedelta\<close>, and \<open>max(a, b)\<close> of two aware values.\<close>

fun dt_add :: "dt \<Rightarrow> int \<Rightarrow> dt" where
  "dt_add (Naive w) d = Naive (w + d)"
| "dt_add (Aware w off) d = Aware (w + d) off"

definition dt_max :: "dt \<Rightarrow> dt \<Rightarrow> dt" where
  "dt_max a b = (if instant a < instant b then b else a)"

lemma instant_dt_add [simp]: "instant (dt_add t d) = instant t + d"
  by (cases t) simp_all

lemma instant_dt_max [simp]: "instant (dt_max a b) = max (instant a) (instant b)"
  by (simp add: dt_max_def)

lemma is_naive_simps [simp]: "\<not> is_naive (utc t)" "is_naive (dt_add t d) = is_naive t"
  by (cases t; simp)+

lemma is_naive_dt_max: "\<not> is_naive a \<Longrightarrow> \<not> is_naive b \<Longrightarrow> \<not> is_naive (dt_max a b)"
  by (simp add: dt_max_def)

section \<open>Inbox metadata (core/inbox.py)\<close>

record inbox_metadata =
  im_pinned :: bool
  im_manual_archived :: bool
  im_restored_at :: "dt option"
  im_last_mutated_at :: "dt option"
  im_mutation_ids :: "str dict"

definition new_inbox :: inbox_metadata where
  "new_inbox = \<lparr>im_pinned = False, im_manual_archived = False, im_restored_at = None,
     im_last_mutated_at = None, im_mutation_ids = []\<rparr>"

datatype inbox_class = Active | Archived str

record mutation_result =
  mr_persisted :: bool
  mr_applied :: bool

definition duplicate_mutation :: mutation_result where
  "duplicate_mutation = \<lparr>mr_persisted = False, mr_applied = False\<rparr>"

definition retained_noop_mutation :: mutation_result where
  "retained_noop_mutation = \<lparr>mr_persisted = True, mr_applied = False\<rparr>"

definition applied_mutation :: mutation_result where
  "applied_mutation = \<lparr>mr_persisted = True, mr_applied = True\<rparr>"

definition seven_days :: int where
  "seven_days = 7 * 86400000000"

definition inbox_actions :: "str list" where
  "inbox_actions = [''archive'', ''restore'', ''pin'', ''unpin'']"

definition max_mutation_ids :: nat where
  "max_mutation_ids = 256"

definition restore_is_effective :: "inbox_metadata \<Rightarrow> dt \<Rightarrow> bool" where
  "restore_is_effective m now = (case im_restored_at m of None \<Rightarrow> False
     | Some t \<Rightarrow> instant (utc now) - instant (utc t) < seven_days)"

text \<open>\<open>while len(ids) > N: ids.pop(next(iter(ids)))\<close>: the oldest entries go.\<close>

function drop_oldest :: "'v dict \<Rightarrow> 'v dict" where
  "drop_oldest d = (if length d > max_mutation_ids then drop_oldest (tl d) else d)"
  by auto
termination by (relation "measure length") auto

declare drop_oldest.simps [simp del]

definition inbox_last_mutated :: "inbox_metadata \<Rightarrow> dt \<Rightarrow> dt" where
  "inbox_last_mutated m now = dt_max (utc now) (case im_last_mutated_at m of None \<Rightarrow> utc now
     | Some t \<Rightarrow> dt_add (utc t) 1)"

definition set_inbox_flag :: "str \<Rightarrow> dt \<Rightarrow> inbox_metadata \<Rightarrow> inbox_metadata" where
  "set_inbox_flag action now m =
     (if action = ''archive'' then m\<lparr>im_manual_archived := True\<rparr>
      else if action = ''restore'' then m\<lparr>im_manual_archived := False, im_restored_at := Some (utc now)\<rparr>
      else if action = ''pin'' then m\<lparr>im_pinned := True\<rparr>
      else m\<lparr>im_pinned := False\<rparr>)"

definition apply_inbox_action ::
  "inbox_metadata \<Rightarrow> str \<Rightarrow> str \<Rightarrow> dt \<Rightarrow> exn + (mutation_result \<times> inbox_metadata)" where
  "apply_inbox_action m action mid now =
     (if action \<notin> set inbox_actions then Inl (ValueError (''unknown inbox action: '' @ quoted action))
      else (case map_of (im_mutation_ids m) mid of
        Some previous \<Rightarrow>
          if previous \<noteq> action
          then Inl (ValueError (''mutation id '' @ quoted mid @ '' already used for ''
            @ quoted previous @ '', not '' @ quoted action))
          else Inr (duplicate_mutation, m)
      | None \<Rightarrow>
          (let equivalent = (action = ''archive'' \<and> im_manual_archived m)
                 \<or> (action = ''pin'' \<and> im_pinned m) \<or> (action = ''unpin'' \<and> \<not> im_pinned m);
               m1 = m\<lparr>im_mutation_ids := drop_oldest (AList.update mid action (im_mutation_ids m))\<rparr>
           in if equivalent then Inr (retained_noop_mutation, m1)
              else Inr (applied_mutation, (set_inbox_flag action now m1)
                \<lparr>im_last_mutated_at := Some (inbox_last_mutated m now)\<rparr>))))"

section \<open>Messages and threads (core/message.py)\<close>

datatype role = Human | Agent

datatype message_kind = Note | Needs_You | Decision | Event

record decision_payload =
  dc_options :: "str list"
  dc_recommended :: "int option"
  dc_allow_free_text :: bool
  dc_multi :: bool

record message =
  ms_id :: str
  ms_thread_id :: str
  ms_role :: role
  ms_text :: str
  ms_created_at :: dt
  ms_kind :: message_kind
  ms_decision :: "decision_payload option"

text \<open>The validator of \<open>Message\<close>: a decision has a payload.\<close>

definition make_message :: "message \<Rightarrow> exn + message" where
  "make_message m = (if ms_kind m = Decision \<and> ms_decision m = None
     then Inl (ValueError ''kind='decision' requires a decision payload'') else Inr m)"

record thread =
  th_id :: str
  th_subject :: str
  th_created_at :: dt
  th_updated_at :: dt
  th_task_slug :: "str option"
  th_spec_id :: "str option"
  th_seen_at :: "dt option"
  th_agent_seen_at :: "dt option"
  th_resolved_through :: "str option"
  th_resolved_at :: "dt option"
  th_inbox :: inbox_metadata
  th_messages :: "message list"

definition awaiting_reply :: "thread \<Rightarrow> bool" where
  "awaiting_reply t \<longleftrightarrow> th_messages t \<noteq> [] \<and> ms_role (last (th_messages t)) = Human"

text \<open>The last index that satisfies a test, as a loop over the enumerated messages; -1 if none.\<close>

definition last_index :: "(message \<Rightarrow> bool) \<Rightarrow> message list \<Rightarrow> int" where
  "last_index p ms = foldl (\<lambda>acc im. if p (snd im) then int (fst im) else acc) (-1) (enumerate 0 ms)"

definition unanswered_after :: "thread \<Rightarrow> int" where
  "unanswered_after t = max (last_index (\<lambda>m. ms_role m = Human) (th_messages t))
     (last_index (\<lambda>m. Some (ms_id m) = th_resolved_through t) (th_messages t))"

definition open_request :: "message_kind \<Rightarrow> thread \<Rightarrow> bool" where
  "open_request k t \<longleftrightarrow> list_ex (\<lambda>m. ms_role m = Agent \<and> ms_kind m = k)
     (drop (nat (unanswered_after t + 1)) (th_messages t))"

definition needs_you :: "thread \<Rightarrow> bool" where
  "needs_you t = open_request Needs_You t"

definition needs_decision :: "thread \<Rightarrow> bool" where
  "needs_decision t = open_request Decision t"

definition awaiting_agent_event :: "thread \<Rightarrow> bool" where
  "awaiting_agent_event t \<longleftrightarrow>
     (let acted = last_index (\<lambda>m. ms_role m = Agent \<and> ms_kind m \<noteq> Event) (th_messages t)
      in list_ex (\<lambda>m. ms_role m = Agent \<and> ms_kind m = Event)
           (drop (nat (acted + 1)) (th_messages t)))"

definition unseen :: "thread \<Rightarrow> exn + bool" where
  "unseen t = (case filter (\<lambda>m. ms_role m = Agent) (th_messages t) of [] \<Rightarrow> Inr False
     | ms \<Rightarrow> (case th_seen_at t of None \<Rightarrow> Inr True
         | Some seen \<Rightarrow> dt_gt (ms_created_at (last ms)) seen))"

section \<open>Classification (core/inbox.py)\<close>

definition classify_thread :: "thread \<Rightarrow> bool \<Rightarrow> bool \<Rightarrow> dt \<Rightarrow> inbox_class" where
  "classify_thread t linked linked_terminal now =
     (let m = th_inbox t in
      if im_pinned m \<or> awaiting_reply t \<or> needs_you t \<or> needs_decision t then Active
      else if im_manual_archived m then Archived ''manual''
      else if restore_is_effective m now then Active
      else if linked \<and> linked_terminal then Archived ''linked_terminal''
      else if \<not> linked \<and> instant (utc now) - instant (utc (th_updated_at t)) \<ge> seven_days
      then Archived ''inactive_unlinked''
      else Active)"

section \<open>Laws\<close>

lemma drop_oldest_length: "length (drop_oldest d) \<le> max_mutation_ids"
proof (induction d rule: drop_oldest.induct)
  case (1 d)
  then show ?case by (subst drop_oldest.simps) simp
qed

lemma drop_oldest_drop: "drop_oldest d = drop (length d - max_mutation_ids) d"
proof (induction d rule: drop_oldest.induct)
  case (1 d)
  show ?case
  proof (cases "length d > max_mutation_ids")
    case True
    then have "drop_oldest d = drop (length (tl d) - max_mutation_ids) (tl d)"
      using 1 by (subst drop_oldest.simps) simp
    also have "\<dots> = drop (Suc (length (tl d) - max_mutation_ids)) d" by (simp add: drop_Suc)
    also have "Suc (length (tl d) - max_mutation_ids) = length d - max_mutation_ids" using True by simp
    finally show ?thesis .
  next
    case False
    then show ?thesis by (subst drop_oldest.simps) simp
  qed
qed

text \<open>A newly recorded mutation survives the trimming.\<close>

lemma drop_oldest_keeps_new:
  assumes "k \<notin> set (dict_keys d)" and "dict_ok d"
  shows "map_of (drop_oldest (AList.update k v d)) k = Some v \<and> dict_ok (drop_oldest (AList.update k v d))"
proof -
  have up: "AList.update k v d = d @ [(k, v)]" using assms(1) by (rule update_fresh)
  let ?n = "length (d @ [(k, v)]) - max_mutation_ids"
  have "?n \<le> length d" by (simp add: max_mutation_ids_def)
  then have eq: "drop_oldest (AList.update k v d) = drop ?n d @ [(k, v)]"
    by (simp add: up drop_oldest_drop)
  have fresh: "k \<notin> set (dict_keys (drop ?n d))" using assms(1) by (auto dest: in_set_dropD)
  then have none: "map_of (drop ?n d) k = None" unfolding set_map by (simp add: map_of_eq_None_iff)
  have "distinct (dict_keys (drop ?n d))"
    using assms(2) by (simp add: dict_ok_def drop_map [symmetric])
  with fresh none show ?thesis by (simp add: eq dict_ok_def map_add_def)
qed

end
