(* ===== verification/Message_Store.thy ===== *)
theory Message_Store
  imports Messages
begin

text \<open>
  The mailbox: the thread files of core/message_store.py and the change detection of
  core/message_wait.py. The store is the directory, a dictionary from thread id to thread in
  the order a directory scan yields; each operation runs under the lock of its thread, so it is
  one atomic step. The random suffix of a new id is an argument.
\<close>

type_synonym mailbox = "thread dict"

definition new_id :: "dt \<Rightarrow> str \<Rightarrow> str" where
  "new_id now suffix =
     (let w = (case now of Naive w \<Rightarrow> w | Aware w off \<Rightarrow> w);
          d = w div 86400000000; t = w mod 86400000000;
          y = year_of d; r = d - days_before_year y; m = month_of y r
      in digits_of 4 y @ digits_of 2 m @ digits_of 2 (r - days_before_month y m + 1)
         @ digits_of 2 (t div 3600000000) @ digits_of 2 (t div 60000000 mod 60)
         @ digits_of 2 (t div 1000000 mod 60) @ ''-'' @ suffix)"

definition phone_visible_at :: "thread \<Rightarrow> dt" where
  "phone_visible_at t =
     (let others = List.map utc ((case im_last_mutated_at (th_inbox t) of None \<Rightarrow> [] | Some x \<Rightarrow> [x])
            @ (case th_resolved_at t of None \<Rightarrow> [] | Some x \<Rightarrow> [x]))
      in foldl dt_max (utc (th_updated_at t)) others)"

section \<open>The store (core/message_store.py)\<close>

definition unsafe_id :: "str \<Rightarrow> exn" where
  "unsafe_id tid = ValueError (''unsafe thread id: '' @ quoted tid)"

definition thread_path :: "str \<Rightarrow> exn + str" where
  "thread_path tid =
     (if tid = [] \<or> CHR ''/'' \<in> set tid \<or> CHR 0x5C \<in> set tid \<or> tid = ''.'' \<or> tid = ''..''
        \<or> startswith tid ''.''
      then Inl (unsafe_id tid) else Inr tid)"

definition save_thread :: "thread \<Rightarrow> mailbox \<Rightarrow> exn + mailbox" where
  "save_thread t box = rbind (thread_path (th_id t)) (\<lambda>p. Inr (AList.update p t box))"

definition get_thread :: "str \<Rightarrow> mailbox \<Rightarrow> exn + thread option" where
  "get_thread tid box = rbind (thread_path tid) (\<lambda>p. Inr (map_of box p))"

text \<open>\<open>sorted(..., reverse=True)\<close> keeps the order of equal elements.\<close>

definition list_threads :: "mailbox \<Rightarrow> thread list" where
  "list_threads box = rev (sort_key (\<lambda>t. instant (utc (th_updated_at t))) (rev (dict_values box)))"

definition create_thread ::
  "str \<Rightarrow> str \<Rightarrow> dt \<Rightarrow> str option \<Rightarrow> str \<Rightarrow> str \<Rightarrow> mailbox \<Rightarrow> exn + (thread \<times> mailbox)" where
  "create_thread subject text now task_slug suffix1 suffix2 box =
     (let tid = new_id now suffix1;
          msg = \<lparr>ms_id = new_id now suffix2, ms_thread_id = tid, ms_role = Human, ms_text = text,
            ms_created_at = now, ms_kind = Note, ms_decision = None\<rparr>;
          t = \<lparr>th_id = tid, th_subject = subject, th_created_at = now, th_updated_at = now,
            th_task_slug = task_slug, th_spec_id = None, th_seen_at = None, th_agent_seen_at = None,
            th_resolved_through = None, th_resolved_at = None, th_inbox = new_inbox,
            th_messages = [msg]\<rparr>
      in rbind (save_thread t box) (\<lambda>box'. Inr (t, box')))"

text \<open>The read half of the locked read-modify-write every operation performs.\<close>

definition load_thread :: "str \<Rightarrow> mailbox \<Rightarrow> exn + thread" where
  "load_thread tid box = rbind (get_thread tid box) (\<lambda>found.
     case found of None \<Rightarrow> Inl (KeyError tid) | Some t \<Rightarrow> Inr t)"

definition link_spec :: "str \<Rightarrow> str \<Rightarrow> dt option \<Rightarrow> mailbox \<Rightarrow> exn + mailbox" where
  "link_spec tid spec_id now box = rbind (load_thread tid box) (\<lambda>t.
     let t1 = t\<lparr>th_spec_id := Some spec_id\<rparr>
     in save_thread (case now of None \<Rightarrow> t1 | Some n \<Rightarrow> t1\<lparr>th_updated_at := n\<rparr>) box)"

definition append_message ::
  "str \<Rightarrow> role \<Rightarrow> str \<Rightarrow> dt \<Rightarrow> message_kind \<Rightarrow> decision_payload option \<Rightarrow> str \<Rightarrow> mailbox
     \<Rightarrow> exn + (message \<times> mailbox)" where
  "append_message tid r text now kind dec suffix box = rbind (load_thread tid box) (\<lambda>t.
     rbind (make_message \<lparr>ms_id = new_id now suffix, ms_thread_id = tid, ms_role = r, ms_text = text,
       ms_created_at = now, ms_kind = kind, ms_decision = dec\<rparr>) (\<lambda>msg.
     rbind (save_thread (t\<lparr>th_messages := th_messages t @ [msg], th_updated_at := now\<rparr>) box) (\<lambda>box'.
     Inr (msg, box'))))"

definition mutate_inbox ::
  "str \<Rightarrow> str \<Rightarrow> str \<Rightarrow> dt \<Rightarrow> mailbox \<Rightarrow> exn + ((thread \<times> bool) \<times> mailbox)" where
  "mutate_inbox tid action mid now box = rbind (load_thread tid box) (\<lambda>t.
     rbind (apply_inbox_action (th_inbox t) action mid now) (\<lambda>(res, inbox').
     let t' = t\<lparr>th_inbox := inbox'\<rparr> in
     rbind (if mr_persisted res then save_thread t' box else Inr box) (\<lambda>box'.
     Inr ((t', mr_applied res), box'))))"

definition mark_seen :: "str \<Rightarrow> dt \<Rightarrow> mailbox \<Rightarrow> exn + (thread \<times> mailbox)" where
  "mark_seen tid at box = rbind (load_thread tid box) (\<lambda>t.
     rbind (case th_seen_at t of None \<Rightarrow> Inr True | Some old \<Rightarrow> dt_gt at old) (\<lambda>later.
     if later then (let t' = t\<lparr>th_seen_at := Some at\<rparr> in
       rbind (save_thread t' box) (\<lambda>box'. Inr (t', box')))
     else Inr (t, box)))"

definition mark_agent_seen :: "str \<Rightarrow> dt \<Rightarrow> mailbox \<Rightarrow> exn + (thread \<times> mailbox)" where
  "mark_agent_seen tid at box = rbind (load_thread tid box) (\<lambda>t.
     rbind (case th_agent_seen_at t of None \<Rightarrow> Inr True | Some old \<Rightarrow> dt_gt at old) (\<lambda>later.
     if later then (let t' = t\<lparr>th_agent_seen_at := Some at\<rparr> in
       rbind (save_thread t' box) (\<lambda>box'. Inr (t', box')))
     else Inr (t, box)))"

text \<open>\<open>next(index for index, message in enumerate(ms) if message.id == mid)\<close>.\<close>

fun first_index :: "(message \<Rightarrow> bool) \<Rightarrow> message list \<Rightarrow> nat option" where
  "first_index p [] = None"
| "first_index p (m # ms) = (if p m then Some 0 else map_option Suc (first_index p ms))"

definition phone_high_water :: "mailbox \<Rightarrow> thread \<Rightarrow> dt" where
  "phone_high_water box t = (case List.map phone_visible_at (list_threads box) of
     [] \<Rightarrow> phone_visible_at t | x # xs \<Rightarrow> foldl dt_max x xs)"

definition resolve_through :: "str \<Rightarrow> str \<Rightarrow> dt \<Rightarrow> mailbox \<Rightarrow> exn + (thread \<times> mailbox)" where
  "resolve_through tid mid now box = rbind (load_thread tid box) (\<lambda>t.
     case first_index (\<lambda>m. ms_id m = mid) (th_messages t) of
       None \<Rightarrow> Inl (ValueError (''message '' @ quoted mid @ '' does not belong to thread '' @ quoted tid))
     | Some target \<Rightarrow>
         (let current = (case first_index (\<lambda>m. Some (ms_id m) = th_resolved_through t) (th_messages t) of
                None \<Rightarrow> -1 | Some i \<Rightarrow> int i)
          in if int target > current then
               (let t' = t\<lparr>th_resolved_through := Some mid,
                    th_resolved_at := Some (dt_max (utc now) (dt_add (phone_high_water box t) 1))\<rparr>
                in rbind (save_thread t' box) (\<lambda>box'. Inr (t', box')))
             else Inr (t, box)))"

section \<open>Change detection (core/message_wait.py)\<close>

definition change_at :: "bool \<Rightarrow> thread \<Rightarrow> dt" where
  "change_at include_inbox t =
     (let content = utc (th_updated_at t) in
      if \<not> include_inbox then content
      else dt_max (dt_max content
         (case im_last_mutated_at (th_inbox t) of None \<Rightarrow> content | Some x \<Rightarrow> utc x))
         (case th_resolved_at t of None \<Rightarrow> content | Some x \<Rightarrow> utc x))"

definition changed_since :: "bool \<Rightarrow> thread list \<Rightarrow> dt \<Rightarrow> thread list \<times> dt" where
  "changed_since include_inbox threads since =
     (let s = utc since
      in (filter (\<lambda>t. instant (change_at include_inbox t) > instant s) threads,
          foldl dt_max s (List.map (change_at include_inbox) threads)))"

text \<open>Stamping is best effort: a thread whose stamp raises is skipped.\<close>

definition stamp_agent_seen :: "thread list \<Rightarrow> dt \<Rightarrow> mailbox \<Rightarrow> mailbox" where
  "stamp_agent_seen threads now box = foldl (\<lambda>b t.
     if awaiting_reply t then
       (let up_to = (if th_messages t = [] then now else ms_created_at (last (th_messages t)))
        in case mark_agent_seen (th_id t) up_to b of Inl e \<Rightarrow> b | Inr (_, b') \<Rightarrow> b')
     else b) box threads"

end
