(* ===== verification/Message_Laws.thy ===== *)
theory Message_Laws
  imports Message_Store
begin

text \<open>
  What the operations of the mailbox keep: a thread stays under its own id, its conversation only
  grows, and none of its cursors ever moves back.
\<close>

section \<open>Well-formed mailboxes\<close>

definition mailbox_ok :: "mailbox \<Rightarrow> bool" where
  "mailbox_ok box \<longleftrightarrow> dict_ok box \<and>
     (\<forall>k t. map_of box k = Some t \<longrightarrow> th_id t = k \<and> dict_ok (im_mutation_ids (th_inbox t)))"

lemma mailbox_ok_update:
  assumes "mailbox_ok box" and "th_id t = k" and "dict_ok (im_mutation_ids (th_inbox t))"
  shows "mailbox_ok (AList.update k t box)"
  using assms by (auto simp: mailbox_ok_def dict_simps)

lemma save_thread_Inr:
  "save_thread t box = Inr box' \<longleftrightarrow>
     thread_path (th_id t) = Inr (th_id t) \<and> box' = AList.update (th_id t) t box"
  by (auto simp: save_thread_def thread_path_def rbind_eq_Inr)

lemma load_thread_Inr:
  "load_thread tid box = Inr t \<longleftrightarrow> thread_path tid = Inr tid \<and> map_of box tid = Some t"
  by (auto simp: load_thread_def get_thread_def thread_path_def result_simps split: option.splits)

section \<open>Progress of a thread\<close>

definition cursor_le :: "dt option \<Rightarrow> dt option \<Rightarrow> bool" where
  "cursor_le a b = (case a of None \<Rightarrow> True
     | Some x \<Rightarrow> (case b of None \<Rightarrow> False | Some y \<Rightarrow> instant x \<le> instant y))"

lemma cursor_le_refl [simp]: "cursor_le a a"
  by (simp add: cursor_le_def split: option.split)

lemma cursor_le_trans: "cursor_le a b \<Longrightarrow> cursor_le b c \<Longrightarrow> cursor_le a c"
  by (auto simp: cursor_le_def split: option.splits)

definition resolved_index :: "thread \<Rightarrow> int" where
  "resolved_index t = (case first_index (\<lambda>m. Some (ms_id m) = th_resolved_through t) (th_messages t) of
     None \<Rightarrow> -1 | Some i \<Rightarrow> int i)"

record progress =
  pr_seen :: "dt option"
  pr_agent_seen :: "dt option"
  pr_resolved_at :: "dt option"
  pr_mutated :: "dt option"

definition cursors :: "thread \<Rightarrow> progress" where
  "cursors t = \<lparr>pr_seen = th_seen_at t, pr_agent_seen = th_agent_seen_at t,
     pr_resolved_at = th_resolved_at t, pr_mutated = im_last_mutated_at (th_inbox t)\<rparr>"

definition thread_grows :: "thread \<Rightarrow> thread \<Rightarrow> bool" where
  "thread_grows t t' \<longleftrightarrow> th_id t' = th_id t \<and> th_created_at t' = th_created_at t \<and>
     th_subject t' = th_subject t \<and>
     take (length (th_messages t)) (th_messages t') = th_messages t \<and>
     resolved_index t \<le> resolved_index t' \<and>
     cursor_le (pr_seen (cursors t)) (pr_seen (cursors t')) \<and>
     cursor_le (pr_agent_seen (cursors t)) (pr_agent_seen (cursors t')) \<and>
     cursor_le (pr_resolved_at (cursors t)) (pr_resolved_at (cursors t')) \<and>
     cursor_le (pr_mutated (cursors t)) (pr_mutated (cursors t'))"

lemma thread_grows_refl [simp]: "thread_grows t t"
  by (simp add: thread_grows_def)

lemma take_prefix_trans:
  assumes "take (length xs) ys = xs" and "take (length ys) zs = ys"
  shows "take (length xs) zs = xs"
proof -
  have "length xs \<le> length ys" using assms(1) by (metis length_take min.cobounded1 nat_le_linear take_all)
  then have "take (length xs) (take (length ys) zs) = take (length xs) zs" by (simp add: min_absorb1)
  then show ?thesis using assms by simp
qed

lemma thread_grows_trans: "thread_grows a b \<Longrightarrow> thread_grows b c \<Longrightarrow> thread_grows a c"
  unfolding thread_grows_def by (auto intro: cursor_le_trans take_prefix_trans)

lemma first_index_append: "first_index p xs = Some i \<Longrightarrow> first_index p (xs @ ys) = Some i"
  by (induction xs arbitrary: i) (auto split: if_splits)

lemma first_index_Some: "first_index p xs = Some i \<Longrightarrow> i < length xs \<and> p (xs ! i)"
  by (induction xs arbitrary: i) (auto split: if_splits)

lemma first_index_cong: "(\<And>m. p m = q m) \<Longrightarrow> first_index p xs = first_index q xs"
  by (induction xs) auto

section \<open>High-water marks\<close>

lemma instant_foldl_max: "instant (foldl dt_max a xs) = Max (set (List.map instant (a # xs)))"
proof (induction xs arbitrary: a)
  case (Cons x xs)
  show ?case
  proof (cases "xs = []")
    case False
    then show ?thesis using Cons.IH [of "dt_max a x"] by (simp add: max.assoc)
  qed (simp add: max.commute)
qed simp

lemma foldl_max_ge: "x \<in> set (a # xs) \<Longrightarrow> instant x \<le> instant (foldl dt_max a xs)"
  unfolding instant_foldl_max by (rule Max_ge) auto

lemma foldl_max_le: "(\<And>x. x \<in> set (a # xs) \<Longrightarrow> instant x \<le> b) \<Longrightarrow> instant (foldl dt_max a xs) \<le> b"
  unfolding instant_foldl_max by (subst Max_le_iff) auto

lemma phone_visible_change: "instant (phone_visible_at t) = instant (change_at True t)"
  by (simp add: phone_visible_at_def change_at_def Let_def max.commute max.left_commute
      split: option.split)

lemma set_list_threads: "set (list_threads box) = set (dict_values box)"
  by (simp add: list_threads_def)

lemma high_water_ge: "t \<in> set (dict_values box) \<Longrightarrow>
    instant (phone_visible_at t) \<le> instant (phone_high_water box u)"
proof -
  assume "t \<in> set (dict_values box)"
  then have "phone_visible_at t \<in> set (List.map phone_visible_at (list_threads box))"
    by (simp add: set_list_threads)
  then show ?thesis
    unfolding phone_high_water_def
    by (cases "List.map phone_visible_at (list_threads box)") (simp_all only: list.case foldl_max_ge, simp)
qed

lemma resolved_visible: "th_resolved_at t = Some x \<Longrightarrow> instant x \<le> instant (phone_visible_at t)"
  by (simp add: phone_visible_change change_at_def Let_def)

section \<open>Each operation\<close>

lemma apply_inbox_grows:
  assumes "apply_inbox_action m action mid now = Inr (res, m')" and "dict_ok (im_mutation_ids m)"
  shows "cursor_le (im_last_mutated_at m) (im_last_mutated_at m') \<and> dict_ok (im_mutation_ids m') \<and>
    (mr_applied res \<longrightarrow> (\<exists>t. im_last_mutated_at m' = Some t \<and> instant now \<le> instant t \<and>
       (\<forall>old. im_last_mutated_at m = Some old \<longrightarrow> instant old < instant t)))"
proof (cases "map_of (im_mutation_ids m) mid")
  case None
  then have fresh: "mid \<notin> set (dict_keys (im_mutation_ids m))" by (simp add: map_of_eq_None_iff)
  note ids = drop_oldest_keeps_new [OF fresh assms(2), of action]
  show ?thesis
    using assms None ids
    by (auto simp: apply_inbox_action_def Let_def set_inbox_flag_def cursor_le_def inbox_last_mutated_def
        retained_noop_mutation_def applied_mutation_def split: if_splits option.splits)
next
  case (Some previous)
  with assms show ?thesis
    by (auto simp: apply_inbox_action_def duplicate_mutation_def split: if_splits)
qed

text \<open>An operation writes at most one thread, and lets it grow.\<close>

definition touches :: "str \<Rightarrow> mailbox \<Rightarrow> thread \<Rightarrow> thread \<Rightarrow> mailbox \<Rightarrow> bool" where
  "touches tid box t t' box' \<longleftrightarrow> map_of box tid = Some t \<and> thread_grows t t' \<and>
     dict_ok (im_mutation_ids (th_inbox t')) \<and>
     (box' = box \<and> t' = t \<or> box' = AList.update tid t' box)"

lemma touchesI:
  assumes "mailbox_ok box" and "load_thread tid box = Inr t" and "save_thread t' box = Inr box'"
    and "thread_grows t t'" and "dict_ok (im_mutation_ids (th_inbox t))
      \<Longrightarrow> dict_ok (im_mutation_ids (th_inbox t'))"
  shows "touches tid box t t' box'"
  using assms by (auto simp: touches_def load_thread_Inr save_thread_Inr mailbox_ok_def thread_grows_def)

lemma touches_same:
  assumes "mailbox_ok box" and "load_thread tid box = Inr t"
  shows "touches tid box t t box"
  using assms by (auto simp: touches_def load_thread_Inr mailbox_ok_def)

lemmas growth_simps = thread_grows_def cursors_def resolved_index_def

lemma grows_seen: "cursor_le (th_seen_at t) c \<Longrightarrow> thread_grows t (t\<lparr>th_seen_at := c\<rparr>)"
  and grows_agent: "cursor_le (th_agent_seen_at t) c \<Longrightarrow> thread_grows t (t\<lparr>th_agent_seen_at := c\<rparr>)"
  and grows_link: "thread_grows t (t\<lparr>th_spec_id := s\<rparr>)"
  and grows_updated: "thread_grows t (t\<lparr>th_spec_id := s, th_updated_at := now\<rparr>)"
  and grows_inbox: "cursor_le (im_last_mutated_at (th_inbox t)) (im_last_mutated_at m) \<Longrightarrow>
    thread_grows t (t\<lparr>th_inbox := m\<rparr>)"
  by (simp_all add: growth_simps)

lemma grows_append: "thread_grows t (t\<lparr>th_messages := th_messages t @ ms, th_updated_at := now\<rparr>)"
  by (cases "first_index (\<lambda>m. Some (ms_id m) = th_resolved_through t) (th_messages t)")
    (auto simp: growth_simps first_index_append split: option.split)

lemma later_cursor:
  "(case old of None \<Rightarrow> Inr True | Some o' \<Rightarrow> dt_gt at o') = Inr True \<Longrightarrow> cursor_le old (Some at)"
  by (auto simp: dt_gt_def cursor_le_def split: option.splits if_splits)

lemma mark_seen_touches:
  assumes "mark_seen tid at box = Inr (t', box')" and "mailbox_ok box"
  shows "\<exists>t. touches tid box t t' box' \<and> t' \<in> {t, t\<lparr>th_seen_at := Some at\<rparr>}"
proof -
  from assms(1) obtain t later where t: "load_thread tid box = Inr t"
    and later: "(case th_seen_at t of None \<Rightarrow> Inr True | Some old \<Rightarrow> dt_gt at old) = Inr later"
    and rest: "(if later then (let t' = t\<lparr>th_seen_at := Some at\<rparr> in
       rbind (save_thread t' box) (\<lambda>box'. Inr (t', box'))) else Inr (t, box)) = Inr (t', box')"
    by (auto simp: mark_seen_def rbind_eq_Inr)
  show ?thesis
  proof (cases later)
    case True
    with rest have "t' = t\<lparr>th_seen_at := Some at\<rparr>" "save_thread t' box = Inr box'"
      by (auto simp: Let_def rbind_eq_Inr)
    moreover from this later True have "thread_grows t t'" by (simp add: grows_seen later_cursor)
    ultimately show ?thesis by (intro exI [of _ t]) (simp add: touchesI [OF assms(2) t])
  next
    case False
    with rest touches_same [OF assms(2) t] show ?thesis by auto
  qed
qed

lemma mark_agent_seen_touches:
  assumes "mark_agent_seen tid at box = Inr (t', box')" and "mailbox_ok box"
  shows "\<exists>t. touches tid box t t' box' \<and> t' \<in> {t, t\<lparr>th_agent_seen_at := Some at\<rparr>}"
proof -
  from assms(1) obtain t later where t: "load_thread tid box = Inr t"
    and later: "(case th_agent_seen_at t of None \<Rightarrow> Inr True | Some old \<Rightarrow> dt_gt at old) = Inr later"
    and rest: "(if later then (let t' = t\<lparr>th_agent_seen_at := Some at\<rparr> in
       rbind (save_thread t' box) (\<lambda>box'. Inr (t', box'))) else Inr (t, box)) = Inr (t', box')"
    by (auto simp: mark_agent_seen_def rbind_eq_Inr)
  show ?thesis
  proof (cases later)
    case True
    with rest have "t' = t\<lparr>th_agent_seen_at := Some at\<rparr>" "save_thread t' box = Inr box'"
      by (auto simp: Let_def rbind_eq_Inr)
    moreover from this later True have "thread_grows t t'" by (simp add: grows_agent later_cursor)
    ultimately show ?thesis by (intro exI [of _ t]) (simp add: touchesI [OF assms(2) t])
  next
    case False
    with rest touches_same [OF assms(2) t] show ?thesis by auto
  qed
qed

lemma link_spec_touches:
  assumes "link_spec tid sid now box = Inr box'" and "mailbox_ok box"
  shows "\<exists>t t'. touches tid box t t' box'"
proof -
  from assms(1) obtain t where t: "load_thread tid box = Inr t"
    and save: "save_thread (case now of None \<Rightarrow> t\<lparr>th_spec_id := Some sid\<rparr>
      | Some n \<Rightarrow> t\<lparr>th_spec_id := Some sid, th_updated_at := n\<rparr>) box = Inr box'"
    by (auto simp: link_spec_def rbind_eq_Inr Let_def)
  have "touches tid box t (case now of None \<Rightarrow> t\<lparr>th_spec_id := Some sid\<rparr>
      | Some n \<Rightarrow> t\<lparr>th_spec_id := Some sid, th_updated_at := n\<rparr>) box'"
    by (rule touchesI [OF assms(2) t save])
      (simp_all add: grows_link grows_updated split: option.split)
  then show ?thesis by blast
qed

lemma append_touches:
  assumes "append_message tid r text now kind dec suffix box = Inr (msg, box')" and "mailbox_ok box"
  shows "\<exists>t. touches tid box t (t\<lparr>th_messages := th_messages t @ [msg], th_updated_at := now\<rparr>) box' \<and>
    ms_role msg = r \<and> ms_created_at msg = now \<and>
    box' = AList.update tid (t\<lparr>th_messages := th_messages t @ [msg], th_updated_at := now\<rparr>) box"
proof -
  from assms(1) obtain t where t: "load_thread tid box = Inr t"
    and msg: "make_message \<lparr>ms_id = new_id now suffix, ms_thread_id = tid, ms_role = r, ms_text = text,
       ms_created_at = now, ms_kind = kind, ms_decision = dec\<rparr> = Inr msg"
    and save: "save_thread (t\<lparr>th_messages := th_messages t @ [msg], th_updated_at := now\<rparr>) box = Inr box'"
    by (auto simp: append_message_def rbind_eq_Inr)
  from t assms(2) have id: "th_id t = tid" by (simp add: load_thread_Inr mailbox_ok_def)
  from msg have "ms_role msg = r" "ms_created_at msg = now"
    by (auto simp: make_message_def split: if_splits)
  moreover have "touches tid box t (t\<lparr>th_messages := th_messages t @ [msg], th_updated_at := now\<rparr>) box'"
    by (rule touchesI [OF assms(2) t save]) (simp_all add: grows_append)
  moreover from save id
  have "box' = AList.update tid (t\<lparr>th_messages := th_messages t @ [msg], th_updated_at := now\<rparr>) box"
    by (simp add: save_thread_Inr)
  ultimately show ?thesis by blast
qed

lemma mutate_touches:
  assumes "mutate_inbox tid action mid now box = Inr ((t', applied), box')" and "mailbox_ok box"
  shows "\<exists>t. touches tid box t t' box' \<and> t' = t\<lparr>th_inbox := th_inbox t'\<rparr>"
proof -
  from assms(1) obtain t res m where t: "load_thread tid box = Inr t"
    and act: "apply_inbox_action (th_inbox t) action mid now = Inr (res, m)"
    and t': "t' = t\<lparr>th_inbox := m\<rparr>"
    and save: "(if mr_persisted res then save_thread t' box else Inr box) = Inr box'"
    by (auto simp: mutate_inbox_def rbind_eq_Inr Let_def)
  have ok: "dict_ok (im_mutation_ids (th_inbox t))"
    using t assms(2) by (auto simp: load_thread_Inr mailbox_ok_def)
  from apply_inbox_grows [OF act ok] have grows: "thread_grows t t'" and ids: "dict_ok (im_mutation_ids m)"
    by (simp_all add: t' grows_inbox)
  show ?thesis
  proof (cases "mr_persisted res")
    case True
    with save have "save_thread t' box = Inr box'" by simp
    from touchesI [OF assms(2) t this grows] ids show ?thesis by (auto simp: t')
  next
    case False
    with act have "m = th_inbox t"
      by (auto simp: apply_inbox_action_def Let_def retained_noop_mutation_def applied_mutation_def
          split: if_splits option.splits)
    then have "t' = t" by (simp add: t')
    with False save touches_same [OF assms(2) t] show ?thesis by auto
  qed
qed

lemma resolve_Inr:
  assumes "resolve_through tid mid now box = Inr (t', box')"
  obtains t where "load_thread tid box = Inr t" "t' = t" "box' = box"
  | t target where "load_thread tid box = Inr t"
      "first_index (\<lambda>m. ms_id m = mid) (th_messages t) = Some target" "resolved_index t < int target"
      "t' = t\<lparr>th_resolved_through := Some mid,
         th_resolved_at := Some (dt_max (utc now) (dt_add (phone_high_water box t) 1))\<rparr>"
      "save_thread t' box = Inr box'"
  using assms
  by (auto simp: resolve_through_def rbind_eq_Inr Let_def resolved_index_def [symmetric]
      split: option.splits if_splits)

lemma load_in_values: "load_thread tid box = Inr t \<Longrightarrow> t \<in> set (dict_values box)"
  by (force simp: load_thread_Inr dest: map_of_SomeD)

lemma resolve_touches:
  assumes "resolve_through tid mid now box = Inr (t', box')" and "mailbox_ok box"
  shows "\<exists>t. touches tid box t t' box'"
  using assms(1)
proof (cases rule: resolve_Inr)
  case (1 t)
  with touches_same [OF assms(2), of tid t] show ?thesis by auto
next
  case (2 t target)
  have index: "resolved_index t' = int target"
    using 2(2) by (simp add: resolved_index_def 2(4))
  have "cursor_le (th_resolved_at t) (th_resolved_at t')"
  proof (cases "th_resolved_at t")
    case (Some x)
    with resolved_visible [OF this] high_water_ge [OF load_in_values [OF 2(1)], of t]
    show ?thesis by (simp add: 2(4) cursor_le_def)
  qed (simp add: cursor_le_def)
  with index 2(3) have "thread_grows t t'"
    by (simp add: thread_grows_def cursors_def) (simp add: 2(4))
  from touchesI [OF assms(2) 2(1) 2(5) this] show ?thesis by (auto simp: 2(4))
qed

lemma touches_ok:
  assumes "touches tid box t t' box'" and "mailbox_ok box"
  shows "mailbox_ok box'"
proof -
  have "th_id t' = tid" using assms by (auto simp: touches_def thread_grows_def mailbox_ok_def)
  with assms mailbox_ok_update [OF assms(2), of t' tid] show ?thesis by (auto simp: touches_def)
qed

lemma touches_grows:
  assumes "touches tid box t t' box'" and "map_of box k = Some u"
  shows "\<exists>u'. map_of box' k = Some u' \<and> thread_grows u u'"
  using assms by (auto simp: touches_def dict_simps)

end
