(* ===== verification/Message_Wait.thy ===== *)
theory Message_Wait
  imports Message_Laws Leases
begin

text \<open>
  The long poll of core/message_wait.py and the listener command of cli/message.py
  (\<open>mship inbox wait\<close>) that combines it with the lease and the read cursors. Time is counted in
  ticks. What the loop does not control - other processes, the clocks - is the world \<open>'w\<close> it
  runs in: loading threads, reading the clock and sleeping are arguments, as in the code.
\<close>

section \<open>The long poll (core/message_wait.py)\<close>

record wait_result =
  wr_threads :: "thread list"
  wr_cursor :: dt
  wr_timed_out :: bool

definition select_hits :: "(thread \<Rightarrow> bool) option \<Rightarrow> thread list \<Rightarrow> thread list" where
  "select_hits pred changed = (case pred of None \<Rightarrow> changed | Some p \<Rightarrow> filter p changed)"

partial_function (option) wait_loop ::
  "('w \<Rightarrow> thread list \<times> 'w) \<Rightarrow> ('w \<Rightarrow> int \<times> 'w) \<Rightarrow> (int \<Rightarrow> 'w \<Rightarrow> 'w)
     \<Rightarrow> (thread \<Rightarrow> bool) option \<Rightarrow> int \<Rightarrow> int \<Rightarrow> dt \<Rightarrow> 'w \<Rightarrow> (wait_result \<times> 'w) option" where
  "wait_loop load clock sleep pred interval deadline since w =
     (let loaded = load w;
          change = changed_since False (fst loaded) since;
          hits = select_hits pred (fst change)
      in if hits \<noteq> [] then
           Some (\<lparr>wr_threads = hits, wr_cursor = snd change, wr_timed_out = False\<rparr>, snd loaded)
         else
           (let read = clock (snd loaded); remaining = deadline - fst read
            in if remaining \<le> 0 then
                 Some (\<lparr>wr_threads = [], wr_cursor = snd change, wr_timed_out = True\<rparr>, snd read)
               else wait_loop load clock sleep pred interval deadline since
                 (sleep (min interval remaining) (snd read))))"

definition wait_for_change ::
  "('w \<Rightarrow> thread list \<times> 'w) \<Rightarrow> ('w \<Rightarrow> int \<times> 'w) \<Rightarrow> (int \<Rightarrow> 'w \<Rightarrow> 'w)
     \<Rightarrow> (thread \<Rightarrow> bool) option \<Rightarrow> int \<Rightarrow> dt \<Rightarrow> int \<Rightarrow> 'w \<Rightarrow> (wait_result \<times> 'w) option" where
  "wait_for_change load clock sleep pred interval since timeout w =
     (let start = clock w
      in wait_loop load clock sleep pred interval (fst start + timeout) since (snd start))"

section \<open>The listener command (cli/message.py)\<close>

record inbox_world =
  iw_lease :: lease_file
  iw_box :: mailbox
  iw_wall :: dt
  iw_clock :: int
  iw_alive :: "int set"

datatype wait_outcome =
    Usage_Error
  | Skipped_Duplicate dt int
  | Returned wait_result
  | Raised exn

definition lease_ttl :: int where
  "lease_ttl = 10000000"

definition parse_since :: "str option \<Rightarrow> dt \<Rightarrow> dt option" where
  "parse_since since now = map_option utc
     (case since of None \<Rightarrow> Some now | Some s \<Rightarrow> if s = [] then Some now else fromisoformat s)"

definition load_and_heartbeat :: "int \<Rightarrow> inbox_world \<Rightarrow> thread list \<times> inbox_world" where
  "load_and_heartbeat pid w =
     (list_threads (iw_box w), w\<lparr>iw_lease := refresh pid (iw_wall w) (iw_lease w)\<rparr>)"

definition read_clock_of :: "inbox_world \<Rightarrow> int \<times> inbox_world" where
  "read_clock_of w = (iw_clock w, w)"

definition wants_agent :: "thread \<Rightarrow> bool" where
  "wants_agent t \<longleftrightarrow> awaiting_reply t \<or> awaiting_agent_event t"

text \<open>The polling interval is the default of \<open>wait_for_change\<close>, one second.\<close>

definition inbox_wait ::
  "(int \<Rightarrow> inbox_world \<Rightarrow> inbox_world) \<Rightarrow> int \<Rightarrow> str option \<Rightarrow> int \<Rightarrow> inbox_world
     \<Rightarrow> (wait_outcome \<times> inbox_world) option" where
  "inbox_wait sleep pid since timeout w =
     (case parse_since since (iw_wall w) of
        None \<Rightarrow> Some (Usage_Error, w)
      | Some since_dt \<Rightarrow>
          (case try_acquire lease_ttl (\<lambda>q. q \<in> iw_alive w) pid (iw_wall w) (iw_lease w) of
             Inl e \<Rightarrow> Some (Raised e, w)
           | Inr (Some holder, f) \<Rightarrow>
               Some (Skipped_Duplicate since_dt (li_pid holder), w\<lparr>iw_lease := f\<rparr>)
           | Inr (None, f) \<Rightarrow>
               (case wait_for_change (load_and_heartbeat pid) read_clock_of sleep (Some wants_agent)
                       1000000 since_dt timeout (w\<lparr>iw_lease := f\<rparr>) of
                  None \<Rightarrow> None
                | Some (res, w1) \<Rightarrow>
                    (let w2 = w1\<lparr>iw_lease := release pid (iw_lease w1)\<rparr>
                     in Some (Returned res,
                          w2\<lparr>iw_box := stamp_agent_seen (wr_threads res) (iw_wall w2) (iw_box w2)\<rparr>)))))"

section \<open>Termination\<close>

text \<open>A clock of the world that reading and loading do not turn back, and that sleeping advances
  by at least the time asked for.\<close>

definition advancing :: "('w \<Rightarrow> int) \<Rightarrow> ('w \<Rightarrow> thread list \<times> 'w) \<Rightarrow> ('w \<Rightarrow> int \<times> 'w) \<Rightarrow> (int \<Rightarrow> 'w \<Rightarrow> 'w) \<Rightarrow> bool" where
  "advancing time load clock sleep \<longleftrightarrow>
     (\<forall>w. time w \<le> time (snd (load w)) \<and> fst (clock w) = time w \<and> time w \<le> time (snd (clock w))) \<and>
     (\<forall>w d. 0 < d \<longrightarrow> time w + d \<le> time (sleep d w))"

text \<open>What a finished wait delivers, whatever the world did meanwhile.\<close>

definition wait_post :: "('w \<Rightarrow> int) \<Rightarrow> (thread \<Rightarrow> bool) option \<Rightarrow> int \<Rightarrow> dt \<Rightarrow> wait_result \<times> 'w \<Rightarrow> bool" where
  "wait_post time pred deadline since rw \<longleftrightarrow>
     instant since \<le> instant (wr_cursor (fst rw)) \<and>
     (if wr_timed_out (fst rw) then wr_threads (fst rw) = [] \<and> deadline \<le> time (snd rw)
      else wr_threads (fst rw) \<noteq> []) \<and>
     (\<forall>t \<in> set (wr_threads (fst rw)). instant since < instant (th_updated_at t) \<and>
        instant (th_updated_at t) \<le> instant (wr_cursor (fst rw)) \<and>
        (\<forall>p. pred = Some p \<longrightarrow> p t))"

lemma changed_since_content:
  "t \<in> set (fst (changed_since False ts since)) \<longleftrightarrow> t \<in> set ts \<and> instant since < instant (th_updated_at t)"
  by (simp add: changed_since_def change_at_def)

lemma changed_since_cursor:
  "instant since \<le> instant (snd (changed_since b ts since))"
  "t \<in> set ts \<Longrightarrow> instant (change_at b t) \<le> instant (snd (changed_since b ts since))"
  using foldl_max_ge [of "utc since" "utc since" "List.map (change_at b) ts"]
    foldl_max_ge [of "change_at b t" "utc since" "List.map (change_at b) ts"]
  by (simp_all add: changed_since_def Let_def)

lemma wait_loop_returns:
  assumes "advancing time load clock sleep" and "0 < interval"
  shows "\<exists>rw. wait_loop load clock sleep pred interval deadline since w = Some rw \<and>
    wait_post time pred deadline since rw"
proof (induction "nat (deadline - time w)" arbitrary: w rule: less_induct)
  case less
  define w1 w2 where "w1 = snd (load w)" and "w2 = snd (clock w1)"
  define change where "change = changed_since False (fst (load w)) since"
  define hits where "hits = select_hits pred (fst change)"
  have times: "time w \<le> time w1" "fst (clock w1) = time w1" "time w1 \<le> time w2"
    using assms(1) by (simp_all add: advancing_def w1_def w2_def)
  have cursor: "instant since \<le> instant (snd change)"
    by (simp add: change_def changed_since_cursor(1))
  have sound: "instant since < instant (th_updated_at t) \<and> instant (th_updated_at t) \<le> instant (snd change)
      \<and> (\<forall>p. pred = Some p \<longrightarrow> p t)" if "t \<in> set hits" for t
  proof -
    from that have in_change: "t \<in> set (fst change)" and p: "\<forall>p. pred = Some p \<longrightarrow> p t"
      by (auto simp: hits_def select_hits_def split: option.splits)
    from in_change have "t \<in> set (fst (load w))" "instant since < instant (th_updated_at t)"
      by (auto simp: change_def changed_since_content)
    with p changed_since_cursor(2) [of t "fst (load w)" False since] show ?thesis
      by (simp add: change_def change_at_def)
  qed
  note unfold = wait_loop.simps [of load clock sleep pred interval deadline since w, unfolded Let_def,
      folded w1_def, folded w2_def change_def, folded hits_def]
  show ?case
  proof (cases "hits = []")
    case False
    then have "wait_loop load clock sleep pred interval deadline since w =
        Some (\<lparr>wr_threads = hits, wr_cursor = snd change, wr_timed_out = False\<rparr>, w1)"
      by (subst unfold) simp
    moreover have "wait_post time pred deadline since
        (\<lparr>wr_threads = hits, wr_cursor = snd change, wr_timed_out = False\<rparr>, w1)"
      using False cursor sound unfolding wait_post_def by auto
    ultimately show ?thesis by blast
  next
    case none: True
    show ?thesis
    proof (cases "deadline - time w1 \<le> 0")
      case True
      then have "wait_loop load clock sleep pred interval deadline since w =
          Some (\<lparr>wr_threads = [], wr_cursor = snd change, wr_timed_out = True\<rparr>, w2)"
        using none times(2) by (subst unfold) simp
      moreover have "wait_post time pred deadline since
          (\<lparr>wr_threads = [], wr_cursor = snd change, wr_timed_out = True\<rparr>, w2)"
        using True cursor times(3) by (simp add: wait_post_def)
      ultimately show ?thesis by blast
    next
      case False
      define d where "d = min interval (deadline - time w1)"
      have "0 < d" using False assms(2) by (simp add: d_def)
      then have "time w2 + d \<le> time (sleep d w2)" using assms(1) by (simp add: advancing_def)
      then have "nat (deadline - time (sleep d w2)) < nat (deadline - time w)"
        using \<open>0 < d\<close> times False by linarith
      from less [OF this] obtain rw where
        "wait_loop load clock sleep pred interval deadline since (sleep d w2) = Some rw"
        "wait_post time pred deadline since rw" by blast
      moreover have "wait_loop load clock sleep pred interval deadline since w =
          wait_loop load clock sleep pred interval deadline since (sleep d w2)"
        using none False times(2) by (subst unfold) (simp add: d_def)
      ultimately show ?thesis by simp
    qed
  qed
qed

end
