(* ===== verification/Message_Properties.thy ===== *)
theory Message_Properties
  imports Message_Wait
begin

text \<open>
  The mailbox as a whole: every operation of the store as one transition, what survives any
  sequence of them, and what a waiter is shown.
\<close>

section \<open>Transitions of the mailbox\<close>

inductive mail_step :: "mailbox \<Rightarrow> mailbox \<Rightarrow> bool" where
  create: "create_thread subject text now slug s1 s2 box = Inr (t, box') \<Longrightarrow>
    map_of box (new_id now s1) = None \<Longrightarrow> mail_step box box'"
| link: "link_spec tid spec now box = Inr box' \<Longrightarrow> mail_step box box'"
| append: "append_message tid r text now kind dec suffix box = Inr (msg, box') \<Longrightarrow> mail_step box box'"
| mutate: "mutate_inbox tid action mid now box = Inr (res, box') \<Longrightarrow> mail_step box box'"
| seen: "mark_seen tid moment box = Inr (t, box') \<Longrightarrow> mail_step box box'"
| agent_seen: "mark_agent_seen tid moment box = Inr (t, box') \<Longrightarrow> mail_step box box'"
| resolve: "resolve_through tid mid now box = Inr (t, box') \<Longrightarrow> mail_step box box'"

inductive mail_run :: "mailbox \<Rightarrow> mailbox \<Rightarrow> bool" where
  stop: "mail_run box box"
| more: "mail_run box box' \<Longrightarrow> mail_step box' box'' \<Longrightarrow> mail_run box box''"

lemma create_ok:
  assumes "create_thread subject text now slug s1 s2 box = Inr (t, box')" and "mailbox_ok box"
    and "map_of box (new_id now s1) = None"
  shows "mailbox_ok box' \<and> (\<forall>k u. map_of box k = Some u \<longrightarrow> map_of box' k = Some u)"
proof -
  from assms(1) have t: "th_id t = new_id now s1" "th_inbox t = new_inbox"
    and box': "box' = AList.update (th_id t) t box"
    by (auto simp: create_thread_def Let_def rbind_eq_Inr save_thread_Inr)
  have "mailbox_ok box'" unfolding box' by (rule mailbox_ok_update [OF assms(2)]) (simp_all add: t new_inbox_def)
  with assms(3) show ?thesis by (auto simp: box' t dict_simps)
qed

lemma mail_step_grows:
  assumes "mail_step box box'" and "mailbox_ok box"
  shows "mailbox_ok box' \<and>
    (\<forall>k u. map_of box k = Some u \<longrightarrow> (\<exists>u'. map_of box' k = Some u' \<and> thread_grows u u'))"
proof -
  have one: ?thesis if "touches tid box t t' box'" for tid t t'
    using touches_ok [OF that assms(2)] touches_grows [OF that] by blast
  from assms(1) show ?thesis
  proof cases
    case (create subj words now slug s1 s2 t)
    from create_ok [OF create(1) assms(2) create(2)] show ?thesis by (metis thread_grows_refl)
  next
    case (link tid spec now)
    with link_spec_touches [OF _ assms(2)] one show ?thesis by blast
  next
    case (append tid r words now kind dec suffix msg)
    with append_touches [OF _ assms(2)] one show ?thesis by blast
  next
    case (mutate tid action mid now res)
    obtain t applied where "res = (t, applied)" by (cases res)
    with mutate mutate_touches [OF _ assms(2)] one show ?thesis by blast
  next
    case (seen tid moment t)
    with mark_seen_touches [OF _ assms(2)] one show ?thesis by blast
  next
    case (agent_seen tid moment t)
    with mark_agent_seen_touches [OF _ assms(2)] one show ?thesis by blast
  next
    case (resolve tid mid now t)
    with resolve_touches [OF _ assms(2)] one show ?thesis by blast
  qed
qed

section \<open>Properties\<close>

definition sample_thread :: "str \<Rightarrow> int \<Rightarrow> message list \<Rightarrow> thread" where
  "sample_thread i at ms = \<lparr>th_id = i, th_subject = ''s'', th_created_at = Aware 0 0,
     th_updated_at = Aware at 0, th_task_slug = None, th_spec_id = None, th_seen_at = None,
     th_agent_seen_at = None, th_resolved_through = None, th_resolved_at = None,
     th_inbox = new_inbox, th_messages = ms\<rparr>"

definition sample_message :: "str \<Rightarrow> role \<Rightarrow> message_kind \<Rightarrow> int \<Rightarrow> message" where
  "sample_message i r k at = \<lparr>ms_id = i, ms_thread_id = ''a'', ms_role = r, ms_text = ''x'',
     ms_created_at = Aware at 0, ms_kind = k, ms_decision = None\<rparr>"

definition sample_box :: mailbox where
  "sample_box = [(''a'', sample_thread ''a'' 10 [sample_message ''m1'' Human Note 5,
       sample_message ''m2'' Agent Needs_You 10]),
     (''b'', sample_thread ''b'' 50 [])]"

lemma sample_box_ok: "mailbox_ok sample_box"
  by (auto simp: mailbox_ok_def sample_box_def sample_thread_def new_inbox_def dict_ok_def split: if_splits)

text \<open>C29: Across any sequence of operations on the mailbox every thread stays under its id, its
  conversation is only appended to, and no cursor moves back: the operator's and the agent's read
  cursors, the resolution cursor (by append order) and the two change times.\<close>

theorem conversations_only_grow:
  assumes "mail_run box box'" and "mailbox_ok box" and "map_of box k = Some t"
  shows "mailbox_ok box' \<and> (\<exists>t'. map_of box' k = Some t' \<and> thread_grows t t')"
  using assms
proof (induction rule: mail_run.induct)
  case (more box box' box'')
  then obtain t' where "mailbox_ok box'" "map_of box' k = Some t'" "thread_grows t t'" by blast
  with mail_step_grows [OF more.hyps(2)] show ?case by (metis thread_grows_trans)
qed simp

lemma sample_box_run:
  "\<exists>box'. mail_run sample_box box' \<and> map_of box' ''a'' \<noteq> map_of sample_box ''a''"
proof -
  let ?r = "resolve_through ''a'' ''m2'' (Aware 20 0) sample_box"
  have "(case ?r of Inl e \<Rightarrow> False | Inr (t, b) \<Rightarrow> th_resolved_through t = Some ''m2''
      \<and> b = AList.update ''a'' t sample_box)" by code_simp
  then obtain t where t: "?r = Inr (t, AList.update ''a'' t sample_box)" "th_resolved_through t = Some ''m2''"
    by (auto split: sum.splits)
  then have "mail_run sample_box (AList.update ''a'' t sample_box)"
    by (blast intro: mail_run.intros mail_step.resolve)
  moreover have "t \<noteq> sample_thread ''a'' 10 [sample_message ''m1'' Human Note 5, sample_message ''m2'' Agent Needs_You 10]"
    using t(2) by (auto simp: sample_thread_def)
  ultimately show ?thesis by (intro exI [of _ "AList.update ''a'' t sample_box"]) (simp add: dict_simps sample_box_def)
qed

theorem conversations_only_grow_witness:
  "\<exists>box' t t'. map_of sample_box ''a'' = Some t \<and> map_of box' ''a'' = Some t' \<and> t \<noteq> t' \<and> thread_grows t t'"
proof -
  obtain box' where run: "mail_run sample_box box'" and new: "map_of box' ''a'' \<noteq> map_of sample_box ''a''"
    using sample_box_run by blast
  have "map_of sample_box ''a'' = Some (snd (hd sample_box))" by (simp add: sample_box_def)
  from conversations_only_grow [OF run sample_box_ok this] new this show ?thesis by force
qed



text \<open>The long poll ends: on a clock that sleeping advances it returns by finite waiting, either
  with at least one thread that changed after the cursor it was given and satisfies the predicate,
  or - empty-handed - no earlier than the timeout; the cursor it hands on never moves back and
  covers everything it returns.\<close>

theorem wait_for_change_returns:
  assumes "advancing time load clock sleep" and "0 < interval"
  shows "\<exists>rw. wait_for_change load clock sleep pred interval since timeout w = Some rw \<and>
    wait_post time pred (time w + timeout) since rw"
  using wait_loop_returns [OF assms, of pred "time w + timeout" since "snd (clock w)"] assms(1)
  by (simp add: wait_for_change_def Let_def advancing_def)

theorem wait_for_change_returns_witness:
  "\<exists>rw. wait_for_change (\<lambda>w. (list_threads sample_box, w)) (\<lambda>w. (w, w)) (\<lambda>d w. w + d) None 1000000
       (Aware 50 0) 5000000 (0 :: int) = Some rw \<and>
     wait_post (\<lambda>w. w) None (0 + 5000000) (Aware 50 0) rw"
  by (rule wait_for_change_returns) (simp_all add: advancing_def)

text \<open>C32: An inbox action is idempotent per mutation id - repeated with its id it changes nothing -,
  the retained ids never exceed 256, and an action that took effect moves the change time strictly
  past the previous one, whatever the clock says.\<close>

theorem inbox_action_idempotent:
  assumes "apply_inbox_action m action mid now = Inr (res, m')" and "dict_ok (im_mutation_ids m)"
    and "length (im_mutation_ids m) \<le> 256"
  shows "apply_inbox_action m' action mid later = Inr (duplicate_mutation, m') \<and>
    length (im_mutation_ids m') \<le> 256 \<and> dict_ok (im_mutation_ids m') \<and>
    (mr_applied res \<longrightarrow> (\<exists>t. im_last_mutated_at m' = Some t \<and> instant now \<le> instant t \<and>
       (\<forall>old. im_last_mutated_at m = Some old \<longrightarrow> instant old < instant t)))"
proof -
  have known: "action \<in> set inbox_actions"
    using assms(1) by (simp add: apply_inbox_action_def split: if_splits)
  have ids: "map_of (im_mutation_ids m') mid = Some action \<and> length (im_mutation_ids m') \<le> 256"
  proof (cases "map_of (im_mutation_ids m) mid")
    case None
    then have fresh: "mid \<notin> set (dict_keys (im_mutation_ids m))" by (simp add: map_of_eq_None_iff)
    have "im_mutation_ids m' = drop_oldest (AList.update mid action (im_mutation_ids m))"
      using assms(1) None
      by (auto simp: apply_inbox_action_def Let_def set_inbox_flag_def split: if_splits)
    with drop_oldest_keeps_new [OF fresh assms(2), of action]
      drop_oldest_length [of "AList.update mid action (im_mutation_ids m)"]
    show ?thesis by (simp add: max_mutation_ids_def)
  next
    case (Some previous)
    with assms(1,3) show ?thesis
      by (auto simp: apply_inbox_action_def split: if_splits)
  qed
  with known have "apply_inbox_action m' action mid later = Inr (duplicate_mutation, m')"
    by (simp add: apply_inbox_action_def)
  with ids apply_inbox_grows [OF assms(1,2)] show ?thesis by blast
qed

theorem inbox_action_idempotent_witness:
  "\<exists>res m'. apply_inbox_action (new_inbox\<lparr>im_last_mutated_at := Some (Aware 90 0)\<rparr>) ''archive'' ''x''
       (Aware 40 0) = Inr (res, m') \<and>
     apply_inbox_action m' ''archive'' ''x'' (Aware 100 0) = Inr (duplicate_mutation, m') \<and>
     im_last_mutated_at m' = Some (Aware 91 0)"
proof -
  let ?m = "new_inbox\<lparr>im_last_mutated_at := Some (Aware 90 0)\<rparr>"
  have "(case apply_inbox_action ?m ''archive'' ''x'' (Aware 40 0) of Inl e \<Rightarrow> False
    | Inr (r, m') \<Rightarrow> im_last_mutated_at m' = Some (Aware 91 0))" by code_simp
  then obtain r m' where a: "apply_inbox_action ?m ''archive'' ''x'' (Aware 40 0) = Inr (r, m')"
    and b: "im_last_mutated_at m' = Some (Aware 91 0)" by (auto split: sum.splits)
  from inbox_action_idempotent [OF a, of "Aware 100 0"] a b show ?thesis
    by (auto simp: new_inbox_def)
qed

section \<open>A change stamped behind the cursor\<close>

text \<open>
  Unlike a resolution, an appended message carries the time its writer read before taking the
  lock. If a poll has seen a later change of another thread in between, the waiter's next poll
  does not return the thread: here thread b was changed at 50 and shown, then the human's message
  with time 49 arrives in thread a.
\<close>

theorem append_behind_cursor_missed:
  "let cursor = snd (changed_since False (list_threads sample_box) (Aware 0 0)) in
   cursor = Aware 50 0 \<and>
   (case append_message ''a'' Human ''hello'' (Aware 49 0) Note None ''00'' sample_box of
      Inl e \<Rightarrow> False
    | Inr (msg, box') \<Rightarrow> \<exists>t. map_of box' ''a'' = Some t \<and> awaiting_reply t \<and>
        fst (changed_since False (list_threads box') cursor) = [])"
proof -
  have "(case append_message ''a'' Human ''hello'' (Aware 49 0) Note None ''00'' sample_box of
      Inl e \<Rightarrow> False
    | Inr (msg, box') \<Rightarrow> (case map_of box' ''a'' of None \<Rightarrow> False | Some t \<Rightarrow> awaiting_reply t) \<and>
        fst (changed_since False (list_threads box') (Aware 50 0)) = [])" by code_simp
  moreover have "snd (changed_since False (list_threads sample_box) (Aware 0 0)) = Aware 50 0" by code_simp
  ultimately show ?thesis by (auto simp: Let_def split: sum.splits option.splits)
qed

section \<open>The listener\<close>

lemma inbox_wait_advancing:
  assumes "\<And>d w. 0 < d \<Longrightarrow> iw_clock w + d \<le> iw_clock (sleep d w)"
  shows "advancing iw_clock (load_and_heartbeat pid) read_clock_of sleep"
  using assms by (simp add: advancing_def load_and_heartbeat_def read_clock_of_def)

text \<open>C31: The listener command comes back: when another live listener owns the mailbox it stands
  down at once and changes nothing; otherwise, whatever other processes do while it sleeps, it ends
  with the result of the poll and without the lease.\<close>

theorem listener_comes_back:
  assumes "\<And>d w. 0 < d \<Longrightarrow> iw_clock w + d \<le> iw_clock (sleep d w)"
    and "parse_since since (iw_wall w) = Some since_dt"
    and "\<not> is_naive (iw_wall w)" and "aware_beat (iw_lease w)"
  shows "\<exists>out w'. inbox_wait sleep pid since timeout w = Some (out, w') \<and>
    (case owner lease_ttl (\<lambda>q. q \<in> iw_alive w) (iw_wall w) (iw_lease w) of
       Some q \<Rightarrow> q \<noteq> pid \<and> out = Skipped_Duplicate since_dt q \<and> w' = w
         \<or> q = pid \<and> (\<exists>res. out = Returned res) \<and> map_option li_pid (read_lease (iw_lease w')) \<noteq> Some pid
     | None \<Rightarrow> (\<exists>res. out = Returned res) \<and> map_option li_pid (read_lease (iw_lease w')) \<noteq> Some pid)"
proof -
  let ?own = "owner lease_ttl (\<lambda>q. q \<in> iw_alive w) (iw_wall w) (iw_lease w)"
  note acquire = try_acquire_owner [OF assms(3,4), of lease_ttl "\<lambda>q. q \<in> iw_alive w" pid]
  show ?thesis
  proof (cases "?own = None \<or> ?own = Some pid")
    case True
    let ?w1 = "w\<lparr>iw_lease := write_lease pid (iw_wall w)\<rparr>"
    from wait_loop_returns [OF inbox_wait_advancing [OF assms(1), of pid], of 1000000 "Some wants_agent"
        "iw_clock ?w1 + timeout" since_dt ?w1]
    obtain res w2 where poll: "wait_for_change (load_and_heartbeat pid) read_clock_of sleep (Some wants_agent)
        1000000 since_dt timeout ?w1 = Some (res, w2)"
      by (auto simp: wait_for_change_def Let_def read_clock_of_def)
    have "try_acquire lease_ttl (\<lambda>q. q \<in> iw_alive w) pid (iw_wall w) (iw_lease w) =
        Inr (None, write_lease pid (iw_wall w))"
      using True acquire by auto
    then have run: "inbox_wait sleep pid since timeout w = Some (Returned res,
        w2\<lparr>iw_lease := release pid (iw_lease w2),
           iw_box := stamp_agent_seen (wr_threads res) (iw_wall w2) (iw_box w2)\<rparr>)"
      by (simp add: inbox_wait_def assms(2) poll Let_def)
    have "map_option li_pid (read_lease (release pid (iw_lease w2))) \<noteq> Some pid"
      by (simp add: release_cases)
    with run True show ?thesis by (auto simp: inbox_wait_def)
  next
    case False
    then obtain q where q: "?own = Some q" "q \<noteq> pid" by auto
    then obtain info where info: "read_lease (iw_lease w) = Some info" "li_pid info = q"
      using owner_holder by blast
    from q acquire info(1)
    have "try_acquire lease_ttl (\<lambda>q. q \<in> iw_alive w) pid (iw_wall w) (iw_lease w) =
        Inr (Some info, iw_lease w)" by simp
    then have "inbox_wait sleep pid since timeout w = Some (Skipped_Duplicate since_dt q, w)"
      by (simp add: inbox_wait_def assms(2) info(2))
    with q show ?thesis by simp
  qed
qed

definition sample_inbox :: inbox_world where
  "sample_inbox = \<lparr>iw_lease = write_lease 7 (Aware 63000000000000000 0), iw_box = sample_box,
     iw_wall = Aware 63000000001000000 0, iw_clock = 0, iw_alive = {7, 8}\<rparr>"

theorem listener_comes_back_witness:
  "\<exists>out w'. inbox_wait (\<lambda>d w. w\<lparr>iw_clock := iw_clock w + d\<rparr>) 8 None 5000000 sample_inbox = Some (out, w') \<and>
    out = Skipped_Duplicate (Aware 63000000001000000 0) 7 \<and> w' = sample_inbox"
proof -
  have own: "owner lease_ttl (\<lambda>q. q \<in> iw_alive sample_inbox) (iw_wall sample_inbox) (iw_lease sample_inbox) = Some 7"
    by (simp add: sample_inbox_def owner_def fresh_def lease_ttl_def valid_wall_def)
  have "\<exists>out w'. inbox_wait (\<lambda>d w. w\<lparr>iw_clock := iw_clock w + d\<rparr>) 8 None 5000000 sample_inbox = Some (out, w') \<and>
    (case owner lease_ttl (\<lambda>q. q \<in> iw_alive sample_inbox) (iw_wall sample_inbox) (iw_lease sample_inbox) of
       Some q \<Rightarrow> q \<noteq> 8 \<and> out = Skipped_Duplicate (Aware 63000000001000000 0) q \<and> w' = sample_inbox
         \<or> q = 8 \<and> (\<exists>res. out = Returned res) \<and> map_option li_pid (read_lease (iw_lease w')) \<noteq> Some 8
     | None \<Rightarrow> (\<exists>res. out = Returned res) \<and> map_option li_pid (read_lease (iw_lease w')) \<noteq> Some 8)"
    by (rule listener_comes_back)
      (simp_all add: parse_since_def sample_inbox_def aware_beat_def valid_wall_def)
  then show ?thesis by (simp add: own)
qed

end
