(* ===== verification/Specs.thy ===== *)
theory Specs
  imports Messages
begin

text \<open>
  Specs: the data and the status machine of core/spec.py, the approval gate of
  core/spec_approve.py, verdicts and evidence of core/spec_review.py, the questions of
  core/spec_questions.py and the inbox classification of core/inbox.py. A spec is held typed;
  raw statuses, as old files and callers spell them, are strings.
\<close>

section \<open>Data (core/spec.py)\<close>

datatype spec_status = Draft | Needs_Review | Approved | Dispatched | Implemented | Archived_Spec

datatype verdict = Unreviewed | Approve | Flagged

datatype evidence_kind = Test_Run | Commit | Artifact

record acceptance_evidence =
  ev_kind :: evidence_kind
  ev_ref :: str
  ev_note :: "str option"

record acceptance_criterion =
  ac_id :: str
  ac_text :: str
  ac_verdict :: verdict
  ac_evidence :: "acceptance_evidence list"
  ac_comment :: "str option"

record prose_verdict =
  pv_verdict :: verdict
  pv_comment :: "str option"

record open_question =
  oq_id :: str
  oq_text :: str
  oq_answer :: "str option"

record spec =
  sp_id :: str
  sp_title :: str
  sp_status :: spec_status
  sp_created_at :: dt
  sp_updated_at :: dt
  sp_affected_repos :: "str list"
  sp_criteria :: "acceptance_criterion list"
  sp_questions :: "open_question list"
  sp_non_goals :: "str list"
  sp_risks :: "str list"
  sp_task_slug :: "str option"
  sp_body :: str
  sp_work_item_id :: "str option"
  sp_clarification :: "str option"
  sp_prose :: "prose_verdict dict"
  sp_inbox :: inbox_metadata

definition status_names :: "(str \<times> spec_status) list" where
  "status_names = [(''draft'', Draft), (''needs_review'', Needs_Review), (''approved'', Approved),
     (''dispatched'', Dispatched), (''implemented'', Implemented), (''archived'', Archived_Spec)]"

definition status_of :: "str \<Rightarrow> spec_status option" where
  "status_of s = map_of status_names s"

fun status_name :: "spec_status \<Rightarrow> str" where
  "status_name Draft = ''draft''"
| "status_name Needs_Review = ''needs_review''"
| "status_name Approved = ''approved''"
| "status_name Dispatched = ''dispatched''"
| "status_name Implemented = ''implemented''"
| "status_name Archived_Spec = ''archived''"

definition legacy_status_map :: "str dict" where
  "legacy_status_map = [(''captured'', ''draft''), (''drafting'', ''draft''),
     (''needs_clarification'', ''draft'')]"

definition migrated_reason :: str where
  "migrated_reason = ''needs clarification (migrated from needs_clarification status)''"

text \<open>The before-validator: a raw status and clarification reason as they enter construction.\<close>

definition migrate_legacy_status :: "str \<Rightarrow> str option \<Rightarrow> str \<times> str option" where
  "migrate_legacy_status old reason = (case map_of legacy_status_map old of
     None \<Rightarrow> (old, reason)
   | Some new \<Rightarrow> (new, if old = ''needs_clarification'' \<and> \<not> truthy reason
                      then Some migrated_reason else reason))"

definition dispatch_ready :: "spec \<Rightarrow> bool" where
  "dispatch_ready s \<longleftrightarrow> sp_status s = Approved \<and> list_all (\<lambda>q. oq_answer q \<noteq> None) (sp_questions s)"

definition terminal_statuses :: "str list" where
  "terminal_statuses = [''archived'']"

definition allowed_transitions :: "str list dict" where
  "allowed_transitions = [(''draft'', [''needs_review'']), (''needs_review'', [''draft'', ''approved'']),
     (''approved'', [''dispatched'', ''draft'']), (''dispatched'', [''implemented'']),
     (''implemented'', [''archived'']), (''archived'', [])]"

definition can_transition :: "str \<Rightarrow> str \<Rightarrow> bool" where
  "can_transition current target =
     (if current = target then False
      else if target \<in> set (case map_of allowed_transitions current of None \<Rightarrow> [] | Some ts \<Rightarrow> ts) then True
      else target = ''archived'' \<and> current \<notin> set terminal_statuses)"

section \<open>Errors\<close>

datatype spec_error =
    Unsafe_Spec_Id str
  | Spec_Locked str
  | Spec_Parse_Error
  | Spec_Artifact_Conflict str
  | Spec_Representation_Mismatch str
  | Invalid_Transition str str
  | Approval_Blocked "str list"
  | Spec_Revision_Conflict str dt "dt option"
  | Spec_Value_Error str
  | Spec_Key_Error str
  | Journal_Error str

definition validate_transition :: "str \<Rightarrow> str \<Rightarrow> spec_error + unit" where
  "validate_transition current target =
     (if can_transition current target then Inr () else Inl (Invalid_Transition current target))"

section \<open>The approval gate (core/spec_approve.py)\<close>

definition prose_unit_ids :: "str list" where
  "prose_unit_ids = [''problem'', ''user_story'', ''approach'', ''non_goals'', ''risks'', ''scope_risk'']"

definition approval_blockers :: "spec \<Rightarrow> str list" where
  "approval_blockers s =
     (let bad = List.map ac_id (filter (\<lambda>c. ac_verdict c \<noteq> Approve) (sp_criteria s));
          unanswered = List.map oq_id (filter (\<lambda>q. oq_answer q = None) (sp_questions s));
          bad_prose = List.map fst (filter (\<lambda>kv. fst kv \<in> set prose_unit_ids
            \<and> pv_verdict (snd kv) \<noteq> Approve) (sp_prose s))
      in (if sp_criteria s = [] then [''no acceptance criteria''] else [])
         @ (if bad \<noteq> [] then [''acceptance criteria not approved: '' @ join '', '' bad] else [])
         @ (if unanswered \<noteq> [] then [''open questions unanswered: '' @ join '', '' unanswered] else [])
         @ (if bad_prose \<noteq> [] then [''prose sections not approved: '' @ join '', '' (sort bad_prose)] else []))"

text \<open>What the gate stands for.\<close>

definition approvable :: "spec \<Rightarrow> bool" where
  "approvable s \<longleftrightarrow> sp_criteria s \<noteq> [] \<and> (\<forall>c \<in> set (sp_criteria s). ac_verdict c = Approve) \<and>
     (\<forall>q \<in> set (sp_questions s). oq_answer q \<noteq> None) \<and>
     (\<forall>(k, v) \<in> set (sp_prose s). k \<in> set prose_unit_ids \<longrightarrow> pv_verdict v = Approve)"

lemma approval_blockers_Nil: "approval_blockers s = [] \<longleftrightarrow> approvable s"
  by (auto simp: approval_blockers_def approvable_def Let_def filter_empty_conv)

section \<open>Verdicts and evidence (core/spec_review.py)\<close>

definition verdict_of :: "str \<Rightarrow> verdict option" where
  "verdict_of s = map_of [(''unreviewed'', Unreviewed), (''approved'', Approve), (''flagged'', Flagged)] s"

definition evidence_kind_of :: "str \<Rightarrow> evidence_kind option" where
  "evidence_kind_of s = map_of [(''test'', Test_Run), (''commit'', Commit), (''artifact'', Artifact)] s"

text \<open>\<open>x or None\<close>.\<close>

definition or_none :: "str option \<Rightarrow> str option" where
  "or_none x = (if truthy x then x else None)"

text \<open>The first criterion with the id is changed in place.\<close>

fun update_first :: "('a \<Rightarrow> bool) \<Rightarrow> ('a \<Rightarrow> 'a) \<Rightarrow> 'a list \<Rightarrow> 'a list option" where
  "update_first p f [] = None"
| "update_first p f (x # xs) =
     (if p x then Some (f x # xs) else map_option ((#) x) (update_first p f xs))"

definition no_criterion :: "str \<Rightarrow> spec \<Rightarrow> spec_error" where
  "no_criterion cid s = Spec_Value_Error (''no acceptance criterion '' @ quoted cid @ ''; valid ids: ''
     @ (let ids = join '', '' (List.map ac_id (sp_criteria s)) in if ids = [] then ''(none)'' else ids))"

definition set_criterion_verdict :: "spec \<Rightarrow> str \<Rightarrow> str \<Rightarrow> str option \<Rightarrow> spec_error + spec" where
  "set_criterion_verdict s cid raw comment = (case verdict_of raw of
     None \<Rightarrow> Inl (Spec_Value_Error (''invalid verdict '' @ quoted raw
        @ ''; expected one of unreviewed, approved, flagged''))
   | Some v \<Rightarrow>
       if cid \<in> set prose_unit_ids
       then Inl (Spec_Value_Error (quoted cid @ '' is a prose section '' @ em_dash @ '' use set_prose_verdict''))
       else (case update_first (\<lambda>c. ac_id c = cid) (\<lambda>c. c\<lparr>ac_verdict := v,
                ac_comment := (if comment \<noteq> None then or_none comment else ac_comment c)\<rparr>) (sp_criteria s) of
           None \<Rightarrow> Inl (no_criterion cid s)
         | Some cs \<Rightarrow> Inr (s\<lparr>sp_criteria := cs\<rparr>)))"

definition set_prose_verdict :: "spec \<Rightarrow> str \<Rightarrow> str \<Rightarrow> str option \<Rightarrow> spec_error + spec" where
  "set_prose_verdict s sid raw comment = (case verdict_of raw of
     None \<Rightarrow> Inl (Spec_Value_Error (''invalid verdict '' @ quoted raw
        @ ''; expected one of unreviewed, approved, flagged''))
   | Some v \<Rightarrow>
       if sid \<notin> set prose_unit_ids
       then Inl (Spec_Value_Error (quoted sid @ '' is not a prose section; valid: ''
         @ join '', '' (sort prose_unit_ids)))
       else Inr (s\<lparr>sp_prose := AList.update sid \<lparr>pv_verdict = v, pv_comment = or_none comment\<rparr> (sp_prose s)\<rparr>))"

definition hex_char :: "char \<Rightarrow> bool" where
  "hex_char c \<longleftrightarrow> c \<in> set ''0123456789abcdefABCDEF''"

text \<open>\<open>$\<close> also matches before a final newline.\<close>

definition sha_like :: "str \<Rightarrow> bool" where
  "sha_like s \<longleftrightarrow> (let t = (if s \<noteq> [] \<and> last s = CHR 0x0A then butlast s else s)
     in 7 \<le> length t \<and> length t \<le> 40 \<and> list_all hex_char t)"

definition infer_evidence_kind :: "str \<Rightarrow> str" where
  "infer_evidence_kind ref = (if startswith ref ''test-runs/'' then ''test''
     else if sha_like ref then ''commit'' else ''artifact'')"

definition set_criterion_evidence :: "spec \<Rightarrow> str \<Rightarrow> str \<Rightarrow> str \<Rightarrow> str option \<Rightarrow> spec_error + spec" where
  "set_criterion_evidence s cid raw ref note = (case evidence_kind_of raw of
     None \<Rightarrow> Inl (Spec_Value_Error (''invalid evidence kind '' @ quoted raw
        @ ''; expected one of test, commit, artifact''))
   | Some k \<Rightarrow>
       if cid \<in> set prose_unit_ids
       then Inl (Spec_Value_Error (quoted cid @ '' is not an acceptance criterion; only acceptance ''
         @ ''criteria (ac1, ac2, '' @ [CHR 0xE2, CHR 0x80, CHR 0xA6] @ '') carry evidence in this version.''))
       else (case update_first (\<lambda>c. ac_id c = cid) (\<lambda>c. c\<lparr>ac_evidence :=
                ac_evidence c @ [\<lparr>ev_kind = k, ev_ref = ref, ev_note = note\<rparr>]\<rparr>) (sp_criteria s) of
           None \<Rightarrow> Inl (no_criterion cid s)
         | Some cs \<Rightarrow> Inr (s\<lparr>sp_criteria := cs\<rparr>)))"

section \<open>Questions (core/spec_questions.py)\<close>

text \<open>\<open>str(n)\<close> of a natural number.\<close>

fun show_nat :: "nat \<Rightarrow> str" where
  "show_nat n = (if n < 10 then [digit_char (int n)] else show_nat (n div 10) @ [digit_char (int (n mod 10))])"

declare show_nat.simps [simp del]

definition question_number :: "str \<Rightarrow> nat option" where
  "question_number i = (case i of [] \<Rightarrow> None
     | c # ds \<Rightarrow> if c = CHR ''q'' \<and> all_digits ds then Some (nat (digits_value ds)) else None)"

definition next_question_id :: "spec \<Rightarrow> str" where
  "next_question_id s =
     (let nums = List.map_filter (\<lambda>q. question_number (oq_id q)) (sp_questions s)
      in CHR ''q'' # show_nat (if nums = [] then 1 else Max (set nums) + 1))"

definition add_question :: "spec \<Rightarrow> str \<Rightarrow> open_question \<times> spec" where
  "add_question s text =
     (let q = \<lparr>oq_id = next_question_id s, oq_text = text, oq_answer = None\<rparr>
      in (q, s\<lparr>sp_questions := sp_questions s @ [q]\<rparr>))"

definition answer_question :: "spec \<Rightarrow> str \<Rightarrow> str \<Rightarrow> spec_error + spec" where
  "answer_question s qid answer =
     (case update_first (\<lambda>q. oq_id q = qid) (\<lambda>q. q\<lparr>oq_answer := Some answer\<rparr>) (sp_questions s) of
        None \<Rightarrow> Inl (Spec_Value_Error (''no open question '' @ quoted qid @ ''; valid ids: ''
          @ (let ids = join '', '' (List.map oq_id (sp_questions s)) in if ids = [] then ''(none)'' else ids)))
      | Some qs \<Rightarrow> Inr (s\<lparr>sp_questions := qs\<rparr>))"

section \<open>Classification (core/inbox.py)\<close>

definition classify_spec :: "spec \<Rightarrow> dt \<Rightarrow> inbox_class" where
  "classify_spec s now =
     (let m = sp_inbox s in
      if im_pinned m then Active
      else if im_manual_archived m then Archived ''manual''
      else if restore_is_effective m now then Active
      else if sp_status s = Archived_Spec then Archived ''lifecycle_archived''
      else if sp_status s = Implemented \<and> instant (utc now) - instant (utc (sp_updated_at s)) \<ge> seven_days
      then Archived ''implemented''
      else Active)"

section \<open>Laws\<close>

lemma status_of_name [simp]: "status_of (status_name s) = Some s"
  by (cases s) (simp_all add: status_of_def status_names_def)

lemma status_name_inject [simp]: "status_name a = status_name b \<longleftrightarrow> a = b"
  by (metis status_of_name option.inject)

lemma update_first_ids:
  "update_first p f xs = Some ys \<Longrightarrow> (\<And>x. g (f x) = g x) \<Longrightarrow> List.map g ys = List.map g xs"
  by (induction xs arbitrary: ys) (auto split: if_splits)

lemma show_nat_digits: "all_digits (show_nat n) \<and> digits_value (show_nat n) = int n"
proof (induction n rule: show_nat.induct)
  case (1 n)
  show ?case
  proof (cases "n < 10")
    case True
    then show ?thesis
      by (subst (1 2) show_nat.simps) (simp add: all_digits_def digits_value_def digit_digit_char)
  next
    case False
    have "int n = int (n div 10) * 10 + int (n mod 10)"
      using div_mult_mod_eq [of n 10] by (metis of_nat_add of_nat_mult of_nat_numeral)
    with 1 False show ?thesis
      by (subst (1 2) show_nat.simps)
        (simp add: all_digits_def digits_value_def digit_digit_char)
  qed
qed

lemma next_question_id_fresh: "next_question_id s \<notin> set (List.map oq_id (sp_questions s))"
proof
  assume "next_question_id s \<in> set (List.map oq_id (sp_questions s))"
  then obtain q where q: "q \<in> set (sp_questions s)" and eq: "oq_id q = next_question_id s" by auto
  let ?nums = "List.map_filter (\<lambda>q. question_number (oq_id q)) (sp_questions s)"
  define n where "n = (if ?nums = [] then 1 else Max (set ?nums) + 1)"
  have id: "next_question_id s = CHR ''q'' # show_nat n"
    by (simp add: next_question_id_def Let_def n_def)
  have num: "question_number (oq_id q) = Some n"
    by (simp add: eq id question_number_def show_nat_digits)
  with q have "n \<in> set ?nums" by (force simp: List.map_filter_def)
  then have "n \<le> Max (set ?nums)" "?nums \<noteq> []" by auto
  then show False by (simp add: n_def)
qed

end
