(* ===== verification/Test_Evidence.thy ===== *)
theory Test_Evidence
  imports Task_State Specs
begin

text \<open>
  Did we test this? The reader of test evidence and the finish gate (core/test_evidence.py), and
  the warning about acceptance criteria without evidence (core/phase.py). Journal entries carry
  the fields the reader uses; all times are aware. The commit time of a branch comes from git and
  is an argument.
\<close>

datatype journal_state = Journal_Pass | Journal_Fail | Journal_Mixed

record journal_entry =
  je_timestamp :: dt
  je_message :: str
  je_repo :: "str option"
  je_test_state :: "journal_state option"

datatype evidence_status = Passed | Failed | Missing | Stale | Skipped

datatype evidence_source = From_Results | From_Journal | From_None

record repo_evidence =
  re_status :: evidence_status
  re_source :: evidence_source
  re_at :: "dt option"

definition state_status :: "journal_state \<Rightarrow> evidence_status" where
  "state_status st = (case st of Journal_Pass \<Rightarrow> Passed | Journal_Fail \<Rightarrow> Failed | Journal_Mixed \<Rightarrow> Failed)"

type_synonym journal_latest = "(dt \<times> journal_state) option \<times> (dt \<times> journal_state) dict"

definition scan_entry :: "journal_latest \<Rightarrow> journal_entry \<Rightarrow> journal_latest" where
  "scan_entry acc e = (case je_test_state e of None \<Rightarrow> acc
     | Some st \<Rightarrow>
        (case je_repo e of
           None \<Rightarrow> (case fst acc of
               None \<Rightarrow> (Some (je_timestamp e, st), snd acc)
             | Some old \<Rightarrow> if instant (fst old) \<le> instant (je_timestamp e)
                 then (Some (je_timestamp e, st), snd acc) else acc)
         | Some r \<Rightarrow> (case map_of (snd acc) r of
               None \<Rightarrow> (fst acc, AList.update r (je_timestamp e, st) (snd acc))
             | Some old \<Rightarrow> if instant (fst old) \<le> instant (je_timestamp e)
                 then (fst acc, AList.update r (je_timestamp e, st) (snd acc)) else acc)))"

definition scan_journal :: "journal_entry list \<Rightarrow> journal_latest" where
  "scan_journal es = foldl scan_entry (None, []) es"

definition result_status :: "test_status \<Rightarrow> evidence_status" where
  "result_status st = (case st of Pass \<Rightarrow> Passed | Fail \<Rightarrow> Failed | Skip \<Rightarrow> Skipped)"

definition evidence_candidates :: "str \<Rightarrow> task \<Rightarrow> journal_latest \<Rightarrow> (evidence_status \<times> evidence_source \<times> dt) list" where
  "evidence_candidates repo t latest =
     (case map_of (tk_test_results t) repo of None \<Rightarrow> []
      | Some r \<Rightarrow> [(result_status (tr_status r), From_Results, tr_at r)])
     @ (case map_of (snd latest) repo of
          Some (at, st) \<Rightarrow> [(state_status st, From_Journal, at)]
        | None \<Rightarrow> (case fst latest of None \<Rightarrow> [] | Some (at, st) \<Rightarrow> [(state_status st, From_Journal, at)]))"

text \<open>\<open>max(candidates, key=at)\<close>: the first of the greatest.\<close>

definition resolve_repo :: "str \<Rightarrow> task \<Rightarrow> journal_latest \<Rightarrow> repo_evidence" where
  "resolve_repo repo t latest = (case evidence_candidates repo t latest of
     [] \<Rightarrow> \<lparr>re_status = Missing, re_source = From_None, re_at = None\<rparr>
   | c # cs \<Rightarrow>
       (let best = foldl (\<lambda>b x. if instant (snd (snd b)) < instant (snd (snd x)) then x else b) c cs
        in \<lparr>re_status = fst best, re_source = fst (snd best), re_at = Some (snd (snd best))\<rparr>))"

definition demote_stale :: "(str \<Rightarrow> dt option) option \<Rightarrow> str \<Rightarrow> repo_evidence \<Rightarrow> repo_evidence" where
  "demote_stale head_time repo ev =
     (case (head_time, re_at ev) of
        (Some head, Some at) \<Rightarrow>
          if re_status ev = Passed then
            (case head repo of None \<Rightarrow> ev
             | Some ts \<Rightarrow> if instant at < instant ts then ev\<lparr>re_status := Stale\<rparr> else ev)
          else ev
      | _ \<Rightarrow> ev)"

definition read_evidence :: "(str \<Rightarrow> dt option) option \<Rightarrow> task \<Rightarrow> journal_entry list \<Rightarrow> repo_evidence dict" where
  "read_evidence head_time t entries =
     (let latest = scan_journal entries
      in foldl (\<lambda>acc repo. AList.update repo (demote_stale head_time repo (resolve_repo repo t latest)) acc)
           [] (tk_affected_repos t))"

datatype gate_action = Gate_Pass | Gate_Block | Gate_Waive | Gate_Warn_No_Target

record finish_decision =
  fd_action :: gate_action
  fd_missing :: "str list"
  fd_exempt :: "str list"

definition decide_finish_gate :: "repo_evidence dict \<Rightarrow> str list \<Rightarrow> bool \<Rightarrow> finish_decision" where
  "decide_finish_gate evidence exempt opt_out =
     (let exempt_sorted = sort (remdups exempt);
          expectable = filter (\<lambda>r. r \<notin> set exempt) (dict_keys evidence);
          missing = sort (filter (\<lambda>r. re_status (the (map_of evidence r)) \<noteq> Passed) expectable)
      in if expectable = [] then \<lparr>fd_action = Gate_Warn_No_Target, fd_missing = missing, fd_exempt = exempt_sorted\<rparr>
         else if missing = [] then \<lparr>fd_action = Gate_Pass, fd_missing = missing, fd_exempt = exempt_sorted\<rparr>
         else \<lparr>fd_action = (if opt_out then Gate_Waive else Gate_Block), fd_missing = missing,
           fd_exempt = exempt_sorted\<rparr>)"

definition repos_with :: "evidence_status \<Rightarrow> repo_evidence dict \<Rightarrow> str list" where
  "repos_with st evidence = List.map fst (filter (\<lambda>kv. re_status (snd kv) = st) evidence)"

definition format_missing_summary :: "repo_evidence dict \<Rightarrow> str list" where
  "format_missing_summary evidence =
     (let missing = repos_with Missing evidence; stale = repos_with Stale evidence;
          failing = repos_with Failed evidence
      in (if missing \<noteq> [] then [''Tests not run in: '' @ join '', '' (sort missing)] else [])
         @ (if stale \<noteq> [] then [''Tests passed on an earlier commit of this branch (re-run `mship test` to ''
             @ ''refresh, or finish as-is if the new commits are trivial) in: '' @ join '', '' (sort stale)] else [])
         @ (if failing \<noteq> [] then [''Tests failing in: '' @ join '', '' (sort failing)] else []))"

definition unevidenced_warning :: "spec \<Rightarrow> str list \<Rightarrow> str" where
  "unevidenced_warning s capture_repos =
     (let missing = List.map ac_id (filter (\<lambda>c. ac_evidence c = []) (sp_criteria s))
      in if missing = [] then []
         else ''Acceptance criteria without evidence: '' @ join '', '' missing @ '' ''
           @ em_dash @ '' attach with `mship spec evidence '' @ sp_id s @ '' <ac> <ref>`''
           @ (if capture_repos \<noteq> []
              then '', or `mship capture --evidence '' @ sp_id s @ '':<ac>` ''
                @ ''(capture targets: '' @ join '', '' capture_repos @ '')''
              else []))"

section \<open>Laws\<close>

lemma read_evidence_keys: "dict_ok (read_evidence head_time t es)"
  "set (dict_keys (read_evidence head_time t es)) = set (tk_affected_repos t)"
proof -
  let ?f = "\<lambda>acc repo. AList.update repo (demote_stale head_time repo (resolve_repo repo t (scan_journal es))) acc"
  have "dict_ok (foldl ?f acc rs) \<and> set (dict_keys (foldl ?f acc rs)) = set (dict_keys acc) \<union> set rs"
    if "dict_ok acc" for acc rs
    using that
    by (induction rs arbitrary: acc) (simp_all add: dict_keys_update del: set_map)
  from this [of "[]" "tk_affected_repos t"]
  show "dict_ok (read_evidence head_time t es)"
    "set (dict_keys (read_evidence head_time t es)) = set (tk_affected_repos t)"
    by (simp_all add: read_evidence_def Let_def)
qed

lemma read_evidence_of:
  assumes "r \<in> set (tk_affected_repos t)"
  shows "map_of (read_evidence head_time t es) r =
    Some (demote_stale head_time r (resolve_repo r t (scan_journal es)))"
proof -
  let ?g = "\<lambda>repo. demote_stale head_time repo (resolve_repo repo t (scan_journal es))"
  have "map_of (foldl (\<lambda>acc repo. AList.update repo (?g repo) acc) acc rs) r =
      (if r \<in> set rs then Some (?g r) else map_of acc r)" for acc rs
    by (induction rs arbitrary: acc) (simp_all add: dict_simps)
  with assms show ?thesis by (simp add: read_evidence_def Let_def)
qed

end
