(* ===== verification/Spec_Body.thy ===== *)
theory Spec_Body
  imports Specs
begin

text \<open>
  The markdown body of a spec (core/spec_body.py): rendering sections and parsing them back.
  Line breaks and white space are those of ASCII.
\<close>

section \<open>Lines\<close>

text \<open>\<open>s.splitlines()\<close>: a break ends a line, CR LF is one break, no empty line at the end.\<close>

definition line_break :: "char \<Rightarrow> bool" where
  "line_break c \<longleftrightarrow> c \<in> {CHR 0x0A, CHR 0x0B, CHR 0x0C, CHR 0x0D, CHR 0x1C, CHR 0x1D, CHR 0x1E}"

fun splitlines_from :: "str \<Rightarrow> str \<Rightarrow> str list" where
  "splitlines_from acc [] = (if acc = [] then [] else [rev acc])"
| "splitlines_from acc (c # cs) =
     (if c = CHR 0x0D then
        (case cs of [] \<Rightarrow> [rev acc]
         | d # ds \<Rightarrow> if d = CHR 0x0A then rev acc # splitlines_from [] ds
                   else rev acc # splitlines_from [] cs)
      else if line_break c then rev acc # splitlines_from [] cs
      else splitlines_from (c # acc) cs)"

definition splitlines :: "str \<Rightarrow> str list" where
  "splitlines s = splitlines_from [] s"

definition newline :: str where
  "newline = [CHR 0x0A]"

section \<open>Sections (core/spec_body.py)\<close>

definition required_sections :: "str list" where
  "required_sections = [''Problem'', ''User story'', ''Approach'']"

definition render_body :: "str \<Rightarrow> str \<Rightarrow> str \<Rightarrow> (str \<times> str) list \<Rightarrow> str" where
  "render_body problem user_story approach additional =
     (let body = ''## Problem'' @ newline @ newline @ strip problem @ newline @ newline
            @ ''## User story'' @ newline @ newline @ strip user_story @ newline @ newline
            @ ''## Approach'' @ newline @ newline @ strip approach @ newline
      in foldl (\<lambda>b (heading, txt). b @ newline @ ''## '' @ strip heading @ newline @ newline
            @ strip txt @ newline) body additional)"

record section_parse =
  pa_sections :: "str dict"
  pa_current :: "str option"
  pa_buf :: "str list"

definition close_section :: "section_parse \<Rightarrow> str dict" where
  "close_section p = (case pa_current p of None \<Rightarrow> pa_sections p
     | Some h \<Rightarrow> AList.update h (strip (join newline (pa_buf p))) (pa_sections p))"

definition parse_line :: "section_parse \<Rightarrow> str \<Rightarrow> section_parse" where
  "parse_line p line =
     (if startswith line ''## ''
      then \<lparr>pa_sections = close_section p, pa_current = Some (strip (drop 3 line)), pa_buf = []\<rparr>
      else if pa_current p \<noteq> None then p\<lparr>pa_buf := pa_buf p @ [line]\<rparr> else p)"

definition parse_body_sections :: "str \<Rightarrow> str dict" where
  "parse_body_sections body = close_section (foldl parse_line
     \<lparr>pa_sections = [], pa_current = None, pa_buf = []\<rparr> (splitlines body))"

definition validate_body_structure :: "str \<Rightarrow> str list" where
  "validate_body_structure body =
     (let present = parse_body_sections body
      in filter (\<lambda>s. s \<notin> set (dict_keys present)) required_sections)"

section \<open>The review payload (core/spec_review.py)\<close>

record review_summary =
  rs_total :: nat
  rs_approved :: nat
  rs_flagged :: nat
  rs_unreviewed :: nat
  rs_unverified :: nat
  rs_unanswered :: nat

record review =
  rv_id :: str
  rv_status :: spec_status
  rv_updated_at :: str
  rv_clarification :: "str option"
  rv_criteria :: "acceptance_criterion list"
  rv_prose :: "prose_verdict dict"
  rv_questions :: "open_question list"
  rv_problem :: str
  rv_user_story :: str
  rv_approach :: str
  rv_non_goals :: "str list"
  rv_risks :: "str list"
  rv_affected_repos :: "str list"
  rv_summary :: review_summary

definition section_of :: "str dict \<Rightarrow> str \<Rightarrow> str" where
  "section_of sections h = (case map_of sections h of None \<Rightarrow> [] | Some b \<Rightarrow> b)"

definition verdict_count :: "verdict \<Rightarrow> spec \<Rightarrow> nat" where
  "verdict_count v s = length (filter (\<lambda>c. ac_verdict c = v) (sp_criteria s))"

definition build_review :: "spec \<Rightarrow> review" where
  "build_review s =
     (let sections = parse_body_sections (sp_body s)
      in \<lparr>rv_id = sp_id s, rv_status = sp_status s, rv_updated_at = isoformat (sp_updated_at s),
          rv_clarification = sp_clarification s, rv_criteria = sp_criteria s, rv_prose = sp_prose s,
          rv_questions = sp_questions s, rv_problem = section_of sections ''Problem'',
          rv_user_story = section_of sections ''User story'', rv_approach = section_of sections ''Approach'',
          rv_non_goals = sp_non_goals s, rv_risks = sp_risks s, rv_affected_repos = sp_affected_repos s,
          rv_summary = \<lparr>rs_total = length (sp_criteria s), rs_approved = verdict_count Approve s,
            rs_flagged = verdict_count Flagged s, rs_unreviewed = verdict_count Unreviewed s,
            rs_unverified = length (filter (\<lambda>c. ac_evidence c = []) (sp_criteria s)),
            rs_unanswered = length (filter (\<lambda>q. oq_answer q = None) (sp_questions s))\<rparr>\<rparr>)"

section \<open>Laws of stripping and splitting\<close>

lemma py_space_newline: "py_space (CHR 0x0A)"
  by code_simp

lemma dropWhile_idem: "dropWhile P (dropWhile P xs) = dropWhile P xs"
  by (induction xs) auto

text \<open>A text is stripped when neither end is white space.\<close>

definition stripped :: "str \<Rightarrow> bool" where
  "stripped s \<longleftrightarrow> s = [] \<or> \<not> py_space (hd s) \<and> \<not> py_space (last s)"

lemma dropWhile_stripped: "s = [] \<or> \<not> P (hd s) \<Longrightarrow> dropWhile P s = s"
  by (cases s) auto

lemma strip_id: "stripped s \<Longrightarrow> strip s = s"
  by (auto simp: strip_def stripped_def dropWhile_stripped hd_rev)

lemma last_dropWhile: "dropWhile P xs \<noteq> [] \<Longrightarrow> last (dropWhile P xs) = last xs"
  by (induction xs) auto

lemma stripped_strip: "stripped (strip s)"
proof -
  let ?t = "dropWhile py_space (rev (dropWhile py_space s))"
  have hd_end: "?t \<noteq> [] \<Longrightarrow> \<not> py_space (hd ?t)" by (rule hd_dropWhile)
  have "?t \<noteq> [] \<Longrightarrow> last ?t = hd (dropWhile py_space s)"
    using last_dropWhile [of py_space "rev (dropWhile py_space s)"]
    by (cases "dropWhile py_space s") simp_all
  moreover have "?t \<noteq> [] \<Longrightarrow> dropWhile py_space s \<noteq> []"
    by (metis dropWhile.simps(1) rev.simps(1))
  ultimately have "?t \<noteq> [] \<Longrightarrow> \<not> py_space (last ?t)"
    using hd_dropWhile [of py_space s] by simp
  note last_end = this
  show ?thesis
  proof (cases "?t = []")
    case True
    then show ?thesis unfolding strip_def stripped_def by (simp only: rev.simps simp_thms)
  next
    case False
    with hd_end last_end show ?thesis
      unfolding strip_def stripped_def by (simp only: hd_rev last_rev simp_thms)
  qed
qed

lemma strip_idem [simp]: "strip (strip s) = strip s"
  by (rule strip_id [OF stripped_strip])

lemma strip_spaces:
  assumes "list_all py_space xs" and "list_all py_space ys" and "stripped t"
  shows "strip (xs @ t @ ys) = t"
proof (cases "t = []")
  case True
  have "\<forall>x \<in> set (xs @ ys). py_space x" using assms(1,2) by (auto simp: list_all_iff)
  then have "dropWhile py_space (xs @ ys) = []" by (simp only: dropWhile_eq_Nil_conv)
  then have "strip (xs @ ys) = []" by (simp only: strip_def dropWhile.simps rev.simps)
  with True show ?thesis by simp
next
  case False
  then have "\<not> py_space (hd t)" "\<not> py_space (last t)" using assms(3) by (auto simp: stripped_def)
  moreover have "dropWhile py_space (xs @ t @ ys) = dropWhile py_space (t @ ys)"
    using assms(1) by (intro dropWhile_append2) (simp add: list_all_iff)
  moreover have "dropWhile py_space (t @ ys) = t @ ys" using False calculation(1) by (cases t) simp_all
  moreover have "dropWhile py_space (rev ys @ rev t) = dropWhile py_space (rev t)"
    using assms(2) by (intro dropWhile_append2) (simp add: list_all_iff)
  moreover have "dropWhile py_space (rev t) = rev t"
    using False calculation(2) by (intro dropWhile_stripped) (simp add: hd_rev)
  ultimately show ?thesis by (simp add: strip_def)
qed

lemma splitlines_from_line:
  "list_all (\<lambda>c. \<not> line_break c) x \<Longrightarrow>
   splitlines_from acc (x @ newline @ rest) = (rev acc @ x) # splitlines_from [] rest"
proof (induction x arbitrary: acc)
  case (Cons c x)
  then have "c \<noteq> CHR 0x0D" "\<not> line_break c" by (auto simp: line_break_def)
  with Cons show ?case by simp
qed (simp add: newline_def line_break_def)

definition unlines :: "str list \<Rightarrow> str" where
  "unlines ls = concat (List.map (\<lambda>l. l @ newline) ls)"

definition one_line :: "str \<Rightarrow> bool" where
  "one_line l \<longleftrightarrow> list_all (\<lambda>c. \<not> line_break c) l"

lemma splitlines_unlines: "list_all one_line ls \<Longrightarrow> splitlines (unlines ls) = ls"
  by (induction ls) (simp_all add: splitlines_def unlines_def one_line_def splitlines_from_line)

text \<open>A text whose only breaks are newlines is its lines joined.\<close>

definition plain_text :: "str \<Rightarrow> bool" where
  "plain_text t \<longleftrightarrow> list_all (\<lambda>c. line_break c \<longrightarrow> c = CHR 0x0A) t"

definition text_lines :: "str \<Rightarrow> str list" where
  "text_lines t = split_char (CHR 0x0A) t"

lemma split_acc_not_Nil: "split_acc c acc s \<noteq> []"
  by (induction c acc s rule: split_acc.induct) auto

lemma join_split_acc: "join [c] (split_acc c acc s) = rev acc @ s"
proof (induction c acc s rule: split_acc.induct)
  case (2 c acc x xs)
  show ?case
  proof (cases "x = c")
    case True
    obtain y ys where "split_acc c [] xs = y # ys" using split_acc_not_Nil by (meson neq_Nil_conv)
    with 2 True show ?thesis by simp
  qed (use 2 in simp)
qed simp

lemma join_text_lines: "join newline (text_lines t) = t"
  by (simp add: text_lines_def newline_def split_char_def join_split_acc)

lemma unlines_text_lines: "unlines (text_lines t) = t @ newline"
proof -
  have "unlines ls = join newline ls @ newline" if "ls \<noteq> []" for ls
    using that by (induction ls rule: induct_list012) (simp_all add: unlines_def)
  from this [of "text_lines t"] show ?thesis
    by (simp only: join_text_lines) (simp add: text_lines_def split_char_def split_acc_not_Nil)
qed

lemma split_acc_one_line:
  "plain_text s \<Longrightarrow> list_all (\<lambda>c. \<not> line_break c) acc \<Longrightarrow> list_all one_line (split_acc (CHR 0x0A) acc s)"
  by (induction "CHR 0x0A" acc s rule: split_acc.induct) (auto simp: plain_text_def one_line_def)

lemma text_lines_one_line: "plain_text t \<Longrightarrow> list_all one_line (text_lines t)"
  by (simp add: text_lines_def split_char_def split_acc_one_line)

section \<open>The round trip\<close>

lemma strip_newline_end [simp]: "strip (x @ newline) = strip x"
proof -
  show ?thesis
  proof (cases "list_all py_space x")
    case True
    then have "\<forall>c \<in> set x. py_space c" "\<forall>c \<in> set (x @ newline). py_space c"
      using py_space_newline by (auto simp: list_all_iff newline_def)
    then show ?thesis unfolding strip_def dropWhile_eq_Nil_conv [symmetric] by (simp only: rev.simps)
  next
    case False
    then have "dropWhile py_space (x @ newline) = dropWhile py_space x @ newline"
      by (auto simp: list_all_iff intro: dropWhile_append1)
    then show ?thesis by (simp add: strip_def newline_def py_space_newline)
  qed
qed

lemma strip_newline_start [simp]: "strip (newline @ x) = strip x"
  by (simp add: strip_def newline_def py_space_newline)

lemma join_end: "ls \<noteq> [] \<Longrightarrow> join newline (ls @ [[]]) = join newline ls @ newline"
  by (induction ls rule: induct_list012) simp_all

lemma join_start: "ls \<noteq> [] \<Longrightarrow> join newline ([] # ls) = newline @ join newline ls"
  by (cases ls) simp_all

definition section_lines :: "str \<Rightarrow> str \<Rightarrow> str list" where
  "section_lines h t = (''## '' @ h) # [] # text_lines t"

definition good_section :: "str \<times> str \<Rightarrow> bool" where
  "good_section ht \<longleftrightarrow> one_line (strip (fst ht)) \<and> plain_text (strip (snd ht)) \<and>
     list_all (\<lambda>l. \<not> startswith l ''## '') (text_lines (strip (snd ht)))"

lemma parse_text_lines:
  "list_all (\<lambda>l. \<not> startswith l ''## '') ls \<Longrightarrow> pa_current p \<noteq> None \<Longrightarrow>
   foldl parse_line p ls = p\<lparr>pa_buf := pa_buf p @ ls\<rparr>"
  by (induction ls arbitrary: p) (simp_all add: parse_line_def)

lemma parse_section:
  assumes "good_section (h, t)"
  shows "foldl parse_line p (section_lines (strip h) (strip t)) =
    \<lparr>pa_sections = close_section p, pa_current = Some (strip h), pa_buf = [] # text_lines (strip t)\<rparr>"
proof -
  have "parse_line p (''## '' @ strip h) =
      \<lparr>pa_sections = close_section p, pa_current = Some (strip h), pa_buf = []\<rparr>"
    by (simp add: parse_line_def startswith_def)
  moreover have "\<not> startswith [] ''## ''" by (simp add: startswith_def)
  ultimately show ?thesis
    using assms
    by (simp add: section_lines_def good_section_def parse_line_def [of _ "[]"] parse_text_lines)
qed

lemma text_lines_not_Nil [simp]: "text_lines t \<noteq> []"
  by (simp add: text_lines_def split_char_def split_acc_not_Nil)

lemma close_parsed:
  "close_section \<lparr>pa_sections = d, pa_current = Some h, pa_buf = [] # text_lines (strip t)\<rparr> =
   AList.update h (strip t) d"
  by (simp add: close_section_def join_start join_text_lines)

lemma close_blank:
  assumes "pa_current p \<noteq> None" and "pa_buf p \<noteq> []"
  shows "close_section (parse_line p []) = close_section p"
  using assms by (auto simp: parse_line_def startswith_def close_section_def join_end)

definition section_dict :: "(str \<times> str) list \<Rightarrow> str dict" where
  "section_dict secs = dict_of (List.map (\<lambda>ht. (strip (fst ht), strip (snd ht))) secs)"

lemma parse_more_sections:
  assumes "list_all good_section secs" and "pa_current p \<noteq> None" and "pa_buf p \<noteq> []"
  shows "close_section (foldl parse_line p
      (concat (List.map (\<lambda>ht. [] # section_lines (strip (fst ht)) (strip (snd ht))) secs))) =
    dict_update (close_section p) (List.map (\<lambda>ht. (strip (fst ht), strip (snd ht))) secs)"
  using assms
proof (induction secs arbitrary: p)
  case (Cons ht secs)
  obtain h t where ht: "ht = (h, t)" by (cases ht)
  with Cons.prems have good: "good_section (h, t)" by simp
  let ?q = "\<lparr>pa_sections = close_section p, pa_current = Some (strip h), pa_buf = [] # text_lines (strip t)\<rparr>"
  have "foldl parse_line p ([] # section_lines (strip h) (strip t)) = ?q"
    using parse_section [OF good, of "parse_line p []"] close_blank [OF Cons.prems(2,3)] by simp
  then show ?case
    using Cons.IH [of ?q] Cons.prems(1) close_parsed by (simp add: ht dict_update_def)
qed (simp add: dict_update_def)

lemma unlines_append: "unlines (xs @ ys) = unlines xs @ unlines ys"
  by (simp add: unlines_def)

lemma unlines_section: "unlines (section_lines h t) = ''## '' @ h @ newline @ newline @ t @ newline"
proof -
  have "unlines (section_lines h t) = (''## '' @ h @ newline) @ newline @ unlines (text_lines t)"
    by (simp add: section_lines_def unlines_def)
  then show ?thesis by (simp add: unlines_text_lines)
qed

definition all_sections :: "str \<Rightarrow> str \<Rightarrow> str \<Rightarrow> (str \<times> str) list \<Rightarrow> (str \<times> str) list" where
  "all_sections problem user_story approach extra =
     (''Problem'', problem) # (''User story'', user_story) # (''Approach'', approach) # extra"

lemma render_lines:
  "render_body problem user_story approach extra =
   unlines (section_lines ''Problem'' (strip problem) @ concat (List.map
     (\<lambda>ht. [] # section_lines (strip (fst ht)) (strip (snd ht)))
     ((''User story'', user_story) # (''Approach'', approach) # extra)))"
proof -
  have extras: "foldl (\<lambda>b (heading, txt). b @ newline @ ''## '' @ strip heading @ newline @ newline
        @ strip txt @ newline) (unlines ls) ex =
      unlines (ls @ concat (List.map (\<lambda>ht. [] # section_lines (strip (fst ht)) (strip (snd ht))) ex))" for ls ex
  proof (induction ex arbitrary: ls)
    case (Cons ht ex)
    obtain h t where ht: "ht = (h, t)" by (cases ht)
    have "unlines ls @ newline @ ''## '' @ strip h @ newline @ newline @ strip t @ newline =
        unlines (ls @ [] # section_lines (strip h) (strip t))"
      unfolding unlines_append by (simp add: unlines_def [of "[] # _"] unlines_def [symmetric] unlines_section)
    then show ?case using Cons.IH [of "ls @ [] # section_lines (strip h) (strip t)"] by (simp add: ht)
  qed simp
  have heads: "strip ''User story'' = ''User story''" "strip ''Approach'' = ''Approach''" by code_simp+
  have "render_body problem user_story approach extra =
      foldl (\<lambda>b (heading, txt). b @ newline @ ''## '' @ strip heading @ newline @ newline
        @ strip txt @ newline) (unlines (section_lines ''Problem'' (strip problem)))
        ((''User story'', user_story) # (''Approach'', approach) # extra)"
    by (simp add: render_body_def Let_def unlines_section heads)
  then show ?thesis by (rule trans [OF _ extras])
qed

lemma section_one_line:
  assumes "good_section (h, t)"
  shows "list_all one_line (section_lines (strip h) (strip t))"
  using assms text_lines_one_line [of "strip t"]
  by (simp add: section_lines_def good_section_def one_line_def line_break_def)



end
