(* ===== verification/Spec_Store.thy ===== *)
theory Spec_Store
  imports Spec_Body
begin

text \<open>
  Specs on disk: the naming and encoding policy of core/spec_storage.py and the registry of
  core/spec_store.py. A directory is the list of its spec files in name order. Whether a
  plaintext file parses, and whether a ciphertext decrypts with the workspace key and parses, is
  part of the file; a spec that was written reads back as that spec. Each operation runs under
  the lock of its spec id and is one atomic step.
\<close>

section \<open>Files (core/spec_storage.py)\<close>

datatype spec_content =
    Plain_Text "spec option"
  | Cipher_Text "spec option"

record spec_file =
  sf_name :: str
  sf_content :: spec_content

datatype spec_mode = Committed | Local | Encrypted

record spec_dir =
  sd_files :: "spec_file list"
  sd_mode :: spec_mode
  sd_has_key :: bool

definition endswith :: "str \<Rightarrow> str \<Rightarrow> bool" where
  "endswith s p \<longleftrightarrow> length p \<le> length s \<and> drop (length s - length p) s = p"

text \<open>\<open>^\d{4}-\d{2}-\d{2}-(?P<id>.+)\.md(?:\.enc)?$\<close>; the id holds no line feed.\<close>

definition suffix_id :: "str \<Rightarrow> str option" where
  "suffix_id rest =
     (let cut = (\<lambda>n. let i = take (length rest - n) rest
          in if i \<noteq> [] \<and> CHR 0x0A \<notin> set i then Some i else None)
      in if endswith rest ''.md'' then cut 3 else if endswith rest ''.md.enc'' then cut 7 else None)"

definition canonical_spec_id :: "str \<Rightarrow> str option" where
  "canonical_spec_id name =
     (let digs = (\<lambda>s. list_all (\<lambda>c. digit c \<noteq> None) s);
          rest = drop 11 name
      in if 11 \<le> length name \<and> digs (take 4 name) \<and> name ! 4 = CHR ''-'' \<and> digs (take 2 (drop 5 name))
            \<and> name ! 7 = CHR ''-'' \<and> digs (take 2 (drop 8 name)) \<and> name ! 10 = CHR ''-''
         then suffix_id rest else None)"

definition spec_id_from_filename :: "str \<Rightarrow> str" where
  "spec_id_from_filename name = (case canonical_spec_id name of Some i \<Rightarrow> i
     | None \<Rightarrow> (let n = (if endswith name ''.enc'' then take (length name - 4) name else name)
         in if endswith n ''.md'' then take (length n - 3) n else n))"

definition physical_name :: "spec_mode \<Rightarrow> str \<Rightarrow> str" where
  "physical_name mode stem = (if mode = Encrypted then stem @ ''.enc'' else stem)"

text \<open>\<open>parse_spec(storage.decode_file(path))\<close>.\<close>

definition read_file :: "spec_dir \<Rightarrow> spec_file \<Rightarrow> spec_error + spec" where
  "read_file d f = (case sf_content f of
     Plain_Text s \<Rightarrow> (case s of None \<Rightarrow> Inl Spec_Parse_Error | Some x \<Rightarrow> Inr x)
   | Cipher_Text s \<Rightarrow> if \<not> sd_has_key d then Inl (Spec_Locked (spec_id_from_filename (sf_name f)))
       else (case s of None \<Rightarrow> Inl Spec_Parse_Error | Some x \<Rightarrow> Inr x))"

text \<open>Replacing a file, or a new file in its place of the name order.\<close>

fun put_file :: "spec_file \<Rightarrow> spec_file list \<Rightarrow> spec_file list" where
  "put_file f [] = [f]"
| "put_file f (g # gs) =
     (if sf_name g = sf_name f then f # gs
      else if sf_name f < sf_name g then f # g # gs else g # put_file f gs)"

definition is_cipher :: "spec_file \<Rightarrow> bool" where
  "is_cipher f \<longleftrightarrow> endswith (sf_name f) ''.md.enc''"

definition write_spec :: "str \<Rightarrow> spec \<Rightarrow> spec_dir \<Rightarrow> spec_error + spec_dir" where
  "write_spec stem s d =
     (let name = physical_name (sd_mode d) stem in
      if sd_mode d = Encrypted then
        (if \<not> sd_has_key d then
           (case List.find is_cipher (sd_files d) of
              Some locked \<Rightarrow> Inl (Spec_Locked (spec_id_from_filename (sf_name locked)))
            | None \<Rightarrow> Inr (d\<lparr>sd_files := put_file \<lparr>sf_name = name, sf_content = Cipher_Text (Some s)\<rparr> (sd_files d),
                sd_has_key := True\<rparr>))
         else Inr (d\<lparr>sd_files := put_file \<lparr>sf_name = name, sf_content = Cipher_Text (Some s)\<rparr> (sd_files d)\<rparr>))
      else Inr (d\<lparr>sd_files := put_file \<lparr>sf_name = name, sf_content = Plain_Text (Some s)\<rparr> (sd_files d)\<rparr>))"

section \<open>The registry (core/spec_store.py)\<close>

record spec_artifact =
  sa_spec :: spec
  sa_logical :: str
  sa_physical :: str
  sa_encrypted :: bool

definition validate_spec_id :: "str \<Rightarrow> spec_error + unit" where
  "validate_spec_id i =
     (if i = [] \<or> CHR 0x00 \<in> set i \<or> CHR ''/'' \<in> set i \<or> CHR 0x5C \<in> set i \<or> i = ''.'' \<or> i = ''..''
        \<or> startswith i ''.''
      then Inl (Unsafe_Spec_Id i) else Inr ())"

definition path_for :: "spec \<Rightarrow> spec_error + str" where
  "path_for s = rbind (validate_spec_id (sp_id s)) (\<lambda>_.
     let w = (case sp_created_at s of Naive w \<Rightarrow> w | Aware w off \<Rightarrow> w)
     in Inr (iso_date (w div 86400000000) @ ''-'' @ sp_id s @ ''.md''))"

definition logical_name :: "str \<Rightarrow> str" where
  "logical_name name = (if endswith name ''.enc'' then take (length name - 4) name else name)"

definition canonical_paths :: "str \<Rightarrow> spec_dir \<Rightarrow> str list" where
  "canonical_paths i d = List.map sf_name (filter (\<lambda>f. canonical_spec_id (sf_name f) = Some i) (sd_files d))"

definition conflict :: "str \<Rightarrow> str list \<Rightarrow> spec_error" where
  "conflict i paths = Spec_Artifact_Conflict (''spec id '' @ quoted i
     @ '' has multiple physical artifacts: '' @ join '', '' paths)"

record artifact_scan =
  as_matches :: "(spec \<times> str) list"
  as_exact_locked :: "spec_error option"
  as_locked_renamed :: "str option"

definition scan_file :: "str \<Rightarrow> spec_dir \<Rightarrow> spec_file \<Rightarrow> artifact_scan \<Rightarrow> spec_error + artifact_scan" where
  "scan_file i d f acc =
     (let canonical = canonical_spec_id (sf_name f) in
      case read_file d f of
        Inl (Spec_Locked l) \<Rightarrow>
          Inr (if canonical = Some i then acc\<lparr>as_exact_locked := Some (Spec_Locked l)\<rparr>
               else if canonical = None then acc\<lparr>as_locked_renamed := Some (sf_name f)\<rparr> else acc)
      | Inl e \<Rightarrow>
          if canonical = Some i then Inl e
          else if canonical = None then Inl (Spec_Artifact_Conflict
            (''spec store has an unreadable renamed artifact: '' @ sf_name f))
          else Inr acc
      | Inr s \<Rightarrow>
          (case canonical of
             Some c \<Rightarrow>
               if sp_id s \<noteq> c then
                 (if i \<in> {c, sp_id s} then Inl (Spec_Artifact_Conflict (''canonical artifact '' @ sf_name f
                    @ '' binds '' @ quoted c @ '', not frontmatter id '' @ quoted (sp_id s)))
                  else Inr acc)
               else if sp_id s = i then Inr (acc\<lparr>as_matches := as_matches acc @ [(s, sf_name f)]\<rparr>)
               else Inr acc
           | None \<Rightarrow>
               if sp_id s = i then Inr (acc\<lparr>as_matches := as_matches acc @ [(s, sf_name f)]\<rparr>)
               else Inr acc))"

definition resolve_artifact :: "str \<Rightarrow> spec_dir \<Rightarrow> spec_error + spec_artifact option" where
  "resolve_artifact i d = rbind (validate_spec_id i) (\<lambda>_.
     if length (canonical_paths i d) > 1 then Inl (conflict i (canonical_paths i d))
     else rbind (rfold (scan_file i d) (sd_files d)
         \<lparr>as_matches = [], as_exact_locked = None, as_locked_renamed = None\<rparr>) (\<lambda>acc.
       case as_locked_renamed acc of
         Some p \<Rightarrow> Inl (Spec_Artifact_Conflict (''spec id '' @ quoted i
           @ '' has an unreadable renamed artifact: '' @ p))
       | None \<Rightarrow>
         (case as_exact_locked acc of
            Some locked \<Rightarrow>
              if as_matches acc \<noteq> [] then Inl (Spec_Artifact_Conflict (''spec id '' @ quoted i
                @ '' has both locked and readable artifacts'')) else Inl locked
          | None \<Rightarrow>
              if length (as_matches acc) > 1 then Inl (conflict i (List.map snd (as_matches acc)))
              else (case as_matches acc of [] \<Rightarrow> Inr None
                | m # _ \<Rightarrow> Inr (Some \<lparr>sa_spec = fst m, sa_logical = logical_name (snd m),
                    sa_physical = snd m, sa_encrypted = endswith (snd m) ''.enc''\<rparr>)))))"

definition save_unlocked :: "spec \<Rightarrow> spec_artifact option \<Rightarrow> spec_dir \<Rightarrow> spec_error + spec_dir" where
  "save_unlocked s given d =
     rbind (case given of None \<Rightarrow> resolve_artifact (sp_id s) d | Some a \<Rightarrow> Inr (Some a)) (\<lambda>artifact.
     case artifact of
       Some a \<Rightarrow>
         if sa_encrypted a \<noteq> (sd_mode d = Encrypted)
         then Inl (Spec_Representation_Mismatch (sp_id s))
         else write_spec (sa_logical a) s d
     | None \<Rightarrow> rbind (path_for s) (\<lambda>p. write_spec p s d))"

text \<open>The second component is the spec as the operation left it in memory.\<close>

definition save_while_locked :: "spec \<Rightarrow> spec_artifact option \<Rightarrow> spec_dir \<Rightarrow> spec_error + (spec \<times> spec_dir)" where
  "save_while_locked s artifact d =
     (let s1 = (case artifact of None \<Rightarrow> s | Some a \<Rightarrow> s\<lparr>sp_inbox := sp_inbox (sa_spec a)\<rparr>)
      in rbind (save_unlocked s1 artifact d) (\<lambda>d'. Inr (s1, d')))"

definition save_spec :: "spec \<Rightarrow> spec_dir \<Rightarrow> spec_error + (spec \<times> spec_dir)" where
  "save_spec s d = rbind (resolve_artifact (sp_id s) d) (\<lambda>artifact. save_while_locked s artifact d)"

definition create_if_absent :: "spec \<Rightarrow> spec_dir \<Rightarrow> spec_error + (bool \<times> spec_dir)" where
  "create_if_absent s d = rbind (resolve_artifact (sp_id s) d) (\<lambda>artifact.
     case artifact of Some a \<Rightarrow> Inr (False, d)
     | None \<Rightarrow> rbind (save_unlocked s None d) (\<lambda>d'. Inr (True, d')))"

definition read_strict :: "str \<Rightarrow> spec_dir \<Rightarrow> spec_error + spec option" where
  "read_strict i d = rbind (resolve_artifact i d) (\<lambda>a. Inr (map_option sa_spec a))"

definition find_by_id :: "str \<Rightarrow> spec_dir \<Rightarrow> spec option" where
  "find_by_id i d = (case resolve_artifact i d of Inl e \<Rightarrow> None | Inr a \<Rightarrow> map_option sa_spec a)"

definition list_file :: "spec_dir \<Rightarrow> spec_file \<Rightarrow> (str dict \<times> spec list) \<Rightarrow> spec_error + (str dict \<times> spec list)" where
  "list_file d f acc = rbind (read_file d f) (\<lambda>s.
     case canonical_spec_id (sf_name f) of
       Some c \<Rightarrow>
         if sp_id s \<noteq> c then Inl (Spec_Artifact_Conflict (''canonical artifact '' @ sf_name f
           @ '' binds '' @ quoted c @ '', not frontmatter id '' @ quoted (sp_id s)))
         else (case map_of (fst acc) (sp_id s) of
             Some p \<Rightarrow> Inl (conflict (sp_id s) [p, sf_name f])
           | None \<Rightarrow> Inr (AList.update (sp_id s) (sf_name f) (fst acc), snd acc @ [s]))
     | None \<Rightarrow> (case map_of (fst acc) (sp_id s) of
             Some p \<Rightarrow> Inl (conflict (sp_id s) [p, sf_name f])
           | None \<Rightarrow> Inr (AList.update (sp_id s) (sf_name f) (fst acc), snd acc @ [s])))"

definition list_strict :: "spec_dir \<Rightarrow> spec_error + spec list" where
  "list_strict d =
     (let ids = fromkeys (List.map_filter (\<lambda>f. canonical_spec_id (sf_name f)) (sd_files d))
      in case List.find (\<lambda>i. length (canonical_paths i d) > 1) ids of
           Some i \<Rightarrow> Inl (conflict i (canonical_paths i d))
         | None \<Rightarrow> rbind (rfold (list_file d) (sd_files d) ([], [])) (\<lambda>acc. Inr (snd acc)))"

definition mutate_spec_inbox ::
  "str \<Rightarrow> str \<Rightarrow> str \<Rightarrow> dt \<Rightarrow> spec_dir \<Rightarrow> spec_error + ((spec \<times> bool) \<times> spec_dir)" where
  "mutate_spec_inbox i action mid now d = rbind (resolve_artifact i d) (\<lambda>artifact.
     case artifact of None \<Rightarrow> Inl (Spec_Key_Error i)
     | Some a \<Rightarrow>
         (case apply_inbox_action (sp_inbox (sa_spec a)) action mid now of
            Inl e \<Rightarrow> Inl (Spec_Value_Error (case e of ValueError m \<Rightarrow> m | _ \<Rightarrow> []))
          | Inr (res, inbox') \<Rightarrow>
              (let s = (sa_spec a)\<lparr>sp_inbox := inbox'\<rparr>
               in rbind (if mr_persisted res then save_unlocked s (Some a) d else Inr d) (\<lambda>d'.
                  Inr ((s, mr_applied res), d')))))"

definition save_migrated_unlocked :: "spec \<Rightarrow> spec_dir \<Rightarrow> spec_error + spec_dir" where
  "save_migrated_unlocked s d = rbind (path_for s) (\<lambda>p. write_spec p s d)"

section \<open>Tolerant listing\<close>

text \<open>A readable spec or the id of a locked one, and the file; unreadable and misbound files are left out.\<close>

type_synonym spec_entry = "spec option \<times> str option \<times> str"

definition read_entry :: "spec_dir \<Rightarrow> spec_file \<Rightarrow> spec_entry option" where
  "read_entry d f = (case read_file d f of
     Inl (Spec_Locked l) \<Rightarrow> Some (None, Some l, sf_name f)
   | Inl e \<Rightarrow> None
   | Inr s \<Rightarrow> (case canonical_spec_id (sf_name f) of
        Some c \<Rightarrow> if sp_id s \<noteq> c then None else Some (Some s, None, sf_name f)
      | None \<Rightarrow> Some (Some s, None, sf_name f)))"

definition read_all :: "spec_dir \<Rightarrow> spec_entry list" where
  "read_all d = List.map_filter (read_entry d) (sd_files d)"

definition file_conflicts :: "spec_dir \<Rightarrow> spec_file \<Rightarrow> str list" where
  "file_conflicts d f = (case canonical_spec_id (sf_name f) of None \<Rightarrow> []
     | Some c \<Rightarrow> (case read_file d f of
         Inl (Spec_Locked l) \<Rightarrow> []
       | Inl e \<Rightarrow> [c]
       | Inr s \<Rightarrow> if sp_id s \<noteq> c then [c, sp_id s] else []))"

definition tolerant_conflicted_ids :: "spec_dir \<Rightarrow> str list" where
  "tolerant_conflicted_ids d =
     filter (\<lambda>i. length (canonical_paths i d) > 1)
       (List.map_filter (\<lambda>f. canonical_spec_id (sf_name f)) (sd_files d))
     @ concat (List.map (file_conflicts d) (sd_files d))"

definition entry_id :: "spec_entry \<Rightarrow> str option" where
  "entry_id e = (case fst e of Some s \<Rightarrow> Some (sp_id s) | None \<Rightarrow> fst (snd e))"

definition list_tolerant_entries :: "spec_dir \<Rightarrow> spec_entry list" where
  "list_tolerant_entries d =
     (let entries = filter (\<lambda>e. entry_id e \<noteq> None) (read_all d);
          ids = fromkeys (List.map (\<lambda>e. the (entry_id e)) entries);
          of_id = (\<lambda>i. filter (\<lambda>e. entry_id e = Some i) entries)
      in concat (List.map (\<lambda>i. if length (of_id i) = 1 \<and> i \<notin> set (tolerant_conflicted_ids d)
           then of_id i else []) ids))"

definition list_tolerant :: "spec_dir \<Rightarrow> spec list" where
  "list_tolerant d = List.map_filter fst (list_tolerant_entries d)"

end
