(* ===== verification/Spec_Laws.thy ===== *)
theory Spec_Laws
  imports Spec_Store
begin

text \<open>
  The registry of specs keeps its word: a spec that was saved is what its id resolves to, no other
  id is affected, and saving the old content again restores the directory.
\<close>

section \<open>Well-formed directories\<close>

definition file_ok :: "spec_file \<Rightarrow> bool" where
  "file_ok f \<longleftrightarrow> (case sf_content f of
     Plain_Text _ \<Rightarrow> endswith (sf_name f) ''.md'' | Cipher_Text _ \<Rightarrow> endswith (sf_name f) ''.md.enc'')"

definition in_order :: "spec_file list \<Rightarrow> bool" where
  "in_order gs \<longleftrightarrow> sorted_wrt (\<lambda>f g. sf_name f < sf_name g) gs"

definition dir_ok :: "spec_dir \<Rightarrow> bool" where
  "dir_ok d \<longleftrightarrow> in_order (sd_files d) \<and> list_all file_ok (sd_files d)"

lemma endswith_iff: "endswith s p \<longleftrightarrow> (\<exists>x. s = x @ p)"
proof
  assume "endswith s p"
  then have "s = take (length s - length p) s @ p"
    unfolding endswith_def by (metis append_take_drop_id)
  then show "\<exists>x. s = x @ p" ..
qed (auto simp: endswith_def)

lemma md_not_enc: "endswith s ''.md'' \<Longrightarrow> \<not> endswith s ''.enc''"
  by (auto simp: endswith_iff dest: arg_cong [of _ _ last])

lemma enc_parts: "endswith s ''.md.enc'' \<Longrightarrow> endswith s ''.enc'' \<and> endswith (take (length s - 4) s) ''.md''"
  by (auto simp: endswith_iff)

section \<open>Replacing a file\<close>

lemma set_put_file: "set (put_file f gs) \<subseteq> insert f (set gs)"
  by (induction gs) auto

lemma in_order_inj: "in_order gs \<Longrightarrow> f \<in> set gs \<Longrightarrow> g \<in> set gs \<Longrightarrow> sf_name f = sf_name g \<Longrightarrow> f = g"
  by (induction gs) (auto simp: in_order_def)

lemma in_order_put_file: "in_order gs \<Longrightarrow> in_order (put_file f gs)"
proof (induction gs)
  case (Cons g gs)
  then show ?case
    using set_put_file [of f gs] by (auto simp: in_order_def not_less order.order_iff_strict)
qed (simp add: in_order_def)

lemma put_file_existing:
  assumes "g \<in> set gs" and "sf_name g = sf_name f" and "in_order gs"
  shows "put_file f gs = List.map (\<lambda>h. if sf_name h = sf_name f then f else h) gs"
  using assms
proof (induction gs)
  case (Cons h gs)
  show ?case
  proof (cases "sf_name h = sf_name f")
    case True
    then have "\<forall>x \<in> set gs. sf_name x \<noteq> sf_name f" using Cons.prems(3) by (auto simp: in_order_def)
    then have "List.map (\<lambda>h. if sf_name h = sf_name f then f else h) gs = gs"
      by (intro map_idI) auto
    with True show ?thesis by simp
  next
    case False
    with Cons.prems have "g \<in> set gs" by auto
    moreover from this Cons.prems(2,3) have "\<not> sf_name f < sf_name h"
      by (auto simp: in_order_def dest: less_asym')
    ultimately show ?thesis using Cons False by (simp add: in_order_def)
  qed
qed simp

lemma put_file_new:
  "sf_name f \<notin> set (List.map sf_name gs) \<Longrightarrow> \<exists>xs ys. gs = xs @ ys \<and> put_file f gs = xs @ f # ys"
proof (induction gs)
  case (Cons g gs)
  show ?case
  proof (cases "sf_name f < sf_name g")
    case True
    with Cons.prems have "put_file f (g # gs) = [] @ f # g # gs" by simp
    then show ?thesis by blast
  next
    case False
    from Cons obtain xs ys where "gs = xs @ ys" "put_file f gs = xs @ f # ys" by auto
    with False Cons.prems have "g # gs = (g # xs) @ ys \<and> put_file f (g # gs) = (g # xs) @ f # ys" by auto
    then show ?thesis by blast
  qed
qed simp

section \<open>Scanning\<close>

text \<open>What a scan for an id sees of a file.\<close>

definition scan_seen :: "str \<Rightarrow> str \<times> (spec_error + spec) \<Rightarrow> artifact_scan \<Rightarrow> spec_error + artifact_scan" where
  "scan_seen i nr acc =
     (let canonical = canonical_spec_id (fst nr) in
      case snd nr of
        Inl (Spec_Locked l) \<Rightarrow>
          Inr (if canonical = Some i then acc\<lparr>as_exact_locked := Some (Spec_Locked l)\<rparr>
               else if canonical = None then acc\<lparr>as_locked_renamed := Some (fst nr)\<rparr> else acc)
      | Inl e \<Rightarrow>
          if canonical = Some i then Inl e
          else if canonical = None then Inl (Spec_Artifact_Conflict
            (''spec store has an unreadable renamed artifact: '' @ fst nr))
          else Inr acc
      | Inr s \<Rightarrow>
          if canonical \<noteq> None \<and> canonical \<noteq> Some (sp_id s) then
            (if canonical = Some i \<or> sp_id s = i
             then Inl (Spec_Artifact_Conflict (''canonical artifact '' @ fst nr
                    @ '' binds '' @ quoted (the canonical) @ '', not frontmatter id '' @ quoted (sp_id s)))
             else Inr acc)
          else if sp_id s = i then Inr (acc\<lparr>as_matches := as_matches acc @ [(s, fst nr)]\<rparr>)
          else Inr acc)"

lemma scan_file_seen: "scan_file i d f = scan_seen i (sf_name f, read_file d f)"
  by (auto simp: fun_eq_iff scan_file_def scan_seen_def Let_def split: sum.split spec_error.split option.split)

abbreviation empty_scan :: artifact_scan where
  "empty_scan \<equiv> \<lparr>as_matches = [], as_exact_locked = None, as_locked_renamed = None\<rparr>"

lemma resolve_scan:
  assumes "resolve_artifact i d = Inr found"
  obtains acc where "validate_spec_id i = Inr ()" "length (canonical_paths i d) \<le> 1"
    "rfold (scan_file i d) (sd_files d) empty_scan = Inr acc" "as_locked_renamed acc = None"
    "as_exact_locked acc = None"
    "as_matches acc = (case found of None \<Rightarrow> [] | Some a \<Rightarrow> [(sa_spec a, sa_physical a)])"
    "\<And>a. found = Some a \<Longrightarrow> sa_logical a = logical_name (sa_physical a) \<and>
       sa_encrypted a = endswith (sa_physical a) ''.enc''"
proof -
  from assms have "validate_spec_id i = Inr ()" and "\<not> length (canonical_paths i d) > 1"
    by (auto simp: resolve_artifact_def rbind_eq_Inr split: if_splits)
  moreover from assms obtain acc where
    acc: "rfold (scan_file i d) (sd_files d) empty_scan = Inr acc"
    and rest: "(case as_locked_renamed acc of
         Some p \<Rightarrow> Inl (Spec_Artifact_Conflict (''spec id '' @ quoted i
           @ '' has an unreadable renamed artifact: '' @ p))
       | None \<Rightarrow>
         (case as_exact_locked acc of
            Some locked \<Rightarrow>
              if as_matches acc \<noteq> [] then Inl (Spec_Artifact_Conflict (''spec id '' @ quoted i
                @ '' has both locked and readable artifacts'')) else Inl locked
          | None \<Rightarrow>
              if length (as_matches acc) > 1 then Inl (conflict i (List.map snd (as_matches acc)))
              else (case as_matches acc of [] \<Rightarrow> Inr None
                | m # _ \<Rightarrow> Inr (Some \<lparr>sa_spec = fst m, sa_logical = logical_name (snd m),
                    sa_physical = snd m, sa_encrypted = endswith (snd m) ''.enc''\<rparr>)))) = Inr found"
    by (auto simp: resolve_artifact_def rbind_eq_Inr split: if_splits)
  moreover from rest have "as_locked_renamed acc = None" "as_exact_locked acc = None"
    by (auto split: option.splits if_splits)
  moreover from rest have
    "as_matches acc = (case found of None \<Rightarrow> [] | Some a \<Rightarrow> [(sa_spec a, sa_physical a)]) \<and>
     (\<forall>a. found = Some a \<longrightarrow> sa_logical a = logical_name (sa_physical a) \<and>
       sa_encrypted a = endswith (sa_physical a) ''.enc'')"
    by (cases "as_matches acc") (auto split: option.splits if_splits)
  ultimately show ?thesis using that by auto
qed

lemma resolve_from_scan:
  assumes "validate_spec_id i = Inr ()" and "length (canonical_paths i d) \<le> 1"
    and "rfold (scan_file i d) (sd_files d) empty_scan =
      Inr \<lparr>as_matches = [(s, p)], as_exact_locked = None, as_locked_renamed = None\<rparr>"
  shows "resolve_artifact i d = Inr (Some \<lparr>sa_spec = s, sa_logical = logical_name p,
    sa_physical = p, sa_encrypted = endswith p ''.enc''\<rparr>)"
  using assms by (simp add: resolve_artifact_def)

section \<open>What a scan tells about the files\<close>

definition observed :: "spec_dir \<Rightarrow> (str \<times> (spec_error + spec)) list" where
  "observed d = List.map (\<lambda>f. (sf_name f, read_file d f)) (sd_files d)"

lemma rfold_map: "rfold f (List.map g xs) s = rfold (\<lambda>x. f (g x)) xs s"
proof (induction xs arbitrary: s)
  case (Cons x xs)
  have "rfold f (List.map g xs) = rfold (\<lambda>x. f (g x)) xs" using Cons.IH by (rule ext)
  then show ?case by simp
qed simp

lemma scan_observed: "rfold (scan_file i d) (sd_files d) acc = rfold (scan_seen i) (observed d) acc"
  unfolding observed_def rfold_map by (rule rfold_cong) (simp only: scan_file_seen)

lemma scan_step:
  "scan_seen i x a = Inr b \<Longrightarrow> as_matches b = as_matches a \<or>
     (\<exists>s. snd x = Inr s \<and> sp_id s = i \<and> as_matches b = as_matches a @ [(s, fst x)])"
  by (auto simp: scan_seen_def Let_def split: sum.splits spec_error.splits if_splits)

lemma rfold_each: "rfold f xs s = Inr t \<Longrightarrow> x \<in> set xs \<Longrightarrow> \<exists>a b. f x a = Inr b"
  by (induction xs arbitrary: s) (auto simp: rbind_eq_Inr)

lemma scan_matches:
  assumes "rfold (scan_seen i) obs empty_scan = Inr acc" and "(s, n) \<in> set (as_matches acc)"
  shows "(n, Inr s) \<in> set obs \<and> sp_id s = i"
proof -
  have "\<forall>(s, n) \<in> set (as_matches acc). (n, Inr s) \<in> set obs \<and> sp_id s = i"
  proof (rule rfold_invariant [OF assms(1)])
    fix x a b
    assume x: "x \<in> set obs" and a: "\<forall>(s, n) \<in> set (as_matches a). (n, Inr s) \<in> set obs \<and> sp_id s = i"
      and step: "scan_seen i x a = Inr b"
    have "(fst x, snd x) \<in> set obs" using x by simp
    with scan_step [OF step] a
    show "\<forall>(s, n) \<in> set (as_matches b). (n, Inr s) \<in> set obs \<and> sp_id s = i" by (elim disjE exE) simp_all
  qed simp
  with assms(2) show ?thesis by auto
qed

lemma scan_name:
  assumes "rfold (scan_seen i) obs a = Inr b" and "(n, Inr s) \<in> set obs" and "sp_id s = i"
  shows "canonical_spec_id n = None \<or> canonical_spec_id n = Some i"
  using rfold_each [OF assms(1,2)] assms(3)
  by (auto simp: scan_seen_def Let_def split: if_splits)

text \<open>A file of one spec says nothing about another id.\<close>

lemma scan_other:
  assumes "sp_id s = i" and "canonical_spec_id n = None \<or> canonical_spec_id n = Some i" and "i \<noteq> j"
  shows "scan_seen j (n, Inr s) acc = Inr acc"
  using assms by (auto simp: scan_seen_def Let_def)

lemma scan_replace:
  assumes "rfold (scan_seen i) obs acc = Inr res" and "sp_id s1 = i"
    and "\<And>r. (p, r) \<in> set obs \<Longrightarrow> r = Inr s0" and "sp_id s0 = i"
  shows "rfold (scan_seen i) (List.map (\<lambda>x. if fst x = p then (p, Inr s1) else x) obs)
      (acc\<lparr>as_matches := List.map (\<lambda>m. if snd m = p then (s1, p) else m) (as_matches acc)\<rparr>) =
    Inr (res\<lparr>as_matches := List.map (\<lambda>m. if snd m = p then (s1, p) else m) (as_matches res)\<rparr>)"
  using assms(1,3)
proof (induction obs arbitrary: acc)
  case (Cons x obs)
  let ?re = "\<lambda>a. a\<lparr>as_matches := List.map (\<lambda>m. if snd m = p then (s1, p) else m) (as_matches a)\<rparr>"
  from Cons.prems(1) obtain a where a: "scan_seen i x acc = Inr a"
    and rest: "rfold (scan_seen i) obs a = Inr res" by (auto simp: rbind_eq_Inr)
  have "scan_seen i (if fst x = p then (p, Inr s1) else x) (?re acc) = Inr (?re a)"
  proof (cases "fst x = p")
    case True
    then have "x = (p, Inr s0)" using Cons.prems(2) [of "snd x"] by (cases x) auto
    with a assms(2,4) show ?thesis
      by (auto simp: scan_seen_def Let_def split: if_splits)
  next
    case False
    with a show ?thesis
      by (cases x) (auto simp: scan_seen_def Let_def split: sum.splits spec_error.splits if_splits)
  qed
  with Cons.IH [OF rest] Cons.prems(2) show ?case by simp
qed simp

text \<open>When nothing answers to an id, no file concerns it.\<close>

lemma scan_nothing:
  assumes "rfold (scan_seen i) obs acc = Inr empty_scan"
  shows "acc = empty_scan \<and>
    (\<forall>x \<in> set obs. canonical_spec_id (fst x) \<noteq> Some i \<and> (\<forall>a. scan_seen i x a = Inr a))"
  using assms
proof (induction obs arbitrary: acc)
  case (Cons x obs)
  then obtain a where a: "scan_seen i x acc = Inr a" "rfold (scan_seen i) obs a = Inr empty_scan"
    by (auto simp: rbind_eq_Inr)
  note IH = Cons.IH [OF a(2)]
  with a(1) have "scan_seen i x acc = Inr empty_scan" by simp
  then have "acc = empty_scan \<and> canonical_spec_id (fst x) \<noteq> Some i \<and> (\<forall>a. scan_seen i x a = Inr a)"
    by (cases x; cases acc)
      (auto simp: scan_seen_def Let_def split: sum.splits spec_error.splits if_splits)
  with IH show ?case by simp
qed simp

lemma rfold_neutral: "(\<And>x a. x \<in> set xs \<Longrightarrow> f x a = Inr a) \<Longrightarrow> rfold f xs s = Inr s"
  by (induction xs arbitrary: s) simp_all

section \<open>Saving\<close>

lemma resolve_cong:
  assumes "canonical_paths i d' = canonical_paths i d"
    and "rfold (scan_file i d') (sd_files d') empty_scan = rfold (scan_file i d) (sd_files d) empty_scan"
  shows "resolve_artifact i d' = resolve_artifact i d"
  using assms by (simp add: resolve_artifact_def)

lemma resolved_file:
  assumes "resolve_artifact i d = Inr (Some a)"
  obtains f where "f \<in> set (sd_files d)" "sf_name f = sa_physical a" "read_file d f = Inr (sa_spec a)"
    "sp_id (sa_spec a) = i"
    "canonical_spec_id (sa_physical a) = None \<or> canonical_spec_id (sa_physical a) = Some i"
    "sa_logical a = logical_name (sa_physical a)" "sa_encrypted a = endswith (sa_physical a) ''.enc''"
proof -
  from resolve_scan [OF assms] obtain acc where
    scan: "rfold (scan_file i d) (sd_files d) empty_scan = Inr acc"
    and m: "as_matches acc = [(sa_spec a, sa_physical a)]"
    and names: "sa_logical a = logical_name (sa_physical a)" "sa_encrypted a = endswith (sa_physical a) ''.enc''"
    by auto
  note seen = scan [unfolded scan_observed]
  from scan_matches [OF seen] m
  have in_obs: "(sa_physical a, Inr (sa_spec a)) \<in> set (observed d)" and id: "sp_id (sa_spec a) = i" by auto
  from in_obs obtain f where "f \<in> set (sd_files d)" "sf_name f = sa_physical a" "read_file d f = Inr (sa_spec a)"
    by (auto simp: observed_def)
  with scan_name [OF seen in_obs id] id names that show ?thesis by blast
qed

definition new_content :: "spec_dir \<Rightarrow> spec \<Rightarrow> spec_content" where
  "new_content d s = (if sd_mode d = Encrypted then Cipher_Text (Some s) else Plain_Text (Some s))"

text \<open>Rewriting the file an id resolves to.\<close>

lemma write_existing:
  assumes "dir_ok d" and "resolve_artifact i d = Inr (Some a)"
    and "sa_encrypted a = (sd_mode d = Encrypted)"
  shows "write_spec (sa_logical a) s d =
    Inr (d\<lparr>sd_files := put_file \<lparr>sf_name = sa_physical a, sf_content = new_content d s\<rparr> (sd_files d)\<rparr>) \<and>
    (sd_mode d = Encrypted \<longrightarrow> sd_has_key d)"
proof -
  from resolved_file [OF assms(2)] obtain f where f: "f \<in> set (sd_files d)" "sf_name f = sa_physical a"
    "read_file d f = Inr (sa_spec a)" "sa_logical a = logical_name (sa_physical a)"
    "sa_encrypted a = endswith (sa_physical a) ''.enc''" by metis
  have ok: "file_ok f" using assms(1) f(1) by (auto simp: dir_ok_def list_all_iff)
  have phys: "physical_name (sd_mode d) (sa_logical a) = sa_physical a"
    using assms(3) f(4,5) by (auto simp: physical_name_def logical_name_def endswith_iff)
  show ?thesis
  proof (cases "sd_mode d = Encrypted")
    case True
    with assms(3) f(2,5) have enc: "endswith (sf_name f) ''.enc''" by simp
    with ok have "\<exists>x. sf_content f = Cipher_Text x"
      by (cases "sf_content f") (auto simp: file_ok_def dest: md_not_enc)
    with f(3) have "sd_has_key d" by (auto simp: read_file_def split: if_splits)
    with True phys show ?thesis by (simp add: write_spec_def Let_def new_content_def)
  next
    case False
    with phys show ?thesis by (simp add: write_spec_def Let_def new_content_def)
  qed
qed

lemma save_existing:
  assumes "dir_ok d" and "resolve_artifact i d = Inr (Some a)" and "sp_id s = i"
    and "save_unlocked s (Some a) d = Inr d'"
  shows "dir_ok d' \<and> resolve_artifact i d' = Inr (Some (a\<lparr>sa_spec := s\<rparr>)) \<and>
    (\<forall>j. j \<noteq> i \<longrightarrow> resolve_artifact j d' = resolve_artifact j d) \<and>
    sd_mode d' = sd_mode d \<and> sd_has_key d' = sd_has_key d"
proof -
  let ?p = "sa_physical a"
  let ?f = "\<lparr>sf_name = ?p, sf_content = new_content d s\<rparr>"
  have enc: "sa_encrypted a = (sd_mode d = Encrypted)"
    using assms(4) by (simp add: save_unlocked_def split: if_splits)
  note written = write_existing [OF assms(1,2) enc, of s]
  from assms(4) enc written have d': "d' = d\<lparr>sd_files := put_file ?f (sd_files d)\<rparr>"
    and key: "sd_mode d = Encrypted \<longrightarrow> sd_has_key d" by (auto simp: save_unlocked_def)
  from resolved_file [OF assms(2)] obtain f where f: "f \<in> set (sd_files d)" "sf_name f = ?p"
    "read_file d f = Inr (sa_spec a)" "sp_id (sa_spec a) = i"
    "canonical_spec_id ?p = None \<or> canonical_spec_id ?p = Some i"
    "sa_logical a = logical_name ?p" "sa_encrypted a = endswith ?p ''.enc''" by metis
  have order: "in_order (sd_files d)" using assms(1) by (simp add: dir_ok_def)
  have files: "sd_files d' = List.map (\<lambda>h. if sf_name h = ?p then ?f else h) (sd_files d)"
    using put_file_existing [OF f(1) _ order, of ?f] f(2) by (simp add: d')
  have read_f: "read_file d' ?f = Inr s"
    using key by (simp add: read_file_def new_content_def d')
  have obs: "observed d' = List.map (\<lambda>x. if fst x = ?p then (?p, Inr s) else x) (observed d)"
  proof -
    have same: "read_file d' = read_file d" by (rule ext) (simp add: read_file_def d' split: spec_content.split)
    with read_f show ?thesis by (auto simp: observed_def files)
  qed
  have ok: "dir_ok d'"
  proof -
    have "file_ok f" using assms(1) f(1) by (auto simp: dir_ok_def list_all_iff)
    then have "file_ok ?f"
      using enc f(2,7) md_not_enc [of ?p] enc_parts [of ?p]
      by (auto simp: file_ok_def new_content_def split: spec_content.splits)
    with assms(1) set_put_file [of ?f "sd_files d"] show ?thesis
      by (auto simp: dir_ok_def d' in_order_put_file list_all_iff)
  qed
  have unique: "r = Inr (sa_spec a)" if "(?p, r) \<in> set (observed d)" for r
  proof -
    from that obtain g where g: "g \<in> set (sd_files d)" "sf_name g = ?p" "r = read_file d g"
      by (auto simp: observed_def)
    have "g = f" using in_order_inj [OF order g(1) f(1)] g(2) f(2) by simp
    with g(3) f(3) show ?thesis by simp
  qed
  have paths: "canonical_paths j d' = canonical_paths j d" for j
  proof -
    have "List.map sf_name (filter (\<lambda>f. P (sf_name f)) (List.map (\<lambda>h. if sf_name h = ?p then ?f else h) gs)) =
        List.map sf_name (filter (\<lambda>f. P (sf_name f)) gs)" for P gs
      by (induction gs) auto
    then show ?thesis by (simp add: canonical_paths_def files)
  qed
  from resolve_scan [OF assms(2)] obtain acc where
    acc: "validate_spec_id i = Inr ()" "length (canonical_paths i d) \<le> 1"
      "rfold (scan_file i d) (sd_files d) empty_scan = Inr acc" "as_locked_renamed acc = None"
      "as_exact_locked acc = None" "as_matches acc = [(sa_spec a, ?p)]" by auto
  have "rfold (scan_file i d') (sd_files d') empty_scan =
      Inr \<lparr>as_matches = [(s, ?p)], as_exact_locked = None, as_locked_renamed = None\<rparr>"
    using scan_replace [OF acc(3) [unfolded scan_observed] assms(3) unique f(4)] acc(4-6)
    by (simp add: scan_observed obs)
  from resolve_from_scan [OF acc(1) _ this] acc(2) paths f(6,7)
  have own: "resolve_artifact i d' = Inr (Some (a\<lparr>sa_spec := s\<rparr>))" by simp
  have others: "resolve_artifact j d' = resolve_artifact j d" if "j \<noteq> i" for j
  proof (rule resolve_cong [OF paths])
    have "scan_seen j (if fst x = ?p then (?p, Inr s) else x) c = scan_seen j x c"
      if "x \<in> set (observed d)" for x c
    proof (cases "fst x = ?p")
      case True
      with unique [of "snd x"] that have "x = (?p, Inr (sa_spec a))" by (cases x) auto
      with True scan_other [OF assms(3) f(5)] scan_other [OF f(4,5)] \<open>j \<noteq> i\<close> show ?thesis by simp
    qed simp
    then show "rfold (scan_file j d') (sd_files d') empty_scan = rfold (scan_file j d) (sd_files d) empty_scan"
      unfolding scan_observed obs rfold_map by (rule rfold_cong)
  qed
  from ok own others show ?thesis by (simp add: d')
qed

text \<open>The file name of a new spec.\<close>

lemma canonical_dated: "canonical_spec_id (iso_date d @ ''-'' @ rest) = suffix_id rest"
proof -
  have "canonical_spec_id (digits_of 4 y @ ''-'' @ digits_of 2 m @ ''-'' @ digits_of 2 e @ ''-'' @ rest) =
      suffix_id rest" for y m e
    using digits_of_digits [of 4 y] digits_of_digits [of 2 m] digits_of_digits [of 2 e]
    by (simp add: canonical_spec_id_def Let_def nth_append)
  then show ?thesis by (simp add: iso_date_def Let_def)
qed

lemma canonical_name:
  assumes "i \<noteq> []" and "CHR 0x0A \<notin> set i"
  shows "canonical_spec_id (physical_name mode (iso_date d @ ''-'' @ i @ ''.md'')) = Some i"
proof -
  have suffix: "suffix_id (i @ ''.md'') = Some i" "suffix_id (i @ ''.md.enc'') = Some i"
    using assms by (auto simp: suffix_id_def endswith_iff Let_def dest: arg_cong [of _ _ last])
  with canonical_dated [of d "i @ ''.md''"] canonical_dated [of d "i @ ''.md.enc''"]
  show ?thesis by (simp add: physical_name_def)
qed

lemma key_created:
  assumes "dir_ok d" and "List.find is_cipher (sd_files d) = None" and "f \<in> set (sd_files d)"
  shows "read_file (d\<lparr>sd_files := fs, sd_has_key := True\<rparr>) f = read_file d f"
proof -
  from assms(2,3) have "\<not> is_cipher f" by (auto simp: find_None_iff)
  with assms(1,3) have "\<exists>x. sf_content f = Plain_Text x"
    by (cases "sf_content f") (auto simp: dir_ok_def list_all_iff file_ok_def is_cipher_def)
  then show ?thesis by (auto simp: read_file_def)
qed

lemma write_new:
  assumes "dir_ok d" and "write_spec stem s d = Inr d'"
  shows "sd_files d' = put_file \<lparr>sf_name = physical_name (sd_mode d) stem, sf_content = new_content d s\<rparr> (sd_files d)
    \<and> sd_mode d' = sd_mode d \<and> (sd_mode d = Encrypted \<longrightarrow> sd_has_key d') \<and>
    (\<forall>f \<in> set (sd_files d). read_file d' f = read_file d f)"
proof (cases "sd_mode d = Encrypted \<and> \<not> sd_has_key d")
  case True
  with assms(2) have none: "List.find is_cipher (sd_files d) = None"
    by (auto simp: write_spec_def split: option.splits)
  with True assms(2) have d': "d' = d\<lparr>sd_files := put_file \<lparr>sf_name = physical_name (sd_mode d) stem,
      sf_content = new_content d s\<rparr> (sd_files d), sd_has_key := True\<rparr>"
    by (simp add: write_spec_def Let_def new_content_def)
  with key_created [OF assms(1) none] show ?thesis by simp
next
  case False
  then have d': "d' = d\<lparr>sd_files := put_file \<lparr>sf_name = physical_name (sd_mode d) stem,
      sf_content = new_content d s\<rparr> (sd_files d)\<rparr>"
    using assms(2) by (auto simp: write_spec_def Let_def new_content_def split: if_splits)
  with False show ?thesis by (auto simp: read_file_def split: spec_content.split)
qed

lemma save_new:
  assumes "dir_ok d" and "resolve_artifact i d = Inr None" and "sp_id s = i" and "CHR 0x0A \<notin> set i"
    and "save_unlocked s None d = Inr d'"
  shows "dir_ok d' \<and> (\<exists>a. resolve_artifact i d' = Inr (Some a) \<and> sa_spec a = s) \<and>
    (\<forall>j. j \<noteq> i \<longrightarrow> resolve_artifact j d' = resolve_artifact j d)"
proof -
  from resolve_scan [OF assms(2)] obtain acc where
    acc: "validate_spec_id i = Inr ()" "rfold (scan_file i d) (sd_files d) empty_scan = Inr acc"
      "as_locked_renamed acc = None" "as_exact_locked acc = None" "as_matches acc = []" by auto
  then have "acc = empty_scan" by simp
  with acc(2) have quiet: "rfold (scan_seen i) (observed d) empty_scan = Inr empty_scan"
    by (simp add: scan_observed)
  have silent: "canonical_spec_id (fst x) \<noteq> Some i \<and> (\<forall>a. scan_seen i x a = Inr a)"
    if "x \<in> set (observed d)" for x
    using scan_nothing [OF quiet] that by blast
  from acc(1) have nonempty: "i \<noteq> []" by (auto simp: validate_spec_id_def split: if_splits)
  from assms(2,3,5) obtain p where p: "path_for s = Inr p" and w: "write_spec p s d = Inr d'"
    by (auto simp: save_unlocked_def rbind_eq_Inr)
  define n where "n = physical_name (sd_mode d) p"
  from p assms(3) nonempty have canonical: "canonical_spec_id n = Some i"
    using canonical_name [OF nonempty assms(4)] by (auto simp: path_for_def rbind_eq_Inr n_def Let_def)
  let ?f = "\<lparr>sf_name = n, sf_content = new_content d s\<rparr>"
  from write_new [OF assms(1) w] have files: "sd_files d' = put_file ?f (sd_files d)"
    and mode: "sd_mode d = Encrypted \<longrightarrow> sd_has_key d'"
    and reads: "\<And>f. f \<in> set (sd_files d) \<Longrightarrow> read_file d' f = read_file d f" by (simp_all add: n_def)
  have seen: "(sf_name g, read_file d g) \<in> set (observed d)" if "g \<in> set (sd_files d)" for g
    unfolding observed_def set_map by (rule image_eqI [OF refl that])
  have not_i: "canonical_spec_id (sf_name g) \<noteq> Some i" if "g \<in> set (sd_files d)" for g
    using silent [OF seen [OF that]] by simp
  have "n \<notin> set (List.map sf_name (sd_files d))" using canonical not_i by auto
  with put_file_new [of ?f "sd_files d"] obtain xs ys where
    split: "sd_files d = xs @ ys" "sd_files d' = xs @ ?f # ys" by (auto simp: files)
  have read_f: "read_file d' ?f = Inr s" using mode by (simp add: read_file_def new_content_def)
  have obs: "observed d' = List.map (\<lambda>f. (sf_name f, read_file d f)) xs @ (n, Inr s)
      # List.map (\<lambda>f. (sf_name f, read_file d f)) ys"
    using reads by (simp add: observed_def split read_f)
  have obs_d: "observed d = List.map (\<lambda>f. (sf_name f, read_file d f)) xs
      @ List.map (\<lambda>f. (sf_name f, read_file d f)) ys"
    by (simp add: observed_def split)
  have ok: "dir_ok d'"
  proof -
    from p have stem: "endswith p ''.md''"
      by (auto simp: path_for_def rbind_eq_Inr Let_def endswith_iff)
    then have "file_ok ?f"
      by (auto simp: file_ok_def new_content_def n_def physical_name_def endswith_iff)
    with assms(1) set_put_file [of ?f "sd_files d"] show ?thesis
      by (auto simp: dir_ok_def files in_order_put_file list_all_iff)
  qed
  have here: "scan_seen i (n, Inr s) empty_scan =
      Inr \<lparr>as_matches = [(s, n)], as_exact_locked = None, as_locked_renamed = None\<rparr>"
    using assms(3) canonical by (simp add: scan_seen_def)
  have neutral: "rfold (scan_seen i) (List.map (\<lambda>f. (sf_name f, read_file d f)) gs) a = Inr a"
    if "set gs \<subseteq> set (sd_files d)" for gs a
    using silent seen that by (intro rfold_neutral) (auto simp del: split_paired_All)
  have scan: "rfold (scan_file i d') (sd_files d') empty_scan =
      Inr \<lparr>as_matches = [(s, n)], as_exact_locked = None, as_locked_renamed = None\<rparr>"
  proof -
    have "set xs \<subseteq> set (sd_files d)" "set ys \<subseteq> set (sd_files d)" by (simp_all add: split)
    then show ?thesis unfolding scan_observed obs rfold_append by (simp add: neutral here)
  qed
  have none: "filter (\<lambda>f. canonical_spec_id (sf_name f) = Some i) gs = []"
    if "set gs \<subseteq> set (sd_files d)" for gs
    using not_i that by (auto simp: filter_empty_conv)
  have "length (canonical_paths i d') \<le> 1"
    by (simp add: canonical_paths_def split none)
  from resolve_from_scan [OF acc(1) this scan]
  have own: "\<exists>a. resolve_artifact i d' = Inr (Some a) \<and> sa_spec a = s" by simp
  have others: "resolve_artifact j d' = resolve_artifact j d" if "j \<noteq> i" for j
  proof (rule resolve_cong)
    show "canonical_paths j d' = canonical_paths j d"
      using that canonical by (simp add: canonical_paths_def split)
    have "scan_seen j (n, Inr s) a = Inr a" for a
      using scan_other [OF assms(3), of n j] canonical that by simp
    then show "rfold (scan_file j d') (sd_files d') empty_scan = rfold (scan_file j d) (sd_files d) empty_scan"
      unfolding scan_observed obs obs_d rfold_append by (simp add: rbind_def split: sum.split)
  qed
  from ok own others show ?thesis by blast
qed

end
