(* ===== verification/Spec_Transition.thy ===== *)
theory Spec_Transition
  imports Spec_Laws
begin

text \<open>
  The transitions of a spec: approve and request-changes of core/spec_transition.py and the
  advance on close of core/spec_lifecycle.py. Each runs under the lock of the spec's id. The
  rejection journal is an argument: appending yields an outcome and the journal it left.
\<close>

section \<open>Definitions\<close>

definition time_eq :: "dt \<Rightarrow> dt \<Rightarrow> bool" where
  "time_eq a b \<longleftrightarrow> is_naive a = is_naive b \<and> instant a = instant b"

text \<open>Equality of the dumped fields, the inbox excluded; times compare by instant.\<close>

definition same_revision :: "spec \<Rightarrow> spec \<Rightarrow> bool" where
  "same_revision s c \<longleftrightarrow> time_eq (sp_created_at s) (sp_created_at c) \<and> time_eq (sp_updated_at s) (sp_updated_at c) \<and>
     s = c\<lparr>sp_inbox := sp_inbox s, sp_created_at := sp_created_at s, sp_updated_at := sp_updated_at s\<rparr>"

definition assert_current_revision :: "spec \<Rightarrow> spec option \<Rightarrow> spec_error + unit" where
  "assert_current_revision s current = (case current of
     None \<Rightarrow> Inl (Spec_Revision_Conflict (sp_id s) (sp_updated_at s) None)
   | Some c \<Rightarrow> if same_revision s c then Inr ()
       else Inl (Spec_Revision_Conflict (sp_id s) (sp_updated_at s) (Some (sp_updated_at c))))"

fun in_zone_of :: "dt \<Rightarrow> dt \<Rightarrow> dt" where
  "in_zone_of (Naive e) (Naive p) = Naive p"
| "in_zone_of (Naive e) (Aware p off) = Naive p"
| "in_zone_of (Aware e off) (Naive p) = Aware p off"
| "in_zone_of (Aware e off) (Aware p off') = Aware (p - off' + off) off"

definition transition_timestamp :: "dt \<Rightarrow> dt \<Rightarrow> dt" where
  "transition_timestamp expected proposed =
     (let p = in_zone_of expected proposed
      in if instant p > instant expected then p else dt_add expected 1)"

definition approve_spec :: "bool \<Rightarrow> dt \<Rightarrow> spec \<Rightarrow> spec_dir \<Rightarrow> spec_error + (spec \<times> spec_dir)" where
  "approve_spec bypass now s d = rbind (resolve_artifact (sp_id s) d) (\<lambda>artifact.
     rbind (assert_current_revision s (map_option sa_spec artifact)) (\<lambda>_.
     rbind (if \<not> bypass \<and> approval_blockers s \<noteq> [] then Inl (Approval_Blocked (approval_blockers s))
            else Inr ()) (\<lambda>_.
     rbind (validate_transition (status_name (sp_status s)) ''approved'') (\<lambda>_.
     save_while_locked (s\<lparr>sp_status := Approved, sp_clarification := None,
       sp_updated_at := transition_timestamp (sp_updated_at s) now\<rparr>) artifact d))))"

type_synonym 'j journal_append = "str \<Rightarrow> str \<Rightarrow> str \<Rightarrow> 'j \<Rightarrow> (spec_error + unit) \<times> 'j"

definition record_rejection :: "'j journal_append \<Rightarrow> str \<Rightarrow> str \<Rightarrow> str \<Rightarrow> 'j \<Rightarrow> (spec_error + unit) \<times> 'j" where
  "record_rejection journal i actor reason j =
     (if strip reason = [] then (Inl (Spec_Value_Error ''reason must not be empty''), j)
      else journal i actor reason j)"

definition request_changes ::
  "'j journal_append option \<Rightarrow> str \<Rightarrow> str \<Rightarrow> dt \<Rightarrow> spec \<Rightarrow> spec_dir \<times> 'j \<Rightarrow> (spec_error + spec) \<times> (spec_dir \<times> 'j)" where
  "request_changes log actor reason now s dj =
     (if strip reason = [] then (Inl (Spec_Value_Error ''reason must not be empty''), dj)
      else (case resolve_artifact (sp_id s) (fst dj) of Inl e \<Rightarrow> (Inl e, dj) | Inr artifact \<Rightarrow>
      (case assert_current_revision s (map_option sa_spec artifact) of Inl e \<Rightarrow> (Inl e, dj) | Inr _ \<Rightarrow>
      (case validate_transition (status_name (sp_status s)) ''draft'' of Inl e \<Rightarrow> (Inl e, dj) | Inr _ \<Rightarrow>
      (case save_while_locked (s\<lparr>sp_status := Draft, sp_clarification := Some reason,
              sp_updated_at := transition_timestamp (sp_updated_at s) now\<rparr>) artifact (fst dj) of
         Inl e \<Rightarrow> (Inl e, dj)
       | Inr (s1, d1) \<Rightarrow>
           (case log of None \<Rightarrow> (Inr s1, (d1, snd dj))
            | Some journal \<Rightarrow>
                (case record_rejection journal (sp_id s1) actor reason (snd dj) of
                   (Inr _, j1) \<Rightarrow> (Inr s1, (d1, j1))
                 | (Inl e, j1) \<Rightarrow>
                     (case artifact of None \<Rightarrow> (Inl e, (d1, j1)) | Some a \<Rightarrow>
                      (case save_while_locked (sa_spec a) artifact d1 of
                         Inl e' \<Rightarrow> (Inl e', (d1, j1))
                       | Inr (_, d2) \<Rightarrow> (Inl e, (d2, j1)))))))))))"

definition advance_spec_on_close ::
  "str option \<Rightarrow> int \<Rightarrow> int \<Rightarrow> bool \<Rightarrow> dt \<Rightarrow> spec_dir \<Rightarrow> spec_error + spec_dir" where
  "advance_spec_on_close spec_id merged closed without_prs now d =
     (case spec_id of None \<Rightarrow> Inr d
      | Some i \<Rightarrow>
          if i = [] then Inr d
          else if \<not> without_prs \<and> (merged = 0 \<or> closed > 0) then Inr d
          else rbind (resolve_artifact i d) (\<lambda>artifact.
            case artifact of None \<Rightarrow> Inr d
            | Some a \<Rightarrow>
                if sp_status (sa_spec a) \<noteq> Dispatched then Inr d
                else rbind (save_while_locked ((sa_spec a)\<lparr>sp_status := Implemented, sp_updated_at := now\<rparr>)
                       artifact d) (\<lambda>sd. Inr (snd sd))))"

section \<open>Laws\<close>

lemma instant_in_zone: "is_naive (in_zone_of e p) = is_naive e"
  by (cases e; cases p) simp_all

lemma transition_newer:
  "instant e < instant (transition_timestamp e p) \<and> is_naive (transition_timestamp e p) = is_naive e"
  by (simp add: transition_timestamp_def Let_def instant_in_zone)

lemma transition_not_before:
  "\<not> is_naive e \<Longrightarrow> \<not> is_naive p \<Longrightarrow> instant p \<le> instant (transition_timestamp e p)"
  by (cases e; cases p) (auto simp: transition_timestamp_def Let_def)

lemma same_revision_id: "same_revision s c \<Longrightarrow> sp_id s = sp_id c \<and> sp_status s = sp_status c"
  unfolding same_revision_def by (metis spec.select_convs(1,3) spec.surjective spec.update_convs(4,5,16))

lemma assert_current_Inr:
  "assert_current_revision s current = Inr u \<longleftrightarrow> (\<exists>c. current = Some c \<and> same_revision s c)"
  by (auto simp: assert_current_revision_def split: option.splits)

lemma save_locked_existing:
  assumes "dir_ok d" and "resolve_artifact i d = Inr (Some a)" and "sp_id s = i"
    and "save_while_locked s (Some a) d = Inr (s1, d1)"
  shows "s1 = s\<lparr>sp_inbox := sp_inbox (sa_spec a)\<rparr> \<and> dir_ok d1 \<and>
    resolve_artifact i d1 = Inr (Some (a\<lparr>sa_spec := s1\<rparr>)) \<and>
    (\<forall>j. j \<noteq> i \<longrightarrow> resolve_artifact j d1 = resolve_artifact j d) \<and>
    save_unlocked s1 (Some a) d = Inr d1"
proof -
  from assms(4) have s1: "s1 = s\<lparr>sp_inbox := sp_inbox (sa_spec a)\<rparr>" and save: "save_unlocked s1 (Some a) d = Inr d1"
    by (auto simp: save_while_locked_def rbind_eq_Inr Let_def)
  have "sp_id s1 = i" using assms(3) by (simp add: s1)
  from save_existing [OF assms(1,2) this save] s1 save show ?thesis by blast
qed

text \<open>Writing the old content back restores the directory.\<close>

lemma save_restores:
  assumes "dir_ok d" and "resolve_artifact i d = Inr (Some a)" and "sp_id s = i"
    and "save_unlocked s (Some a) d = Inr d1"
  shows "save_while_locked (sa_spec a) (Some a) d1 = Inr (sa_spec a, d)"
proof -
  let ?p = "sa_physical a"
  let ?f = "\<lambda>s. \<lparr>sf_name = ?p, sf_content = new_content d s\<rparr>"
  have enc: "sa_encrypted a = (sd_mode d = Encrypted)"
    using assms(4) by (simp add: save_unlocked_def split: if_splits)
  note written = write_existing [OF assms(1,2) enc]
  from assms(4) enc written have d1: "d1 = d\<lparr>sd_files := put_file (?f s) (sd_files d)\<rparr>"
    by (auto simp: save_unlocked_def)
  note saved = save_existing [OF assms]
  have order: "in_order (sd_files d)" "in_order (sd_files d1)"
    using assms(1) saved by (simp_all add: dir_ok_def)
  from resolved_file [OF assms(2)] obtain f where f: "f \<in> set (sd_files d)" "sf_name f = ?p"
    "read_file d f = Inr (sa_spec a)" "sa_encrypted a = endswith ?p ''.enc''" by metis
  have ok: "file_ok f" using assms(1) f(1) by (auto simp: dir_ok_def list_all_iff)
  have content: "sf_content f = new_content d (sa_spec a)"
  proof (cases "sd_mode d = Encrypted")
    case True
    with enc f(2,4) have "endswith (sf_name f) ''.enc''" by simp
    with ok f(3) True show ?thesis
      by (auto simp: file_ok_def new_content_def read_file_def dest: md_not_enc
          split: spec_content.splits option.splits if_splits)
  next
    case False
    with enc f(2,4) have "\<not> endswith (sf_name f) ''.enc''" by simp
    with ok f(3) False show ?thesis
      by (auto simp: file_ok_def new_content_def read_file_def dest: enc_parts
          split: spec_content.splits option.splits if_splits)
  qed
  then have same: "?f (sa_spec a) = f" using f(2) by (cases f) simp
  have files1: "sd_files d1 = List.map (\<lambda>h. if sf_name h = ?p then ?f s else h) (sd_files d)"
    using put_file_existing [OF f(1) _ order(1), of "?f s"] f(2) by (simp add: d1)
  have "?f s \<in> set (sd_files d1)" using f(1,2) by (force simp: files1)
  from put_file_existing [OF this _ order(2), of "?f (sa_spec a)"]
  have "put_file f (sd_files d1) = List.map (\<lambda>h. if sf_name h = ?p then f else h) (sd_files d1)"
    unfolding same by (simp add: f(2))
  also have "\<dots> = List.map (\<lambda>h. if sf_name h = ?p then f else h) (sd_files d)"
    by (simp add: files1)
  also have "\<dots> = sd_files d"
    using in_order_inj [OF order(1) _ f(1)] f(2) by (intro map_idI) auto
  finally have again: "put_file f (sd_files d1) = sd_files d" .
  have res1: "resolve_artifact i d1 = Inr (Some (a\<lparr>sa_spec := s\<rparr>))"
    and mode: "sd_mode d1 = sd_mode d" and ok1: "dir_ok d1"
    using saved by simp_all
  have "new_content d1 = new_content d" using mode by (simp add: fun_eq_iff new_content_def)
  with write_existing [OF ok1 res1, of "sa_spec a"] enc mode same again
  have "write_spec (sa_logical a) (sa_spec a) d1 = Inr d" by (simp add: d1)
  then show ?thesis by (simp add: save_while_locked_def save_unlocked_def enc mode)
qed

end
