(* ===== verification/Task_Gate.thy ===== *)
theory Task_Gate
  imports Test_Evidence Spec_Transition Item_Manager
begin

text \<open>
  Enforcement between tasks, work items and specs: the work item gate (core/workitem_gate.py), the
  phase transitions it guards (core/phase.py) and the advance of a work item when its last task
  closes (core/workitem_lifecycle.py). What these read of other files is an argument: whether a
  task's plan carries a task anchor, what the plan-assumption check reports, whether a design
  document exists, and the outcome of lifecycle hooks.
\<close>

section \<open>The work item gate (core/workitem_gate.py)\<close>

datatype gate_error =
    Bound_Spec_Unresolved str
  | Spec_Fault spec_error
  | Store_Fault exn

record gate_result =
  gr_ok :: bool
  gr_reason :: "str option"

definition approved_statuses :: "spec_status list" where
  "approved_statuses = [Approved, Dispatched, Implemented]"

definition lift_spec :: "spec_error + 'a \<Rightarrow> gate_error + 'a" where
  "lift_spec r = (case r of Inl e \<Rightarrow> Inl (Spec_Fault e) | Inr x \<Rightarrow> Inr x)"

text \<open>\<open>items.get(id)\<close>: an id that is no file name raises.\<close>

definition get_item :: "str \<Rightarrow> item_db \<Rightarrow> gate_error + work_item option" where
  "get_item i db = (case check_id i of Inl e \<Rightarrow> Inl (Store_Fault e) | Inr _ \<Rightarrow> Inr (item_get db i))"

definition slug_candidates :: "task \<Rightarrow> spec list \<Rightarrow> spec list" where
  "slug_candidates t specs =
     filter (\<lambda>s. sp_task_slug s = Some (tk_slug t) \<and> sp_status s \<in> set approved_statuses) specs"

definition slug_fallback :: "task \<Rightarrow> work_item option \<Rightarrow> spec_dir \<Rightarrow> gate_error + spec option" where
  "slug_fallback t wi d =
     (case wi of None \<Rightarrow> Inr None
      | Some e \<Rightarrow>
          if it_kind e \<noteq> Feature then Inr None
          else rbind (lift_spec (list_strict d)) (\<lambda>specs.
            (case slug_candidates t specs of
               [] \<Rightarrow> Inr None
             | [s] \<Rightarrow> Inr (Some s)
             | ss \<Rightarrow> Inl (Bound_Spec_Unresolved (join '', '' (sort (List.map sp_id ss)))))))"

definition resolve_bound_spec :: "task \<Rightarrow> item_db \<Rightarrow> spec_dir \<Rightarrow> gate_error + spec option" where
  "resolve_bound_spec t items d =
     (case tk_work_item_id t of
        None \<Rightarrow> slug_fallback t None d
      | Some wid \<Rightarrow> rbind (get_item wid items) (\<lambda>wi.
          case wi of
            None \<Rightarrow> slug_fallback t None d
          | Some e \<Rightarrow>
              if truthy (it_spec_id e) then
                rbind (lift_spec (read_strict (the (it_spec_id e)) d)) (\<lambda>bound.
                  case bound of None \<Rightarrow> Inl (Bound_Spec_Unresolved (the (it_spec_id e))) | Some s \<Rightarrow> Inr (Some s))
              else slug_fallback t (Some e) d))"

definition approved_bound :: "spec option \<Rightarrow> bool" where
  "approved_bound s = (case s of None \<Rightarrow> False | Some x \<Rightarrow> sp_status x \<in> set approved_statuses)"

definition feature_has_approved_spec :: "task \<Rightarrow> item_db \<Rightarrow> spec_dir \<Rightarrow> gate_error + bool" where
  "feature_has_approved_spec t items d = (case resolve_bound_spec t items d of
     Inl (Bound_Spec_Unresolved m) \<Rightarrow> Inr False
   | Inl e \<Rightarrow> Inl e
   | Inr s \<Rightarrow> Inr (approved_bound s))"

record gate_reads =
  ga_has_plan :: "work_item \<Rightarrow> task \<Rightarrow> bool"
  ga_assumptions :: "work_item \<Rightarrow> task \<Rightarrow> str option"
  ga_docs_dir :: str

definition refuse :: "str \<Rightarrow> gate_error + gate_result" where
  "refuse why = Inr \<lparr>gr_ok = False, gr_reason = Some why\<rparr>"

definition no_work_item :: str where
  "no_work_item = ''no WorkItem '' @ em_dash @ '' create one with `mship item new --kind <kind>` ''
     @ ''and spawn with `--work-item <id>` (or pass `--hotfix` to override)''"

definition no_approved_spec :: str where
  "no_approved_spec = ''feature WorkItem requires an approved spec before dev/finish ''
     @ ''(approve it in Ground Control, or `--hotfix` to override)''"

definition no_plan :: "gate_reads \<Rightarrow> str \<Rightarrow> str \<Rightarrow> str" where
  "no_plan reads slug wid = ''feature WorkItem requires an implementation plan before dev/finish ''
     @ em_dash @ '' write one (writing-plans) at '' @ ga_docs_dir reads @ ''/plans/<date>-'' @ slug
     @ ''.md, or link it with `mship item link-plan '' @ wid @ '' <path>`. ''
     @ ''Use --bypass-plan-gate / --hotfix to skip.''"

definition check_task_gate ::
  "gate_reads \<Rightarrow> bool \<Rightarrow> bool \<Rightarrow> task \<Rightarrow> item_db \<Rightarrow> spec_dir \<Rightarrow> gate_error + gate_result" where
  "check_task_gate reads require_plan require_assumptions t items d =
     (case tk_work_item_id t of
        None \<Rightarrow> refuse no_work_item
      | Some wid \<Rightarrow> rbind (get_item wid items) (\<lambda>found.
          case found of
            None \<Rightarrow> refuse (''work_item_id '' @ quoted wid @ '' not found'')
          | Some e \<Rightarrow>
              rbind (if it_kind e = Feature then feature_has_approved_spec t items d else Inr True) (\<lambda>spec_ok.
              if \<not> spec_ok then refuse no_approved_spec
              else if require_plan \<and> it_kind e = Feature \<and> \<not> ga_has_plan reads e t
              then refuse (no_plan reads (tk_slug t) wid)
              else (case (if require_assumptions \<and> it_kind e = Feature then ga_assumptions reads e t else None) of
                      Some why \<Rightarrow> refuse why
                    | None \<Rightarrow> Inr \<lparr>gr_ok = True, gr_reason = None\<rparr>))))"

section \<open>Phase transitions (core/phase.py)\<close>

datatype phase_error =
    Finished_Task str
  | Spec_Gate str
  | Hook_Required str
  | Task_Fault exn

definition phase_name :: "task_phase \<Rightarrow> str" where
  "phase_name p = (case p of Plan \<Rightarrow> ''plan'' | Dev \<Rightarrow> ''dev'' | Review \<Rightarrow> ''review'' | Run \<Rightarrow> ''run'')"

definition phase_index :: "task_phase \<Rightarrow> nat" where
  "phase_index p = (case p of Plan \<Rightarrow> 0 | Dev \<Rightarrow> 1 | Review \<Rightarrow> 2 | Run \<Rightarrow> 3)"

record phase_config =
  pc_require_approved_spec :: bool
  pc_assumption_enforced :: bool
  pc_capture_repos :: "str list"

text \<open>
  The manager's surroundings: configuration, the reads of other files, and hooks, which report the
  failures of optional hooks or the failure of a required one.
\<close>

record phase_env =
  pe_root :: bool
  pe_config :: "phase_config option"
  pe_reads :: gate_reads
  pe_spec_document :: bool
  pe_hooks :: "task_phase \<Rightarrow> str + (str \<times> str) list"
  pe_now :: dt

record phase_world =
  pw_tasks :: task_db
  pw_items :: item_db
  pw_specs :: spec_dir
  pw_journal :: "journal_entry list"
  pw_notes :: "(str \<times> str) list"
  pw_bypasses :: "(str \<times> str) list"

record transition_flags =
  tf_force_unblock :: bool
  tf_force_finished :: bool
  tf_bypass_spec :: bool
  tf_bypass_plan :: bool

definition log_hotfix :: "str \<Rightarrow> str \<Rightarrow> phase_world \<Rightarrow> phase_world" where
  "log_hotfix op slug w = w\<lparr>pw_bypasses := pw_bypasses w @ [(op, slug)]\<rparr>"

definition log_note :: "str \<Rightarrow> str \<Rightarrow> phase_world \<Rightarrow> phase_world" where
  "log_note slug words w = w\<lparr>pw_notes := pw_notes w @ [(slug, words)]\<rparr>"

definition enforced :: "phase_env \<Rightarrow> bool" where
  "enforced env = (case pe_config env of None \<Rightarrow> False | Some c \<Rightarrow> pc_assumption_enforced c)"

definition has_approved_spec :: "phase_env \<Rightarrow> task \<Rightarrow> phase_world \<Rightarrow> bool" where
  "has_approved_spec env t w = (pe_root env \<and> (case resolve_bound_spec t (pw_items w) (pw_specs w) of
     Inl e \<Rightarrow> False | Inr s \<Rightarrow> approved_bound s))"

text \<open>The gates of plan to dev without a bypass; the result is whether the plan bypass mattered.\<close>

definition dev_gates :: "phase_env \<Rightarrow> transition_flags \<Rightarrow> task \<Rightarrow> phase_world \<Rightarrow> phase_error + bool" where
  "dev_gates env fl t w =
     rbind (if \<not> pe_root env then Inr False
       else (case check_task_gate (pe_reads env) (\<not> tf_bypass_plan fl) (enforced env \<and> \<not> tf_bypass_plan fl)
                 t (pw_items w) (pw_specs w) of
           Inl e \<Rightarrow> Inl (Spec_Gate ''couldn't evaluate WorkItem gate (corrupt store?)'')
         | Inr g \<Rightarrow>
             if \<not> gr_ok g then Inl (Spec_Gate (case gr_reason g of None \<Rightarrow> [] | Some r \<Rightarrow> r))
             else if tf_bypass_plan fl then
               Inr (case check_task_gate (pe_reads env) True (enforced env) t (pw_items w) (pw_specs w) of
                 Inl e \<Rightarrow> False | Inr g' \<Rightarrow> \<not> gr_ok g')
             else Inr False)) (\<lambda>effective.
     if (case pe_config env of None \<Rightarrow> False | Some c \<Rightarrow> pc_require_approved_spec c)
        \<and> \<not> has_approved_spec env t w
     then Inl (Spec_Gate (''Task '' @ quoted (tk_slug t) @ '' has no bound approved spec. ''
       @ ''Create and approve one (`mship spec approve`) or pass --bypass-spec-gate to skip this check.''))
     else Inr effective)"

definition gate_dev :: "phase_env \<Rightarrow> str list" where
  "gate_dev env = (if pe_config env = None \<or> \<not> pe_root env \<or> \<not> pe_spec_document env
     then [''No spec found '' @ em_dash @ '' consider writing one before developing ''
       @ ''(create one with `mship spec new` or set `spec_paths` in mothership.yaml)'']
     else [])"

definition unverified_ac_warnings :: "phase_env \<Rightarrow> task \<Rightarrow> phase_world \<Rightarrow> str list" where
  "unverified_ac_warnings env t w =
     (if \<not> pe_root env then []
      else (case resolve_bound_spec t (pw_items w) (pw_specs w) of
          Inl e \<Rightarrow> [] | Inr None \<Rightarrow> []
        | Inr (Some s) \<Rightarrow>
            (let repos = (case pe_config env of None \<Rightarrow> []
                   | Some c \<Rightarrow> filter (\<lambda>r. r \<in> set (tk_affected_repos t)) (pc_capture_repos c));
                 msg = unevidenced_warning s repos
             in if msg = [] then [] else [msg])))"

definition gate_review :: "phase_env \<Rightarrow> task \<Rightarrow> phase_world \<Rightarrow> str list" where
  "gate_review env t w =
     (let lines = format_missing_summary (read_evidence None t (pw_journal w))
      in (case lines of [] \<Rightarrow> [] | l # ls \<Rightarrow> (l @ '' '' @ em_dash @ '' consider running tests before review'') # ls)
         @ unverified_ac_warnings env t w)"

definition check_gates :: "phase_env \<Rightarrow> task \<Rightarrow> task_phase \<Rightarrow> phase_world \<Rightarrow> str list" where
  "check_gates env t target w =
     (if phase_index target \<le> phase_index (tk_phase t) then []
      else (case target of Dev \<Rightarrow> gate_dev env | Review \<Rightarrow> gate_review env t w | _ \<Rightarrow> []))"

definition enter_phase :: "task_phase \<Rightarrow> bool \<Rightarrow> dt \<Rightarrow> task \<Rightarrow> task" where
  "enter_phase target unblock now t =
     (if unblock then t\<lparr>tk_blocked_reason := None, tk_blocked_at := None\<rparr> else t)
       \<lparr>tk_phase := target, tk_phase_entered_at := Some now, tk_last_activity_at := Some now\<rparr>"

definition hook_warnings :: "task_phase \<Rightarrow> (str \<times> str) list \<Rightarrow> str list" where
  "hook_warnings target fails = List.map (\<lambda>(name, err). ''lifecycle hook '' @ quoted name
     @ '' for phase.entered.'' @ phase_name target @ '' failed: '' @ err) fails"

definition forced_warnings :: "transition_flags \<Rightarrow> task \<Rightarrow> task_phase \<Rightarrow> str list" where
  "forced_warnings fl t target =
     (case tk_finished_at t of
        Some at \<Rightarrow> if tf_force_finished fl \<and> target \<noteq> Run
          then [''Task was finished (at '' @ isoformat at @ '') '' @ em_dash @ '' forced transition to ''
            @ phase_name target] else []
      | None \<Rightarrow> [])
     @ (case tk_blocked_reason t of
          Some why \<Rightarrow> if tf_force_unblock fl
            then [''Task was blocked: '' @ why @ '' '' @ em_dash @ '' force-unblocked by phase transition''] else []
        | None \<Rightarrow> [])"

definition commit_transition ::
  "phase_env \<Rightarrow> str \<Rightarrow> task \<Rightarrow> task_phase \<Rightarrow> bool \<Rightarrow> bool \<Rightarrow> phase_world \<Rightarrow> phase_error + phase_world" where
  "commit_transition env slug t target unblock effective w =
     (case mutate_task slug (\<lambda>u. Inr (enter_phase target unblock (pe_now env) u)) (pw_tasks w) of
        Inl e \<Rightarrow> Inl (Task_Fault e)
      | Inr (_, db) \<Rightarrow>
          (let w1 = w\<lparr>pw_tasks := db\<rparr>;
               w2 = (if unblock then log_note slug (''Unblocked (forced phase transition to ''
                       @ phase_name target @ '')'') w1 else w1);
               w3 = log_note slug (''Phase transition: '' @ phase_name (tk_phase t) @ '' ''
                       @ [CHR 0xE2, CHR 0x86, CHR 0x92] @ '' '' @ phase_name target) w2
           in Inr (if effective \<and> pe_root env then log_hotfix ''phase-dev-plan'' slug w3 else w3)))"

text \<open>An outcome carries the world even when it is an error: the bypass log is written before.\<close>

definition transition ::
  "phase_env \<Rightarrow> str \<Rightarrow> task_phase \<Rightarrow> transition_flags \<Rightarrow> phase_world \<Rightarrow> (phase_error + (task_phase \<times> str list)) \<times> phase_world" where
  "transition env slug target fl w =
     (case task_get (pw_tasks w) slug of
        None \<Rightarrow> (Inl (Task_Fault (KeyError slug)), w)
      | Some t \<Rightarrow>
        if tk_finished_at t \<noteq> None \<and> target \<noteq> Run \<and> \<not> tf_force_finished fl
        then (Inl (Finished_Task slug), w)
        else
          (let guarded = (tk_phase t = Plan \<and> target = Dev);
               w1 = (if guarded \<and> tf_bypass_spec fl \<and> pe_root env then log_hotfix ''phase-dev'' slug w else w)
           in case (if guarded \<and> \<not> tf_bypass_spec fl then dev_gates env fl t w1 else Inr False) of
                Inl e \<Rightarrow> (Inl e, w1)
              | Inr effective \<Rightarrow>
                  (let warnings = check_gates env t target w1 @ forced_warnings fl t target;
                       unblock = (tk_blocked_reason t \<noteq> None \<and> tf_force_unblock fl)
                   in case (if pe_config env \<noteq> None \<and> pe_root env then pe_hooks env target else Inr []) of
                        Inl e \<Rightarrow> (Inl (Hook_Required e), w1)
                      | Inr fails \<Rightarrow>
                          (case commit_transition env slug t target unblock effective w1 of
                             Inl e \<Rightarrow> (Inl e, w1)
                           | Inr w2 \<Rightarrow> (Inr (target, warnings @ hook_warnings target fails), w2)))))"

section \<open>Closing the last task (core/workitem_lifecycle.py)\<close>

definition other_live_task :: "str \<Rightarrow> str \<Rightarrow> task dict \<Rightarrow> bool" where
  "other_live_task slug wid ts \<longleftrightarrow>
     list_ex (\<lambda>(s, t). s \<noteq> slug \<and> tk_work_item_id t = Some wid) ts"

definition advance_workitem_on_close ::
  "task \<Rightarrow> task dict \<Rightarrow> int \<Rightarrow> int \<Rightarrow> bool \<Rightarrow> dt \<Rightarrow> item_db \<times> spec_dir \<Rightarrow> gate_error + (item_db \<times> spec_dir)" where
  "advance_workitem_on_close t live merged closed without_prs now w =
     (if \<not> truthy (tk_work_item_id t) then Inr w
      else if \<not> without_prs \<and> (merged = 0 \<or> closed > 0) then Inr w
      else (let wid = the (tk_work_item_id t) in
        rbind (get_item wid (fst w)) (\<lambda>found.
        case found of None \<Rightarrow> Inr w
        | Some e \<Rightarrow>
            if it_phase_override e \<noteq> None then Inr w
            else if other_live_task (tk_slug t) wid live then Inr w
            else (case it_spec_id e of
                Some sid \<Rightarrow>
                  rbind (lift_spec (resolve_artifact sid (snd w))) (\<lambda>artifact.
                  case artifact of None \<Rightarrow> Inr w
                  | Some a \<Rightarrow>
                      if sp_status (sa_spec a) \<noteq> Approved \<and> sp_status (sa_spec a) \<noteq> Dispatched then Inr w
                      else rbind (lift_spec (save_while_locked ((sa_spec a)\<lparr>sp_status := Implemented,
                             sp_updated_at := now\<rparr>) artifact (snd w))) (\<lambda>sd.
                        (case set_phase_override wid None (Some now) (fst w) of
                           Inl er \<Rightarrow> Inl (Store_Fault er) | Inr (_, db) \<Rightarrow> Inr (db, snd sd))))
              | None \<Rightarrow>
                  (case set_phase_override wid (Some Done) (Some now) (fst w) of
                     Inl er \<Rightarrow> Inl (Store_Fault er) | Inr (_, db) \<Rightarrow> Inr (db, snd w))))))"

end
