(* ===== verification/Work_Index.thy ===== *)
theory Work_Index
  imports Item_Manager Specs
begin

text \<open>
  The projections over work items: phase, attention and summaries (core/view/workitem_index.py),
  the triage queue (core/view/queue.py), and the selection, prompt and tick of the unattended
  runner (core/run_select.py, core/run_dispatch.py, core/runner.py). The runner's edges - the claim
  store, the prompt builder, git, blocking a task - are arguments, as they are in the code.
\<close>

section \<open>Phase and attention (core/view/workitem_index.py)\<close>

definition spec_phase :: "spec_status \<Rightarrow> item_phase" where
  "spec_phase st = (case st of Draft \<Rightarrow> Shaping | Needs_Review \<Rightarrow> Shaping | Approved \<Rightarrow> Ready
     | Dispatched \<Rightarrow> In_flight | Implemented \<Rightarrow> Done | Archived_Spec \<Rightarrow> Done)"

definition terminal_spec :: "spec_status \<Rightarrow> bool" where
  "terminal_spec st \<longleftrightarrow> st = Implemented \<or> st = Archived_Spec"

definition compute_phase :: "work_item \<Rightarrow> spec option \<Rightarrow> task list \<Rightarrow> item_phase" where
  "compute_phase e s ts = (case it_phase_override e of Some p \<Rightarrow> p
     | None \<Rightarrow>
        if (case s of None \<Rightarrow> False | Some x \<Rightarrow> terminal_spec (sp_status x)) then Done
        else if ts \<noteq> [] then
          (if list_ex (\<lambda>t. tk_finished_at t = None) ts then In_flight else In_review)
        else (case s of Some x \<Rightarrow> spec_phase (sp_status x) | None \<Rightarrow> Inbox))"

record attention =
  at_needs_approval :: bool
  at_needs_decision :: bool
  at_blocked :: bool
  at_needs_review :: bool
  at_blocked_tasks :: nat
  at_total_tasks :: nat

definition compute_attention :: "spec option \<Rightarrow> task list \<Rightarrow> thread list \<Rightarrow> attention" where
  "compute_attention s ts ths =
     (let blocked = length (filter (\<lambda>t. tk_blocked_reason t \<noteq> None) ts)
      in \<lparr>at_needs_approval = (case s of None \<Rightarrow> False | Some x \<Rightarrow> sp_status x = Needs_Review),
          at_needs_decision = list_ex (\<lambda>t. needs_you t \<or> needs_decision t) ths,
          at_blocked = (blocked > 0), at_needs_review = list_ex (\<lambda>t. tk_pr_urls t \<noteq> []) ts,
          at_blocked_tasks = blocked, at_total_tasks = length ts\<rparr>)"

record item_summary =
  su_id :: str
  su_title :: str
  su_kind :: item_kind
  su_workspace :: str
  su_phase :: item_phase
  su_attention :: attention
  su_created_at :: dt
  su_updated_at :: dt
  su_spec_id :: "str option"
  su_task_slugs :: "str list"
  su_thread_ids :: "str list"
  su_external_links :: "external_link list"
  su_unattended :: bool
  su_active_phase :: "task_phase option"
  su_active_last_activity :: "dt option"
  su_affected_repos :: "str list"
  su_pr_urls :: "str list"

text \<open>\<open>max(ts, key=...)\<close>: the first of the greatest. Activity times are aware.\<close>

fun latest_from :: "task \<Rightarrow> task list \<Rightarrow> task" where
  "latest_from best [] = best"
| "latest_from best (t # ts) =
     (case (tk_last_activity_at best, tk_last_activity_at t) of
        (Some a, Some b) \<Rightarrow> latest_from (if instant a < instant b then t else best) ts
      | _ \<Rightarrow> latest_from best ts)"

definition active_task :: "task list \<Rightarrow> task option" where
  "active_task ts =
     (let unfinished = filter (\<lambda>t. tk_finished_at t = None) ts;
          active = filter (\<lambda>t. tk_last_activity_at t \<noteq> None) unfinished
      in case unfinished of [] \<Rightarrow> None
         | u # _ \<Rightarrow> (case active of [] \<Rightarrow> Some u | a # as \<Rightarrow> Some (latest_from a as)))"

text \<open>\<open>specs_by_id.get(item.spec_id) if item.spec_id else None\<close>, and the linked tasks and threads.\<close>

definition linked_spec :: "spec dict \<Rightarrow> work_item \<Rightarrow> spec option" where
  "linked_spec specs e = (if truthy (it_spec_id e) then map_of specs (the (it_spec_id e)) else None)"

definition linked :: "'v dict \<Rightarrow> str list \<Rightarrow> 'v list" where
  "linked d ks = List.map_filter (map_of d) ks"

definition summarize :: "spec dict \<Rightarrow> task dict \<Rightarrow> thread dict \<Rightarrow> work_item \<Rightarrow> item_summary" where
  "summarize specs tasks threads e =
     (let s = linked_spec specs e; ts = linked tasks (it_task_slugs e);
          active = active_task ts; ths = linked threads (it_thread_ids e)
      in \<lparr>su_id = it_id e, su_title = it_title e, su_kind = it_kind e, su_workspace = it_workspace e,
          su_phase = compute_phase e s ts, su_attention = compute_attention s ts ths,
          su_created_at = it_created_at e, su_updated_at = it_updated_at e, su_spec_id = it_spec_id e,
          su_task_slugs = it_task_slugs e, su_thread_ids = it_thread_ids e,
          su_external_links = it_external_links e, su_unattended = it_unattended e,
          su_active_phase = map_option tk_phase active,
          su_active_last_activity = (case active of None \<Rightarrow> None | Some t \<Rightarrow> tk_last_activity_at t),
          su_affected_repos = fromkeys (it_affected_repos e @ concat (List.map tk_affected_repos ts)),
          su_pr_urls = fromkeys (it_pr_urls e @ concat (List.map (\<lambda>t. dict_values (tk_pr_urls t)) ts))\<rparr>)"

definition newest_first :: "item_summary list \<Rightarrow> item_summary list" where
  "newest_first xs = rev (sort_key (\<lambda>s. instant (su_updated_at s)) (rev xs))"

definition build_workitem_index ::
  "work_item list \<Rightarrow> spec dict \<Rightarrow> task dict \<Rightarrow> thread dict \<Rightarrow> bool \<Rightarrow> item_summary list" where
  "build_workitem_index items specs tasks threads include_archived =
     (let visible = (if \<not> include_archived then filter (\<lambda>w. \<not> it_archived w) items else items);
          summaries = List.map (summarize specs tasks threads) visible
      in newest_first (filter (\<lambda>s. su_phase s \<noteq> Done) summaries)
         @ newest_first (filter (\<lambda>s. su_phase s = Done) summaries))"

section \<open>The queue (core/view/queue.py)\<close>

datatype queue_kind = Spec_Needs_Review | Blocked_Task | Pr_Awaiting

record queue_item =
  qi_kind :: queue_kind
  qi_key :: str
  qi_workspace :: str
  qi_item_id :: str
  qi_item_title :: str
  qi_phase :: item_phase
  qi_spec_id :: "str option"
  qi_task_slug :: "str option"
  qi_blocked_reason :: "str option"
  qi_repo :: "str option"
  qi_pr_url :: "str option"

definition queue_base :: "queue_kind \<Rightarrow> str \<Rightarrow> item_summary \<Rightarrow> queue_item" where
  "queue_base k key s = \<lparr>qi_kind = k, qi_key = key, qi_workspace = su_workspace s, qi_item_id = su_id s,
     qi_item_title = su_title s, qi_phase = su_phase s, qi_spec_id = None, qi_task_slug = None,
     qi_blocked_reason = None, qi_repo = None, qi_pr_url = None\<rparr>"

definition spec_row :: "item_summary \<Rightarrow> queue_item list" where
  "spec_row s = (if at_needs_approval (su_attention s) \<and> su_spec_id s \<noteq> None
     then [(queue_base Spec_Needs_Review (''spec:'' @ su_workspace s @ '':'' @ su_id s) s)
       \<lparr>qi_spec_id := su_spec_id s\<rparr>] else [])"

definition blocked_rows :: "task dict \<Rightarrow> item_summary \<Rightarrow> queue_item list" where
  "blocked_rows tasks s = concat (List.map (\<lambda>slug. case map_of tasks slug of None \<Rightarrow> []
     | Some t \<Rightarrow> (case tk_blocked_reason t of None \<Rightarrow> []
         | Some why \<Rightarrow> [(queue_base Blocked_Task (''block:'' @ su_workspace s @ '':'' @ slug) s)
             \<lparr>qi_task_slug := Some slug, qi_blocked_reason := Some why\<rparr>])) (su_task_slugs s))"

definition pr_rows :: "task dict \<Rightarrow> item_summary \<Rightarrow> queue_item list" where
  "pr_rows tasks s = concat (List.map (\<lambda>slug. case map_of tasks slug of None \<Rightarrow> []
     | Some t \<Rightarrow> List.map (\<lambda>(repo, url).
         (queue_base Pr_Awaiting (''pr:'' @ su_workspace s @ '':'' @ slug @ '':'' @ repo) s)
           \<lparr>qi_task_slug := Some slug, qi_repo := Some repo, qi_pr_url := Some url\<rparr>) (tk_pr_urls t))
     (su_task_slugs s))"

definition assemble_queue :: "item_summary list \<Rightarrow> task dict \<Rightarrow> queue_item list" where
  "assemble_queue summaries tasks =
     (let open_items = filter (\<lambda>s. su_phase s \<noteq> Done) summaries
      in concat (List.map spec_row open_items) @ concat (List.map (blocked_rows tasks) open_items)
         @ concat (List.map (pr_rows tasks) open_items))"

section \<open>Selection (core/run_select.py)\<close>

definition item_phase_of :: "spec dict \<Rightarrow> task dict \<Rightarrow> work_item \<Rightarrow> item_phase" where
  "item_phase_of specs tasks e = compute_phase e (linked_spec specs e) (linked tasks (it_task_slugs e))"

definition runnable :: "bool dict \<Rightarrow> str list \<Rightarrow> str list \<Rightarrow> spec dict \<Rightarrow> task dict \<Rightarrow> work_item \<Rightarrow> bool" where
  "runnable approved claimed blocked specs tasks e \<longleftrightarrow>
     it_unattended e \<and> item_phase_of specs tasks e = Ready \<and>
     (case it_spec_id e of None \<Rightarrow> False
      | Some i \<Rightarrow> (case map_of approved i of None \<Rightarrow> False | Some b \<Rightarrow> b)) \<and>
     it_id e \<notin> set claimed \<and> it_id e \<notin> set blocked"

definition select_runnable ::
  "work_item list \<Rightarrow> bool dict \<Rightarrow> str list \<Rightarrow> str list \<Rightarrow> spec dict \<Rightarrow> task dict \<Rightarrow> work_item list" where
  "select_runnable items approved claimed blocked specs tasks =
     sort_key (\<lambda>e. instant (it_created_at e)) (filter (runnable approved claimed blocked specs tasks) items)"

section \<open>The prompt of a resumed run (core/run_dispatch.py)\<close>

definition show_int :: "int \<Rightarrow> str" where
  "show_int n = (if n < 0 then ''-'' @ show_nat (nat (- n)) else show_nat (nat n))"

definition last_n :: "nat \<Rightarrow> 'a list \<Rightarrow> 'a list" where
  "last_n n xs = drop (length xs - n) xs"

definition line_end :: str where
  "line_end = [CHR 0x0A]"

definition resumable_dispatch :: "str \<Rightarrow> str \<Rightarrow> int \<Rightarrow> str list \<Rightarrow> str" where
  "resumable_dispatch base branch ahead journal =
     (if ahead \<le> 0 then base
      else ''## RESUMING prior run'' @ line_end
        @ ''You are continuing WorkItem work already in progress on branch '' @ ''`'' @ branch @ ''` (''
        @ show_int ahead @ '' commit(s) ahead of base). Do NOT restart '' @ em_dash @ '' ''
        @ ''build on the existing commits. Recent journal:'' @ line_end
        @ join line_end (List.map (\<lambda>j. ''- '' @ j) (last_n 5 journal)) @ line_end @ line_end @ base)"

section \<open>One tick (core/runner.py)\<close>

record branch_state =
  bs_branch :: str
  bs_commits_ahead :: int
  bs_recent_journal :: "str list"

text \<open>
  The claim store as the runner uses it, over a state \<open>'c\<close>: claiming yields the holder in the way,
  appending to the run log may raise, and releasing is by holder.
\<close>

record 'c claim_ops =
  co_try_claim :: "str \<Rightarrow> str \<Rightarrow> 'c \<Rightarrow> exn + (str option \<times> 'c)"
  co_read_claim :: "str \<Rightarrow> 'c \<Rightarrow> exn + (str option \<times> 'c)"
  co_release :: "str \<Rightarrow> str \<Rightarrow> 'c \<Rightarrow> exn + 'c"
  co_append_log :: "str \<Rightarrow> str \<Rightarrow> 'c \<Rightarrow> 'c"

record 'c run_deps =
  rd_items :: "work_item list"
  rd_approved :: "bool dict"
  rd_claimed :: "str list"
  rd_blocked :: "str list"
  rd_specs :: "spec dict"
  rd_tasks :: "task dict"
  rd_claims :: "'c claim_ops"
  rd_base_prompt :: "work_item \<Rightarrow> str"
  rd_branch_state :: "work_item \<Rightarrow> branch_state"
  rd_mark_blocked :: "str \<Rightarrow> str \<Rightarrow> 'c \<Rightarrow> 'c"
  rd_push_branch :: "str \<Rightarrow> 'c \<Rightarrow> 'c"
  rd_holder :: str

record run_once_result =
  ro_item :: work_item
  ro_prompt :: str
  ro_holder :: str

text \<open>The best-effort steps (log, push, block) leave some state, whether or not they raised.\<close>

fun try_candidates :: "'c run_deps \<Rightarrow> work_item list \<Rightarrow> 'c \<Rightarrow> exn + (run_once_result option \<times> 'c)" where
  "try_candidates deps [] c = Inr (None, c)"
| "try_candidates deps (e # es) c =
     rbind (co_try_claim (rd_claims deps) (it_id e) (rd_holder deps) c) (\<lambda>(existing, c1).
       case existing of Some h \<Rightarrow> try_candidates deps es c1
       | None \<Rightarrow>
          (let bs = rd_branch_state deps e;
               prompt = resumable_dispatch (rd_base_prompt deps e) (bs_branch bs) (bs_commits_ahead bs)
                 (bs_recent_journal bs);
               c2 = co_append_log (rd_claims deps) (it_id e)
                 (''run claimed by '' @ rd_holder deps @ '' on branch '' @ bs_branch bs @ '' (''
                  @ show_int (bs_commits_ahead bs) @ '' commit(s) ahead of base)'') c1
           in Inr (Some \<lparr>ro_item = e, ro_prompt = prompt, ro_holder = rd_holder deps\<rparr>, c2)))"

definition run_once :: "'c run_deps \<Rightarrow> 'c \<Rightarrow> exn + (run_once_result option \<times> 'c)" where
  "run_once deps c = try_candidates deps
     (select_runnable (rd_items deps) (rd_approved deps) (rd_claimed deps) (rd_blocked deps)
       (rd_specs deps) (rd_tasks deps)) c"

definition checkpoint_bail :: "'c run_deps \<Rightarrow> str \<Rightarrow> str \<Rightarrow> 'c \<Rightarrow> exn + 'c" where
  "checkpoint_bail deps item_id reason c =
     (let c1 = co_append_log (rd_claims deps) item_id (''bailed: '' @ reason) c;
          c2 = rd_push_branch deps item_id c1;
          c3 = rd_mark_blocked deps item_id reason c2
      in rbind (co_read_claim (rd_claims deps) item_id c3) (\<lambda>(claim, c4).
           co_release (rd_claims deps) item_id
             (case claim of None \<Rightarrow> rd_holder deps | Some h \<Rightarrow> h) c4))"

end
