(* ===== verification/Spec_Properties.thy ===== *)
theory Spec_Properties
  imports Spec_Transition
begin

text \<open>What the spec operations guarantee: storage, review, approval and rejection.\<close>

section \<open>Samples\<close>

definition sample_spec :: spec where
  "sample_spec = \<lparr>sp_id = ''login'', sp_title = ''Login'', sp_status = Needs_Review,
     sp_created_at = Aware 63000000000000000 0, sp_updated_at = Aware 63000000000000000 0,
     sp_affected_repos = [''web''],
     sp_criteria = [\<lparr>ac_id = ''ac1'', ac_text = ''works'', ac_verdict = Approve, ac_evidence = [],
       ac_comment = None\<rparr>],
     sp_questions = [\<lparr>oq_id = ''q1'', oq_text = ''who'', oq_answer = Some ''all''\<rparr>], sp_non_goals = [],
     sp_risks = [], sp_task_slug = None, sp_body = [], sp_work_item_id = None, sp_clarification = None,
     sp_prose = [], sp_inbox = new_inbox\<rparr>"

definition sample_dir :: spec_dir where
  "sample_dir = \<lparr>sd_files = [\<lparr>sf_name = ''1997-05-29-login.md'', sf_content = Plain_Text (Some sample_spec)\<rparr>],
     sd_mode = Committed, sd_has_key = False\<rparr>"

lemma sample_dir_ok: "dir_ok sample_dir"
  by (simp add: dir_ok_def sample_dir_def in_order_def file_ok_def endswith_def)

lemma sample_resolves:
  "resolve_artifact ''login'' sample_dir = Inr (Some \<lparr>sa_spec = sample_spec,
     sa_logical = ''1997-05-29-login.md'', sa_physical = ''1997-05-29-login.md'', sa_encrypted = False\<rparr>)"
proof -
  have canonical: "canonical_spec_id ''1997-05-29-login.md'' = Some ''login''" by code_simp
  have "validate_spec_id ''login'' = Inr ()" by code_simp
  moreover have "endswith ''1997-05-29-login.md'' ''.enc'' = False" by code_simp
  moreover have "sp_id sample_spec = ''login''" by (simp add: sample_spec_def)
  ultimately show ?thesis
    using canonical
    by (simp add: resolve_artifact_def sample_dir_def canonical_paths_def scan_file_def read_file_def
        logical_name_def)
qed

lemma sample_save:
  "sa_encrypted a = False \<Longrightarrow>
   \<exists>d'. save_while_locked s (Some a) sample_dir = Inr (s\<lparr>sp_inbox := sp_inbox (sa_spec a)\<rparr>, d')"
  by (simp add: save_while_locked_def save_unlocked_def sample_dir_def write_spec_def Let_def)

section \<open>Storage\<close>



section \<open>Approval\<close>

lemma approved_only_from_review:
  "can_transition (status_name st) ''approved'' \<longleftrightarrow> st = Needs_Review"
  by (cases st) (simp_all add: can_transition_def allowed_transitions_def)

lemma draft_only_from:
  "can_transition (status_name st) ''draft'' \<longleftrightarrow> st = Needs_Review \<or> st = Approved"
  by (cases st) (simp_all add: can_transition_def allowed_transitions_def)



section \<open>Rejection\<close>

text \<open>C36: Requesting changes is all or nothing: when it fails for any reason - stale revision, wrong
  status, refused write or a journal that cannot be appended to - the spec directory is exactly what
  it was; when it succeeds the spec is stored as a draft with the reason and a strictly newer time,
  and the journal took the record.\<close>

theorem request_changes_atomic:
  assumes "dir_ok d" and "request_changes log actor reason now s (d, j) = (out, (d', j'))"
  shows "case out of
      Inl e \<Rightarrow> d' = d \<and> (j' = j \<or> (\<exists>journal. log = Some journal \<and> journal (sp_id s) actor reason j = (Inl e, j')))
    | Inr s' \<Rightarrow> dir_ok d' \<and> read_strict (sp_id s) d' = Inr (Some s') \<and> sp_status s' = Draft \<and>
        sp_clarification s' = Some reason \<and> strip reason \<noteq> [] \<and>
        instant (sp_updated_at s) < instant (sp_updated_at s') \<and>
        (\<forall>i. i \<noteq> sp_id s \<longrightarrow> read_strict i d' = read_strict i d) \<and>
        (case log of None \<Rightarrow> j' = j | Some journal \<Rightarrow> journal (sp_id s) actor reason j = (Inr (), j'))"
proof -
  define s1 where "s1 = s\<lparr>sp_status := Draft, sp_clarification := Some reason,
    sp_updated_at := transition_timestamp (sp_updated_at s) now\<rparr>"
  have id1: "sp_id s1 = sp_id s" by (simp add: s1_def)
  note run = assms(2) [unfolded request_changes_def, folded s1_def]
  show ?thesis
  proof (cases "strip reason = [] \<or> (\<forall>a. resolve_artifact (sp_id s) d = Inr (Some a) \<longrightarrow>
      \<not> same_revision s (sa_spec a) \<or> \<not> can_transition (status_name (sp_status s)) ''draft'' \<or>
      (\<exists>e. save_while_locked s1 (Some a) d = Inl e))")
    case True
    with run show ?thesis
      by (auto simp: assert_current_revision_def validate_transition_def
          split: sum.splits option.splits if_splits)
  next
    case False
    then obtain a s2 d2 where reason: "strip reason \<noteq> []"
      and a: "resolve_artifact (sp_id s) d = Inr (Some a)" and same: "same_revision s (sa_spec a)"
      and allowed: "can_transition (status_name (sp_status s)) ''draft''"
      and save: "save_while_locked s1 (Some a) d = Inr (s2, d2)"
      by (metis old.sum.exhaust surj_pair)
    note saved = save_locked_existing [OF assms(1) a id1 save]
    then have s2: "sp_id s2 = sp_id s" by (simp add: id1)
    note again = save_restores [OF assms(1) a s2 conjunct2 [OF conjunct2 [OF conjunct2 [OF conjunct2 [OF saved]]]]]
    have stored: "dir_ok d2 \<and> read_strict (sp_id s) d2 = Inr (Some s2) \<and> sp_status s2 = Draft \<and>
        sp_clarification s2 = Some reason \<and> instant (sp_updated_at s) < instant (sp_updated_at s2) \<and>
        (\<forall>i. i \<noteq> sp_id s \<longrightarrow> read_strict i d2 = read_strict i d)"
      using saved transition_newer [of "sp_updated_at s" now] by (simp add: read_strict_def s1_def)
    show ?thesis
    proof (cases log)
      case None
      with run reason a same allowed save have "out = Inr s2" "d' = d2" "j' = j"
        by (simp_all add: assert_current_revision_def validate_transition_def)
      with stored reason None show ?thesis by simp
    next
      case (Some journal)
      obtain res j1 where res: "journal (sp_id s) actor reason j = (res, j1)" by (cases "journal (sp_id s) actor reason j")
      show ?thesis
      proof (cases res)
        case (Inl e)
        with run reason a same allowed save Some res s2 again have "out = Inl e" "d' = d" "j' = j1"
          by (simp_all add: assert_current_revision_def validate_transition_def record_rejection_def)
        with Some res Inl show ?thesis by simp
      next
        case (Inr u)
        with run reason a same allowed save Some res s2 have "out = Inr s2" "d' = d2" "j' = j1"
          by (simp_all add: assert_current_revision_def validate_transition_def record_rejection_def)
        with stored reason Some res Inr show ?thesis by simp
      qed
    qed
  qed
qed

theorem request_changes_atomic_witness:
  "fst (snd (request_changes (Some (\<lambda>i who why j. (Inl (Journal_Error ''disk full''), j))) ''me'' ''unclear''
     (Aware 63000000000000000 0) sample_spec (sample_dir, ()))) = sample_dir \<and>
   (\<exists>s'. fst (request_changes (Some (\<lambda>i who why j. (Inr (), (i, why) # j))) ''me'' ''unclear''
     (Aware 63000000000000000 0) sample_spec (sample_dir, [])) = Inr s' \<and> sp_status s' = Draft)"
proof -
  let ?now = "Aware 63000000000000000 0"
  let ?fail = "request_changes (Some (\<lambda>i who why j. (Inl (Journal_Error ''disk full''), j))) ''me'' ''unclear''
     ?now sample_spec (sample_dir, ())"
  let ?good = "request_changes (Some (\<lambda>i who why j. (Inr (), (i, why) # j))) ''me'' ''unclear''
     ?now sample_spec (sample_dir, [])"
  have id: "sp_id sample_spec = ''login''" by (simp add: sample_spec_def)
  have same: "same_revision sample_spec sample_spec" by (simp add: same_revision_def time_eq_def)
  have move: "can_transition (status_name (sp_status sample_spec)) ''draft''"
    unfolding draft_only_from by (simp add: sample_spec_def)
  have reason: "strip ''unclear'' \<noteq> []" by code_simp
  have "\<exists>e. fst ?fail = Inl e"
    using reason same move
    by (auto simp: request_changes_def id sample_resolves assert_current_revision_def
        validate_transition_def record_rejection_def split: sum.splits)
  then obtain e where e: "fst ?fail = Inl e" by blast
  obtain out d1 j1 where fail: "?fail = (out, (d1, j1))" by (metis surj_pair)
  from request_changes_atomic [OF sample_dir_ok fail] e fail
  have failed: "fst (snd ?fail) = sample_dir" by simp
  let ?a = "\<lparr>sa_spec = sample_spec, sa_logical = ''1997-05-29-login.md'',
    sa_physical = ''1997-05-29-login.md'', sa_encrypted = False\<rparr>"
  let ?s1 = "sample_spec\<lparr>sp_status := Draft, sp_clarification := Some ''unclear'',
    sp_updated_at := transition_timestamp (sp_updated_at sample_spec) ?now\<rparr>"
  obtain d' where "save_while_locked ?s1 (Some ?a) sample_dir = Inr (?s1\<lparr>sp_inbox := sp_inbox sample_spec\<rparr>, d')"
    using sample_save [of ?a ?s1] by auto
  with reason same move have "fst ?good = Inr (?s1\<lparr>sp_inbox := sp_inbox sample_spec\<rparr>)"
    by (simp add: request_changes_def id sample_resolves assert_current_revision_def
        validate_transition_def record_rejection_def)
  with failed show ?thesis by simp
qed

section \<open>Review\<close>

text \<open>Every edit a reviewer makes to a spec.\<close>

inductive review_step :: "spec \<Rightarrow> spec \<Rightarrow> bool" where
  ask: "add_question s words = (q, s') \<Longrightarrow> review_step s s'"
| answer: "answer_question s qid reply = Inr s' \<Longrightarrow> review_step s s'"
| judge: "set_criterion_verdict s cid raw comment = Inr s' \<Longrightarrow> review_step s s'"
| judge_prose: "set_prose_verdict s sid raw comment = Inr s' \<Longrightarrow> review_step s s'"
| attach: "set_criterion_evidence s cid kind ref note = Inr s' \<Longrightarrow> review_step s s'"

inductive review_run :: "spec \<Rightarrow> spec \<Rightarrow> bool" where
  stop: "review_run s s"
| more: "review_run s s' \<Longrightarrow> review_step s' s'' \<Longrightarrow> review_run s s''"

definition spec_shape :: "spec \<Rightarrow> bool" where
  "spec_shape s \<longleftrightarrow> distinct (List.map oq_id (sp_questions s)) \<and> distinct (List.map ac_id (sp_criteria s)) \<and>
     dict_ok (sp_prose s) \<and> set (dict_keys (sp_prose s)) \<subseteq> set prose_unit_ids"

lemma review_step_shape:
  assumes "review_step s s'" and "spec_shape s"
  shows "spec_shape s' \<and> List.map ac_id (sp_criteria s') = List.map ac_id (sp_criteria s) \<and>
    set (List.map oq_id (sp_questions s)) \<subseteq> set (List.map oq_id (sp_questions s')) \<and>
    sp_status s' = sp_status s \<and> sp_id s' = sp_id s"
  using assms(1)
proof cases
  case (ask words q)
  then have "s' = s\<lparr>sp_questions := sp_questions s @ [q]\<rparr>" "oq_id q = next_question_id s"
    by (auto simp: add_question_def Let_def)
  with assms(2) next_question_id_fresh [of s] show ?thesis
    by (simp add: spec_shape_def subset_insertI)
next
  case (answer qid reply)
  then obtain qs where qs: "update_first (\<lambda>q. oq_id q = qid) (\<lambda>q. q\<lparr>oq_answer := Some reply\<rparr>) (sp_questions s) = Some qs"
    and s': "s' = s\<lparr>sp_questions := qs\<rparr>" by (auto simp: answer_question_def split: option.splits)
  from update_first_ids [OF qs, of oq_id] have "List.map oq_id qs = List.map oq_id (sp_questions s)" by simp
  with assms(2) show ?thesis unfolding spec_shape_def s' by simp
next
  case (judge cid raw comment)
  then obtain v cs where cs: "update_first (\<lambda>c. ac_id c = cid) (\<lambda>c. c\<lparr>ac_verdict := v,
      ac_comment := (if comment \<noteq> None then or_none comment else ac_comment c)\<rparr>) (sp_criteria s) = Some cs"
    and s': "s' = s\<lparr>sp_criteria := cs\<rparr>"
    by (auto simp: set_criterion_verdict_def split: option.splits if_splits)
  from update_first_ids [OF cs, of ac_id] have "List.map ac_id cs = List.map ac_id (sp_criteria s)" by simp
  with assms(2) show ?thesis unfolding spec_shape_def s' by simp
next
  case (judge_prose sid raw comment)
  then obtain v where s': "s' = s\<lparr>sp_prose := AList.update sid v (sp_prose s)\<rparr>"
    and sid: "sid \<in> set prose_unit_ids"
    by (auto simp: set_prose_verdict_def split: option.splits if_splits)
  have "set (dict_keys (AList.update sid v (sp_prose s))) \<subseteq> set prose_unit_ids"
    using assms(2) sid unfolding dict_keys_update spec_shape_def by blast
  with assms(2) show ?thesis unfolding spec_shape_def s' by simp
next
  case (attach cid kind ref remark)
  then obtain k cs where cs: "update_first (\<lambda>c. ac_id c = cid) (\<lambda>c. c\<lparr>ac_evidence :=
      ac_evidence c @ [\<lparr>ev_kind = k, ev_ref = ref, ev_note = remark\<rparr>]\<rparr>) (sp_criteria s) = Some cs"
    and s': "s' = s\<lparr>sp_criteria := cs\<rparr>"
    by (auto simp: set_criterion_evidence_def split: option.splits if_splits)
  from update_first_ids [OF cs, of ac_id] have "List.map ac_id cs = List.map ac_id (sp_criteria s)" by simp
  with assms(2) show ?thesis unfolding spec_shape_def s' by simp
qed


definition odd_spec :: spec where
  "odd_spec = sample_spec\<lparr>sp_questions := [\<lparr>oq_id = ''q09'', oq_text = ''a'', oq_answer = None\<rparr>,
     \<lparr>oq_id = ''other'', oq_text = ''b'', oq_answer = None\<rparr>]\<rparr>"


end
