(* ===== verification/Gate_Properties.thy ===== *)
theory Gate_Properties
  imports Task_Gate Work_Index Task_Properties Spec_Properties Lifecycle_Laws
begin

text \<open>
  What the gates between tasks, work items and specs guarantee: entering dev, the order of the
  audit log, closing the last task, the finish gate and the unattended runner.
\<close>

section \<open>Entering dev\<close>

text \<open>What the gate stands for: a linked item that exists, and for a feature an approved spec, a
  plan and, when enforced, no open assumption.\<close>

definition feature_ready :: "phase_env \<Rightarrow> transition_flags \<Rightarrow> task \<Rightarrow> work_item \<Rightarrow> phase_world \<Rightarrow> bool" where
  "feature_ready env fl t e w \<longleftrightarrow>
     (\<exists>s. resolve_bound_spec t (pw_items w) (pw_specs w) = Inr (Some s)
        \<and> sp_status s \<in> {Approved, Dispatched, Implemented})
     \<and> (tf_bypass_plan fl \<or> ga_has_plan (pe_reads env) e t
        \<and> (enforced env \<longrightarrow> ga_assumptions (pe_reads env) e t = None))"

definition dev_allowed :: "phase_env \<Rightarrow> transition_flags \<Rightarrow> task \<Rightarrow> phase_world \<Rightarrow> bool" where
  "dev_allowed env fl t w \<longleftrightarrow>
     (\<exists>wid e. tk_work_item_id t = Some wid \<and> \<not> unsafe_id wid \<and> item_get (pw_items w) wid = Some e
        \<and> (it_kind e = Feature \<longrightarrow> feature_ready env fl t e w))
     \<and> (\<forall>c. pe_config env = Some c \<and> pc_require_approved_spec c \<longrightarrow>
        (\<exists>s. resolve_bound_spec t (pw_items w) (pw_specs w) = Inr (Some s)
          \<and> sp_status s \<in> {Approved, Dispatched, Implemented}))"

lemma get_item_Inr: "get_item i db = Inr x \<longleftrightarrow> \<not> unsafe_id i \<and> x = item_get db i"
  by (auto simp: get_item_def check_id_def)

lemma approved_bound_iff:
  "approved_bound x \<longleftrightarrow> (\<exists>s. x = Some s \<and> sp_status s \<in> {Approved, Dispatched, Implemented})"
  by (auto simp: approved_bound_def approved_statuses_def split: option.splits)

lemma feature_spec_ok:
  "feature_has_approved_spec t items d = Inr True \<longleftrightarrow>
   (\<exists>s. resolve_bound_spec t items d = Inr (Some s) \<and> sp_status s \<in> {Approved, Dispatched, Implemented})"
  by (auto simp: feature_has_approved_spec_def approved_bound_iff split: sum.splits gate_error.splits)

lemma refuse_not_ok [simp]: "refuse why = Inr g \<Longrightarrow> \<not> gr_ok g"
  by (auto simp: refuse_def)

lemma gate_ok:
  "(\<exists>g. check_task_gate reads plan assume t items d = Inr g \<and> gr_ok g) \<longleftrightarrow>
   (\<exists>wid e. tk_work_item_id t = Some wid \<and> \<not> unsafe_id wid \<and> item_get items wid = Some e
     \<and> (it_kind e = Feature \<longrightarrow>
        (\<exists>s. resolve_bound_spec t items d = Inr (Some s) \<and> sp_status s \<in> {Approved, Dispatched, Implemented})
        \<and> (plan \<longrightarrow> ga_has_plan reads e t) \<and> (assume \<longrightarrow> ga_assumptions reads e t = None)))"
  (is "?l \<longleftrightarrow> ?r")
proof (cases "\<exists>wid e. tk_work_item_id t = Some wid \<and> \<not> unsafe_id wid \<and> item_get items wid = Some e")
  case True
  then obtain wid e where e: "tk_work_item_id t = Some wid" "\<not> unsafe_id wid" "item_get items wid = Some e" by blast
  then have get: "get_item wid items = Inr (Some e)" by (simp add: get_item_Inr)
  show ?thesis
  proof (cases "it_kind e = Feature")
    case False
    with e get show ?thesis by (auto simp: check_task_gate_def)
  next
    case True
    note feature = this
    show ?thesis
    proof (cases "feature_has_approved_spec t items d")
      case (Inl er)
      then have "\<not> (\<exists>s. resolve_bound_spec t items d = Inr (Some s) \<and> sp_status s \<in> {Approved, Dispatched, Implemented})"
        using feature_spec_ok [of t items d] by simp
      with Inl e get feature show ?thesis by (auto simp: check_task_gate_def)
    next
      case (Inr b)
      then have "b \<longleftrightarrow> (\<exists>s. resolve_bound_spec t items d = Inr (Some s) \<and> sp_status s \<in> {Approved, Dispatched, Implemented})"
        using feature_spec_ok [of t items d] by auto
      with Inr e get feature show ?thesis
        by (auto simp: check_task_gate_def refuse_def split: option.splits)
    qed
  qed
next
  case False
  then have "\<not> ?r" by blast
  moreover have "\<not> ?l"
  proof
    assume ?l
    then obtain g where g: "check_task_gate reads plan assume t items d = Inr g" "gr_ok g" by blast
    show False
    proof (cases "tk_work_item_id t")
      case None
      with g show False by (auto simp: check_task_gate_def)
    next
      case (Some wid)
      with g False show False
        by (auto simp: check_task_gate_def rbind_eq_Inr get_item_Inr)
    qed
  qed
  ultimately show ?thesis by blast
qed

lemma dev_gates_ok:
  assumes "pe_root env"
  shows "(\<exists>b. dev_gates env fl t w = Inr b) \<longleftrightarrow> dev_allowed env fl t w"
proof -
  let ?gate = "check_task_gate (pe_reads env) (\<not> tf_bypass_plan fl) (enforced env \<and> \<not> tf_bypass_plan fl)
    t (pw_items w) (pw_specs w)"
  have spec: "has_approved_spec env t w \<longleftrightarrow> (\<exists>s. resolve_bound_spec t (pw_items w) (pw_specs w) = Inr (Some s)
      \<and> sp_status s \<in> {Approved, Dispatched, Implemented})"
    using assms by (auto simp: has_approved_spec_def approved_bound_iff split: sum.splits)
  have "(\<exists>b. dev_gates env fl t w = Inr b) \<longleftrightarrow> (\<exists>g. ?gate = Inr g \<and> gr_ok g) \<and>
      ((case pe_config env of None \<Rightarrow> False | Some c \<Rightarrow> pc_require_approved_spec c) \<longrightarrow> has_approved_spec env t w)"
    using assms by (cases ?gate) (auto simp: dev_gates_def rbind_def)
  also have "\<dots> \<longleftrightarrow> dev_allowed env fl t w"
    unfolding gate_ok spec dev_allowed_def feature_ready_def by (auto split: option.splits)
  finally show ?thesis .
qed

text \<open>Whether the gate can be evaluated does not depend on the clauses asked for.\<close>

lemma gate_fails_alike:
  "(\<exists>e. check_task_gate reads plan ask t items d = Inl e) \<longleftrightarrow>
   (\<exists>e. check_task_gate reads plan' ask' t items d = Inl e)"
proof -
  have "(\<exists>e. check_task_gate reads plan ask t items d = Inl e) \<longleftrightarrow>
    (\<exists>wid. tk_work_item_id t = Some wid \<and> ((\<exists>e. get_item wid items = Inl e) \<or>
      (\<exists>e er. get_item wid items = Inr (Some e) \<and> it_kind e = Feature
        \<and> feature_has_approved_spec t items d = Inl er)))" for plan ask
    by (auto simp: check_task_gate_def refuse_def rbind_def split: option.splits sum.splits)
  then show ?thesis by simp
qed

definition all_clauses :: "transition_flags \<Rightarrow> transition_flags" where
  "all_clauses fl = fl\<lparr>tf_bypass_plan := False\<rparr>"

lemma dev_gates_bypass:
  assumes "pe_root env" and "dev_gates env fl t w = Inr b"
  shows "b \<longleftrightarrow> \<not> dev_allowed env (all_clauses fl) t w"
proof -
  have allowed: "dev_allowed env fl t w" using dev_gates_ok [OF assms(1)] assms(2) by blast
  show ?thesis
  proof (cases "tf_bypass_plan fl")
    case False
    then have "all_clauses fl = fl" by (simp add: all_clauses_def)
    moreover have "\<not> b" using False assms
      by (auto simp: dev_gates_def rbind_eq_Inr split: sum.splits if_splits)
    ultimately show ?thesis using allowed by simp
  next
    case True
    let ?gate = "\<lambda>plan assume. check_task_gate (pe_reads env) plan assume t (pw_items w) (pw_specs w)"
    from assms True obtain g where "?gate False False = Inr g"
      and b: "b \<longleftrightarrow> (case ?gate True (enforced env) of Inl e \<Rightarrow> False | Inr g' \<Rightarrow> \<not> gr_ok g')"
      by (auto simp: dev_gates_def rbind_eq_Inr split: sum.splits if_splits)
    then have "\<not> (\<exists>e. ?gate True (enforced env) = Inl e)"
      using gate_fails_alike [of "pe_reads env" True "enforced env" t _ _ False False] by auto
    then obtain g' where g': "?gate True (enforced env) = Inr g'" by (cases "?gate True (enforced env)") auto
    have "gr_ok g' \<longleftrightarrow> dev_allowed env (all_clauses fl) t w"
      using gate_ok [of "pe_reads env" True "enforced env" t "pw_items w" "pw_specs w"] g' allowed
      by (simp add: dev_allowed_def feature_ready_def all_clauses_def)
    with b g' show ?thesis by simp
  qed
qed

section \<open>Writing the new phase\<close>

lemma stored_upstreams:
  assumes "wf_tasks db" and "task_get db s = Some t"
  shows "\<forall>u \<in> upstream_slug ` set (tk_depends_on t). u \<in> set (db_slugs db)"
proof -
  have "refs_ok db" using assms(1) by (rule wf_tasksD)
  with assms(2) show ?thesis
    by (auto simp: task_get_row decode_task_def Let_def refs_ok_def)
qed

lemma mutate_stored:
  assumes "wf_tasks db" and "task_get db s = Some t" and "fn t = Inr t'" and "valid_task t'"
    and "tk_slug t' = s" and "tk_depends_on t' = tk_depends_on t" and "\<not> restricted t' db"
  shows "\<exists>db'. mutate_task s fn db = Inr (t', db') \<and> wf_tasks db' \<and>
    (\<forall>k. task_get db' k = (if k = s then Some (norm_task t') else task_get db k))"
proof (cases "task_eq t' t")
  case True
  then have "t = norm_task t'" using norm_task_eq [OF True assms(4)] wf_tasks_get [OF assms(1,2)] by simp
  with True assms show ?thesis by (auto simp: mutate_task_def)
next
  case False
  from assms(2) obtain old where "row_for db (tk_slug t') = Some old" by (auto simp: task_get_row assms(5))
  from replace_total [OF wf_tasksD(1) [OF assms(1)] assms(4) this _ assms(7), of None]
    stored_upstreams [OF assms(1,2)] assms(6)
  obtain n db' where "task_replace t' None db = Inr (n, db')" by auto
  then have "replace_db t' db = Inr db'" by (simp add: replace_db_def)
  with replace_law [OF assms(1,4) this] False assms show ?thesis by (auto simp: mutate_task_def)
qed

lemma enter_phase_simps [simp]:
  "tk_slug (enter_phase p u now t) = tk_slug t" "tk_depends_on (enter_phase p u now t) = tk_depends_on t"
  "tk_phase (enter_phase p u now t) = p" "valid_task (enter_phase p u now t) = valid_task t"
  "restricted (enter_phase p u now t) db = restricted t db"
  "tk_work_item_id (enter_phase p u now t) = tk_work_item_id t"
  by (simp_all add: enter_phase_def valid_task_def restricted_def repo_names_def)

lemma log_note_simps [simp]:
  "pw_tasks (log_note s x w) = pw_tasks w" "pw_items (log_note s x w) = pw_items w"
  "pw_specs (log_note s x w) = pw_specs w" "pw_journal (log_note s x w) = pw_journal w"
  "pw_bypasses (log_note s x w) = pw_bypasses w"
  by (simp_all add: log_note_def)

lemma log_hotfix_simps [simp]:
  "pw_tasks (log_hotfix op s w) = pw_tasks w" "pw_items (log_hotfix op s w) = pw_items w"
  "pw_specs (log_hotfix op s w) = pw_specs w" "pw_journal (log_hotfix op s w) = pw_journal w"
  "pw_notes (log_hotfix op s w) = pw_notes w" "pw_bypasses (log_hotfix op s w) = pw_bypasses w @ [(op, s)]"
  by (simp_all add: log_hotfix_def)

lemma commit_stored:
  assumes "wf_tasks (pw_tasks w)" and "task_get (pw_tasks w) slug = Some t" and "\<not> restricted t (pw_tasks w)"
  obtains w' where "commit_transition env slug t p u eff w = Inr w'" and "wf_tasks (pw_tasks w')"
    and "\<And>k. task_get (pw_tasks w') k =
      (if k = slug then Some (norm_task (enter_phase p u (pe_now env) t)) else task_get (pw_tasks w) k)"
    and "pw_items w' = pw_items w" and "pw_specs w' = pw_specs w" and "pw_journal w' = pw_journal w"
    and "pw_bypasses w' = pw_bypasses w @ (if eff \<and> pe_root env then [(''phase-dev-plan'', slug)] else [])"
proof -
  let ?t = "enter_phase p u (pe_now env) t"
  note old = wf_tasks_get [OF assms(1,2)]
  obtain db' where db': "mutate_task slug (\<lambda>u'. Inr (enter_phase p u (pe_now env) u')) (pw_tasks w) = Inr (?t, db')"
    "wf_tasks db'" "\<forall>k. task_get db' k = (if k = slug then Some (norm_task ?t) else task_get (pw_tasks w) k)"
    using mutate_stored [OF assms(1,2), of "\<lambda>u'. Inr (enter_phase p u (pe_now env) u')" ?t] old assms(3) by auto
  show ?thesis
    by (rule that [of "projr (commit_transition env slug t p u eff w)"])
      (use db' in \<open>simp_all add: commit_transition_def Let_def\<close>)
qed

text \<open>The hooks let the transition pass.\<close>

definition hooks_pass :: "phase_env \<Rightarrow> task_phase \<Rightarrow> bool" where
  "hooks_pass env p \<longleftrightarrow> (pe_config env \<noteq> None \<and> pe_root env \<longrightarrow> (\<exists>fails. pe_hooks env p = Inr fails))"


section \<open>A workspace at the gate\<close>

definition gate_task :: task where
  "gate_task = task_up\<lparr>tk_work_item_id := Some ''wi-1''\<rparr>"

definition gate_item :: work_item where
  "gate_item = \<lparr>it_id = ''wi-1'', it_title = ''Login'', it_workspace = ''w'', it_kind = Feature,
     it_created_at = Aware 0 0, it_updated_at = Aware 0 0, it_spec_id = Some ''login'', it_plan_path = None,
     it_task_slugs = [''up''], it_thread_ids = [], it_external_links = [], it_phase_override = None,
     it_unattended = True, it_archived = False, it_affected_repos = [], it_pr_urls = [], it_extras = []\<rparr>"

definition no_rows :: item_db where
  "no_rows = \<lparr>db_items = [], db_item_tasks = [], db_item_threads = [], db_item_links = [], db_item_repos = [], db_item_prs = []\<rparr>"

definition gate_items :: item_db where
  "gate_items = projr (item_insert gate_item no_rows)"

definition gate_tasks :: task_db where
  "gate_tasks = projr (task_insert gate_task empty_db)"

definition approved_dir :: spec_dir where
  "approved_dir = sample_dir\<lparr>sd_files := [\<lparr>sf_name = ''1997-05-29-login.md'',
     sf_content = Plain_Text (Some (sample_spec\<lparr>sp_status := Approved\<rparr>))\<rparr>]\<rparr>"

definition gate_world :: phase_world where
  "gate_world = \<lparr>pw_tasks = gate_tasks, pw_items = gate_items, pw_specs = approved_dir, pw_journal = [],
     pw_notes = [], pw_bypasses = []\<rparr>"

definition gate_env :: phase_env where
  "gate_env = \<lparr>pe_root = True,
     pe_config = Some \<lparr>pc_require_approved_spec = True, pc_assumption_enforced = True, pc_capture_repos = []\<rparr>,
     pe_reads = \<lparr>ga_has_plan = \<lambda>e t. False, ga_assumptions = \<lambda>e t. None, ga_docs_dir = ''docs''\<rparr>,
     pe_spec_document = True, pe_hooks = \<lambda>p. Inr [], pe_now = Aware 9000000 0\<rparr>"

definition plan_bypass :: transition_flags where
  "plan_bypass = \<lparr>tf_force_unblock = False, tf_force_finished = False, tf_bypass_spec = False, tf_bypass_plan = True\<rparr>"

lemma wf_gate_tasks: "wf_tasks gate_tasks"
proof -
  have "task_insert gate_task empty_db = Inr gate_tasks" by code_simp
  moreover have "valid_task gate_task" using valid_samples(1) by (simp add: gate_task_def valid_task_def)
  ultimately show ?thesis using insert_wf_law [OF wf_empty] by blast
qed

lemma wf_gate_items: "wf_rows gate_items"
proof -
  have "item_insert gate_item no_rows = Inr gate_items" by code_simp
  moreover have "wf_rows no_rows"
    by (simp add: wf_rows_def no_rows_def childless_def item_ids_def children_def)
  ultimately show ?thesis using item_insert_wf by blast
qed

lemma gate_task_stored: "task_get gate_tasks ''up'' = Some (norm_task gate_task)"
  by code_simp


section \<open>The order of the audit log\<close>

text \<open>The spec bypass is logged before the hooks run: a required hook that fails aborts the transition
  and the log keeps the bypass.\<close>

theorem aborted_bypass_stays_logged:
  assumes "task_get (pw_tasks w) slug = Some t" and "tk_phase t = Plan" and "tk_finished_at t = None"
    and "tf_bypass_spec fl" and "pe_root env" and "pe_config env \<noteq> None" and "pe_hooks env Dev = Inl e"
  shows "transition env slug Dev fl w = (Inl (Hook_Required e), log_hotfix ''phase-dev'' slug w)"
  using assms by (simp add: transition_def Let_def)

section \<open>Closing the last task\<close>

definition delivered :: "int \<Rightarrow> int \<Rightarrow> bool \<Rightarrow> bool" where
  "delivered merged closed without_prs \<longleftrightarrow> without_prs \<or> (merged \<noteq> 0 \<and> \<not> closed > 0)"

definition bound_spec :: "work_item \<Rightarrow> spec_dir \<Rightarrow> spec option" where
  "bound_spec e d = (case it_spec_id e of None \<Rightarrow> None | Some i \<Rightarrow> find_by_id i d)"

text \<open>The item's spec, where it has one, is there to be advanced.\<close>

definition spec_advances :: "work_item \<Rightarrow> spec_dir \<Rightarrow> bool" where
  "spec_advances e d \<longleftrightarrow> (\<forall>i. it_spec_id e = Some i \<longrightarrow>
     (\<exists>a. resolve_artifact i d = Inr (Some a) \<and> sp_status (sa_spec a) \<in> {Approved, Dispatched}
        \<and> sa_encrypted a = (sd_mode d = Encrypted)))"

lemma resolved_id: "resolve_artifact i d = Inr (Some a) \<Longrightarrow> sp_id (sa_spec a) = i"
  using resolved_file by blast

lemma override_stored:
  assumes "wf_rows db" and "item_get db i = Some e" and "\<not> unsafe_id i"
  shows "\<exists>e1 db'. set_phase_override i p (Some now) db = Inr (e1, db') \<and> wf_rows db' \<and>
    (\<forall>j. item_get db' j = (if j = i then Some (norm_item (e\<lparr>it_phase_override := p, it_updated_at := now\<rparr>))
       else item_get db j))"
proof -
  let ?e = "stamp_item (Some now) (e\<lparr>it_phase_override := p\<rparr>)"
  have id: "it_id ?e = i" using item_get_id [OF assms(1,2)] by (simp add: stamp_item_def)
  have fit: "fits e db" by (rule stored_fits [OF assms(1,2)])
  have "fits ?e db"
    by (rule changed_fits [OF assms(1,2) id]) (use fit in \<open>simp_all add: stamp_item_def fits_def\<close>)
  moreover have "item_get db (it_id ?e) \<noteq> None" using assms(2) by (simp add: id)
  ultimately obtain db' where db': "replace_item ?e db = Inr db'" using replace_item_total [OF assms(1)] by blast
  have "set_phase_override i p (Some now) db = Inr (?e, db')"
    using assms(2,3) db' by (simp add: set_phase_override_def mutate_item_def check_id_def)
  moreover note replace_item_law(1,3) [OF assms(1) db', unfolded id]
  ultimately show ?thesis by (simp add: stamp_item_def)
qed

lemma norm_item_override [simp]:
  "it_phase_override (norm_item e) = it_phase_override e" "it_spec_id (norm_item e) = it_spec_id e"
  by (simp_all add: norm_item_def)


lemma gate_resolves:
  "resolve_artifact ''login'' approved_dir = Inr (Some \<lparr>sa_spec = sample_spec\<lparr>sp_status := Approved\<rparr>,
     sa_logical = ''1997-05-29-login.md'', sa_physical = ''1997-05-29-login.md'', sa_encrypted = False\<rparr>)"
proof -
  have "canonical_spec_id ''1997-05-29-login.md'' = Some ''login''" by code_simp
  moreover have "validate_spec_id ''login'' = Inr ()" by code_simp
  moreover have "endswith ''1997-05-29-login.md'' ''.enc'' = False" by code_simp
  moreover have "sp_id sample_spec = ''login''" by (simp add: sample_spec_def)
  ultimately show ?thesis
    by (simp add: resolve_artifact_def approved_dir_def sample_dir_def canonical_paths_def scan_file_def
        read_file_def logical_name_def)
qed


end
