(* ===== verification/Run_State.thy ===== *)
theory Run_State
  imports Leases
begin

text \<open>
  Run claims and run logs on an orphan branch (core/run_state.py). A history is the list of its
  trees, newest first; a tree is a dictionary from path to content. What other runs push, whether the
  network answers and how git merges are arguments: before each fetch and each push the other
  runs may have changed the branch at the origin. Local git commands succeed. Commit messages, the
  standard error of git and the temporary files of a checkout are left out.
\<close>

section \<open>Files\<close>

record claim_info =
  ci_holder :: str
  ci_heartbeat :: dt

text \<open>A line of a log is a JSON record of a text and a time, or something else.\<close>

datatype log_line = Log_Json str str | Log_Bad

datatype blob = Claim_Json str str | Log_Lines "log_line list" | Junk

type_synonym tree = "blob dict"

type_synonym history = "tree list"

definition tip :: "history \<Rightarrow> tree" where
  "tip h = (case h of [] \<Rightarrow> [] | t # _ \<Rightarrow> t)"

text \<open>\<open>s.replace("..", "_")\<close>.\<close>

fun dots_out :: "str \<Rightarrow> str" where
  "dots_out (c # d # cs) = (if c = CHR ''.'' \<and> d = CHR ''.'' then CHR ''_'' # dots_out cs else c # dots_out (d # cs))"
| "dots_out cs = cs"

definition safe_name :: "str \<Rightarrow> str" where
  "safe_name i = dots_out (List.map (\<lambda>c. if c = CHR ''/'' \<or> c = CHR 0x5C then CHR ''_'' else c) i)"

definition claim_path :: "str \<Rightarrow> str" where
  "claim_path i = ''claims/'' @ safe_name i @ ''.json''"

definition log_path :: "str \<Rightarrow> str" where
  "log_path i = ''logs/'' @ safe_name i @ ''.jsonl''"

definition claim_of :: "str \<Rightarrow> tree \<Rightarrow> claim_info option" where
  "claim_of i t = (case map_of t (claim_path i) of
     Some (Claim_Json h s) \<Rightarrow> (case fromisoformat s of None \<Rightarrow> None
       | Some at \<Rightarrow> Some \<lparr>ci_holder = h, ci_heartbeat = at\<rparr>)
   | _ \<Rightarrow> None)"

definition claim_blob :: "claim_info \<Rightarrow> blob" where
  "claim_blob c = Claim_Json (ci_holder c) (isoformat (ci_heartbeat c))"

definition claim_reclaimable :: "int \<Rightarrow> claim_info option \<Rightarrow> str \<Rightarrow> dt \<Rightarrow> exn + bool" where
  "claim_reclaimable ttl existing me now =
     is_reclaimable (map_option ci_holder existing) (map_option ci_heartbeat existing) me now ttl None"

section \<open>Git\<close>

record git_env =
  ge_others :: "nat \<Rightarrow> history \<Rightarrow> history"
  ge_fetch_ok :: "nat \<Rightarrow> bool"
  ge_push_ok :: "nat \<Rightarrow> bool"
  ge_merge :: "tree \<Rightarrow> tree \<Rightarrow> tree \<Rightarrow> tree option"

record run_world =
  rw_remote :: history
  rw_head :: history
  rw_work :: tree
  rw_tick :: nat

datatype run_error = Run_State_Error str | Run_Exn exn

definition others_act :: "git_env \<Rightarrow> run_world \<Rightarrow> run_world" where
  "others_act env w = w\<lparr>rw_remote := ge_others env (rw_tick w) (rw_remote w), rw_tick := Suc (rw_tick w)\<rparr>"

text \<open>A fetch of a branch the origin does not have fails.\<close>

definition git_fetch :: "git_env \<Rightarrow> run_world \<Rightarrow> history option \<times> run_world" where
  "git_fetch env w =
     (let w1 = others_act env w
      in (if rw_remote w1 = [] \<or> \<not> ge_fetch_ok env (rw_tick w) then None else Some (rw_remote w1), w1))"

definition ends_with :: "history \<Rightarrow> history \<Rightarrow> bool" where
  "ends_with h r \<longleftrightarrow> length r \<le> length h \<and> drop (length h - length r) h = r"

text \<open>A push is accepted when it only adds commits.\<close>

definition git_push :: "git_env \<Rightarrow> run_world \<Rightarrow> bool \<times> run_world" where
  "git_push env w =
     (let w1 = others_act env w
      in if ge_push_ok env (rw_tick w) \<and> ends_with (rw_head w1) (rw_remote w1)
         then (True, w1\<lparr>rw_remote := rw_head w1\<rparr>) else (False, w1))"

definition same_tree :: "tree \<Rightarrow> tree \<Rightarrow> bool" where
  "same_tree a b \<longleftrightarrow> list_all (\<lambda>k. map_of a k = map_of b k) (dict_keys a @ dict_keys b)"

fun shared :: "history \<Rightarrow> history \<Rightarrow> nat" where
  "shared (x # xs) (y # ys) = (if x = y then Suc (shared xs ys) else 0)"
| "shared _ _ = 0"

text \<open>Replaying commits, oldest first; a commit that changes nothing any more is dropped.\<close>

fun replay :: "(tree \<Rightarrow> tree \<Rightarrow> tree \<Rightarrow> tree option) \<Rightarrow> tree \<Rightarrow> tree list \<Rightarrow> history \<Rightarrow> history option" where
  "replay merge before [] onto = Some onto"
| "replay merge before (c # cs) onto = (case merge before c (tip onto) of None \<Rightarrow> None
     | Some t \<Rightarrow> replay merge c cs (if same_tree t (tip onto) then onto else t # onto))"

definition git_rebase :: "git_env \<Rightarrow> history \<Rightarrow> history \<Rightarrow> history option" where
  "git_rebase env r h =
     (if ends_with h r then Some h
      else (let mine = length h - shared (rev h) (rev r)
        in replay (ge_merge env) (tip (drop mine h)) (rev (take mine h)) r))"

definition sync :: "git_env \<Rightarrow> run_world \<Rightarrow> run_world" where
  "sync env w = (case git_fetch env w of
     (None, w1) \<Rightarrow> w1
   | (Some r, w1) \<Rightarrow> w1\<lparr>rw_head := r, rw_work := tip r\<rparr>)"

section \<open>Commit and push\<close>

definition max_attempts :: nat where
  "max_attempts = 5"

datatype push_outcome = Pushed | Rebase_Conflict | Push_Failed str

fun push_rounds :: "git_env \<Rightarrow> nat \<Rightarrow> str \<Rightarrow> run_world \<Rightarrow> push_outcome \<times> run_world" where
  "push_rounds env 0 message w = (Push_Failed (''push rejected after 5 rebase retries: '' @ message), w)"
| "push_rounds env (Suc n) message w = (case git_push env w of
     (True, w1) \<Rightarrow> (Pushed, w1)
   | (False, w1) \<Rightarrow> (case git_fetch env w1 of
       (None, w2) \<Rightarrow> (Push_Failed ''git fetch failed: '', w2)
     | (Some r, w2) \<Rightarrow> (case git_rebase env r (rw_head w2) of
         None \<Rightarrow> (Rebase_Conflict, w2\<lparr>rw_work := tip (rw_head w2)\<rparr>)
       | Some h \<Rightarrow> push_rounds env n message (w2\<lparr>rw_head := h, rw_work := tip h\<rparr>))))"

definition commit_and_push :: "git_env \<Rightarrow> str \<Rightarrow> run_world \<Rightarrow> push_outcome \<times> run_world" where
  "commit_and_push env message w =
     (if same_tree (rw_work w) (tip (rw_head w)) then (Pushed, w)
      else push_rounds env max_attempts message (w\<lparr>rw_head := rw_work w # rw_head w\<rparr>))"

section \<open>Operations\<close>

definition write_file :: "str \<Rightarrow> blob \<Rightarrow> run_world \<Rightarrow> run_world" where
  "write_file p b w = w\<lparr>rw_work := AList.update p b (rw_work w)\<rparr>"

fun claim_rounds ::
  "git_env \<Rightarrow> int \<Rightarrow> str \<Rightarrow> str \<Rightarrow> dt \<Rightarrow> nat \<Rightarrow> run_world \<Rightarrow> (run_error + claim_info option) \<times> run_world" where
  "claim_rounds env ttl i me now 0 w =
     (let w1 = sync env w
      in case claim_of i (rw_work w1) of Some c \<Rightarrow> (Inr (Some c), w1)
         | None \<Rightarrow> (Inl (Run_State_Error (''claim contention for '' @ quoted i @ '' exceeded 5 rounds'')), w1))"
| "claim_rounds env ttl i me now (Suc n) w =
     (let w1 = sync env w; existing = claim_of i (rw_work w1)
      in case claim_reclaimable ttl existing me now of
           Inl e \<Rightarrow> (Inl (Run_Exn e), w1)
         | Inr free \<Rightarrow>
             if \<not> free then (Inr existing, w1)
             else (case commit_and_push env (''claim '' @ i @ '' by '' @ me)
                     (write_file (claim_path i) (claim_blob \<lparr>ci_holder = me, ci_heartbeat = now\<rparr>) w1) of
                 (Pushed, w2) \<Rightarrow> (Inr None, w2)
               | (Rebase_Conflict, w2) \<Rightarrow> claim_rounds env ttl i me now n w2
               | (Push_Failed m, w2) \<Rightarrow> (Inl (Run_State_Error m), w2)))"

definition try_claim ::
  "git_env \<Rightarrow> int \<Rightarrow> str \<Rightarrow> str \<Rightarrow> dt \<Rightarrow> run_world \<Rightarrow> (run_error + claim_info option) \<times> run_world" where
  "try_claim env ttl i me now w = claim_rounds env ttl i me now max_attempts w"

fun refresh_rounds :: "git_env \<Rightarrow> str \<Rightarrow> str \<Rightarrow> dt \<Rightarrow> nat \<Rightarrow> run_world \<Rightarrow> (run_error + unit) \<times> run_world" where
  "refresh_rounds env i me now 0 w = (Inr (), w)"
| "refresh_rounds env i me now (Suc n) w =
     (let w1 = sync env w
      in case claim_of i (rw_work w1) of None \<Rightarrow> (Inr (), w1)
         | Some c \<Rightarrow> if ci_holder c \<noteq> me then (Inr (), w1)
             else (case commit_and_push env (''refresh '' @ i @ '' by '' @ me)
                     (write_file (claim_path i) (claim_blob \<lparr>ci_holder = me, ci_heartbeat = now\<rparr>) w1) of
                 (Pushed, w2) \<Rightarrow> (Inr (), w2)
               | (Rebase_Conflict, w2) \<Rightarrow> refresh_rounds env i me now n w2
               | (Push_Failed m, w2) \<Rightarrow> (Inl (Run_State_Error m), w2)))"

definition refresh_claim :: "git_env \<Rightarrow> str \<Rightarrow> str \<Rightarrow> dt \<Rightarrow> run_world \<Rightarrow> (run_error + unit) \<times> run_world" where
  "refresh_claim env i me now w = refresh_rounds env i me now max_attempts w"

fun release_rounds :: "git_env \<Rightarrow> str \<Rightarrow> str \<Rightarrow> nat \<Rightarrow> run_world \<Rightarrow> (run_error + unit) \<times> run_world" where
  "release_rounds env i me 0 w = (Inr (), w)"
| "release_rounds env i me (Suc n) w =
     (let w1 = sync env w
      in case claim_of i (rw_work w1) of None \<Rightarrow> (Inr (), w1)
         | Some c \<Rightarrow> if ci_holder c \<noteq> me then (Inr (), w1)
             else (case commit_and_push env (''release '' @ i @ '' by '' @ me)
                     (w1\<lparr>rw_work := AList.delete (claim_path i) (rw_work w1)\<rparr>) of
                 (Pushed, w2) \<Rightarrow> (Inr (), w2)
               | (Rebase_Conflict, w2) \<Rightarrow> release_rounds env i me n w2
               | (Push_Failed m, w2) \<Rightarrow> (Inl (Run_State_Error m), w2)))"

definition release_claim :: "git_env \<Rightarrow> str \<Rightarrow> str \<Rightarrow> run_world \<Rightarrow> (run_error + unit) \<times> run_world" where
  "release_claim env i me w = release_rounds env i me max_attempts w"

definition read_run_claim :: "git_env \<Rightarrow> str \<Rightarrow> run_world \<Rightarrow> claim_info option \<times> run_world" where
  "read_run_claim env i w = (let w1 = sync env w in (claim_of i (rw_work w1), w1))"

definition log_lines :: "str \<Rightarrow> tree \<Rightarrow> log_line list" where
  "log_lines i t = (case map_of t (log_path i) of Some (Log_Lines ls) \<Rightarrow> ls | _ \<Rightarrow> [])"

fun append_rounds :: "git_env \<Rightarrow> str \<Rightarrow> str \<Rightarrow> dt \<Rightarrow> nat \<Rightarrow> run_world \<Rightarrow> (run_error + unit) \<times> run_world" where
  "append_rounds env i words now 0 w =
     (Inl (Run_State_Error (''append_log contention for '' @ quoted i @ '' exceeded 5 rounds'')), w)"
| "append_rounds env i words now (Suc n) w =
     (let w1 = sync env w;
          lines = log_lines i (rw_work w1) @ [Log_Json words (isoformat now)]
      in case commit_and_push env (''log '' @ i @ '': '' @ take 60 words) (write_file (log_path i) (Log_Lines lines) w1) of
           (Pushed, w2) \<Rightarrow> (Inr (), w2)
         | (Rebase_Conflict, w2) \<Rightarrow> append_rounds env i words now n w2
         | (Push_Failed m, w2) \<Rightarrow> (Inl (Run_State_Error m), w2))"

definition append_run_log :: "git_env \<Rightarrow> str \<Rightarrow> str \<Rightarrow> dt \<Rightarrow> run_world \<Rightarrow> (run_error + unit) \<times> run_world" where
  "append_run_log env i words now w = append_rounds env i words now max_attempts w"

definition read_line :: "log_line \<Rightarrow> (str \<times> dt) option" where
  "read_line l = (case l of Log_Bad \<Rightarrow> None
     | Log_Json words s \<Rightarrow> (case fromisoformat s of None \<Rightarrow> None | Some at \<Rightarrow> Some (words, at)))"

definition read_run_log :: "git_env \<Rightarrow> str \<Rightarrow> run_world \<Rightarrow> (str \<times> dt) list \<times> run_world" where
  "read_run_log env i w = (let w1 = sync env w in (List.map_filter read_line (log_lines i (rw_work w1)), w1))"

end
