(* ===== verification/Run_Claims.thy ===== *)
theory Run_Claims
  imports Run_State
begin

text \<open>
  A claim is a compare-and-swap on the branch at the origin: the merge contract of git as a
  locale, the effect of one commit-and-push under concurrent writers, and what winning and
  losing a claim mean.
\<close>

section \<open>The merge contract\<close>

text \<open>What a rebase relies on when one side changed a single file: the change carries over when the
  other side left that file alone, and conflicts unless the other side made the very same change.\<close>

locale merge_laws =
  fixes merge :: "tree \<Rightarrow> tree \<Rightarrow> tree \<Rightarrow> tree option"
  assumes merge_clean: "\<lbrakk>map_of ours = (map_of base)(p := new); map_of theirs p = map_of base p\<rbrakk>
      \<Longrightarrow> \<exists>t. merge base ours theirs = Some t \<and> map_of t = (map_of theirs)(p := new)"
    and merge_conflict: "\<lbrakk>map_of ours = (map_of base)(p := new); new \<noteq> map_of base p;
      map_of theirs p \<noteq> map_of base p; map_of theirs p \<noteq> new\<rbrakk> \<Longrightarrow> merge base ours theirs = None"
begin

lemma merge_single:
  assumes "map_of ours = (map_of base)(p := new)" and "merge base ours theirs = Some t"
    and "new \<noteq> map_of base p" and "map_of theirs p \<noteq> new"
  shows "map_of theirs p = map_of base p \<and> map_of t = (map_of theirs)(p := new)"
  using merge_conflict [OF assms(1,3)] merge_clean [OF assms(1)] assms(2,4)
  by (cases "map_of theirs p = map_of base p") force+

end

text \<open>A merge file by file keeps the contract.\<close>

definition merge_file :: "tree \<Rightarrow> tree \<Rightarrow> tree \<Rightarrow> str \<Rightarrow> blob option option" where
  "merge_file base ours theirs p =
     (if map_of ours p = map_of base p then Some (map_of theirs p)
      else if map_of theirs p = map_of base p \<or> map_of theirs p = map_of ours p then Some (map_of ours p)
      else None)"

definition three_way :: "tree \<Rightarrow> tree \<Rightarrow> tree \<Rightarrow> tree option" where
  "three_way base ours theirs =
     (let ps = dict_keys theirs @ dict_keys ours @ dict_keys base
      in if list_all (\<lambda>p. merge_file base ours theirs p \<noteq> None) ps
         then Some (List.map_filter (\<lambda>p. map_option (Pair p) (the (merge_file base ours theirs p))) ps)
         else None)"

lemma map_of_key: "map_of d p \<noteq> None \<longleftrightarrow> p \<in> set (dict_keys d)"
  by (simp add: map_of_eq_None_iff)

lemma map_of_map_filter:
  "map_of (List.map_filter (\<lambda>p. map_option (Pair p) (f p)) ps) q = (if q \<in> set ps then f q else None)"
  by (induction ps) (auto simp: List.map_filter_simps split: option.splits)

lemma three_way_Some:
  "three_way base ours theirs = Some t \<Longrightarrow> map_of t q = the (merge_file base ours theirs q)"
proof -
  let ?ps = "dict_keys theirs @ dict_keys ours @ dict_keys base"
  assume "three_way base ours theirs = Some t"
  then have t: "t = List.map_filter (\<lambda>p. map_option (Pair p) (the (merge_file base ours theirs p))) ?ps"
    by (simp add: three_way_def Let_def split: if_splits)
  show ?thesis
  proof (cases "q \<in> set ?ps")
    case False
    then have "map_of theirs q = None" "map_of ours q = None" "map_of base q = None"
      using map_of_key by (metis Un_iff set_append)+
    with False show ?thesis unfolding t map_of_map_filter merge_file_def by simp
  qed (simp only: t map_of_map_filter if_True)
qed

lemma three_way_total:
  "(\<exists>t. three_way base ours theirs = Some t) \<longleftrightarrow> (\<forall>q. merge_file base ours theirs q \<noteq> None)"
proof -
  let ?ps = "dict_keys theirs @ dict_keys ours @ dict_keys base"
  let ?P = "\<lambda>q. merge_file base ours theirs q \<noteq> None"
  have outside: "?P q" if "q \<notin> set ?ps" for q
  proof -
    from that have "map_of ours q = None" "map_of base q = None" using map_of_key by (metis Un_iff set_append)+
    then show ?thesis by (simp add: merge_file_def)
  qed
  have "list_all ?P ?ps \<longleftrightarrow> (\<forall>q. ?P q)" unfolding list_all_iff using outside by blast
  then show ?thesis by (simp add: three_way_def Let_def)
qed

interpretation three_way: merge_laws three_way
proof
  fix p new and ours base theirs :: tree
  assume ours: "map_of ours = (map_of base)(p := new)" and left: "map_of theirs p = map_of base p"
  have each: "merge_file base ours theirs q = Some (if q = p then new else map_of theirs q)" for q
    using ours left by (auto simp: merge_file_def)
  then obtain t where t: "three_way base ours theirs = Some t" using three_way_total by blast
  have "map_of t = (map_of theirs)(p := new)"
    using three_way_Some [OF t] each by (auto simp: fun_eq_iff)
  with t show "\<exists>t. three_way base ours theirs = Some t \<and> map_of t = (map_of theirs)(p := new)" by blast
next
  fix p new and ours base theirs :: tree
  assume "map_of ours = (map_of base)(p := new)" "new \<noteq> map_of base p" "map_of theirs p \<noteq> map_of base p"
    "map_of theirs p \<noteq> new"
  then have "merge_file base ours theirs p = None" by (simp add: merge_file_def)
  then show "three_way base ours theirs = None"
    using three_way_total [of base ours theirs] by (metis not_None_eq)
qed

section \<open>One commit and push among concurrent writers\<close>

text \<open>The origin after the steps of the others alone.\<close>

definition drift :: "git_env \<Rightarrow> nat \<Rightarrow> nat \<Rightarrow> history \<Rightarrow> history" where
  "drift env a b r = fold (ge_others env) [a..<b] r"

text \<open>
  The surroundings a claim relies on: git merges by the contract, a fetch of an existing branch
  succeeds, nobody rewrites the branch, and no other run writes this run's content to the file.
\<close>

definition adds_only :: "git_env \<Rightarrow> str \<Rightarrow> blob option \<Rightarrow> bool" where
  "adds_only env p new \<longleftrightarrow> (\<forall>k r. \<exists>x. ge_others env k r = x @ r
     \<and> (\<forall>c \<in> set x. map_of c p = new \<longrightarrow> map_of (tip r) p = new))"

definition git_ok :: "git_env \<Rightarrow> str \<Rightarrow> blob option \<Rightarrow> bool" where
  "git_ok env p new \<longleftrightarrow> merge_laws (ge_merge env) \<and> (\<forall>k. ge_fetch_ok env k) \<and> adds_only env p new"

lemma drift_step: "a \<le> b \<Longrightarrow> drift env a (Suc b) r = ge_others env b (drift env a b r)"
  by (simp add: drift_def)

lemma drift_self [simp]: "drift env a a r = r"
  by (simp add: drift_def)

lemma drift_trans: "a \<le> b \<Longrightarrow> b \<le> c \<Longrightarrow> drift env b c (drift env a b r) = drift env a c r"
  unfolding drift_def by (metis comp_apply fold_append le_Suc_ex upt_add_eq_append)

lemma same_tree_iff: "same_tree a b \<longleftrightarrow> map_of a = map_of b"
proof
  assume "same_tree a b"
  then have same: "map_of a k = map_of b k" if "k \<in> set (dict_keys a) \<union> set (dict_keys b)" for k
    using that by (auto simp: same_tree_def list_all_iff)
  show "map_of a = map_of b"
    using same map_of_key by (metis UnCI ext)
qed (simp add: same_tree_def list_all_iff)

lemma ends_with_iff: "ends_with h r \<longleftrightarrow> (\<exists>x. h = x @ r)"
proof
  assume "ends_with h r"
  then have "h = take (length h - length r) h @ r"
    unfolding ends_with_def by (metis append_take_drop_id)
  then show "\<exists>x. h = x @ r" ..
qed (auto simp: ends_with_def)

lemma shared_append: "shared (xs @ ys) (xs @ zs) = length xs + shared ys zs"
  by (induction xs) simp_all

lemma added_tip:
  assumes "\<forall>c \<in> set x. map_of c p = new \<longrightarrow> map_of (tip r) p = new" and "map_of (tip r) p \<noteq> new"
  shows "(\<forall>c \<in> set x. map_of c p \<noteq> new) \<and> map_of (tip (x @ r)) p \<noteq> new"
  using assms by (cases x) (auto simp: tip_def)

lemma rebase_single:
  assumes "\<forall>c \<in> set z. map_of c p \<noteq> new" and "map_of t p = new"
  shows "git_rebase env (z @ b) (t # b) = (if z = [] then Some (t # b)
    else replay (ge_merge env) (tip b) [t] (z @ b))"
proof (cases "z = []")
  case True
  then show ?thesis by (simp add: git_rebase_def ends_with_iff)
next
  case False
  from assms have out: "t \<notin> set z" by blast
  have "\<not> ends_with (t # b) (z @ b)"
  proof
    assume "ends_with (t # b) (z @ b)"
    then obtain x where "[t] = x @ z" by (auto simp: ends_with_iff append_eq_Cons_conv Cons_eq_append_conv)
    with False out show False by (cases x) auto
  qed
  moreover have "shared [t] (rev z) = 0"
  proof (cases "rev z")
    case (Cons a l)
    then have "a \<in> set z" by (metis list.set_intros(1) set_rev)
    with out have "a \<noteq> t" by blast
    with Cons show ?thesis by simp
  qed simp
  then have "shared (rev (t # b)) (rev (z @ b)) = length b"
    using shared_append [of "rev b" "[t]" "rev z"] by simp
  ultimately show ?thesis using False by (simp add: git_rebase_def)
qed

text \<open>A tree that differs from another in the content of one file.\<close>

definition set_in :: "str \<Rightarrow> blob option \<Rightarrow> tree \<Rightarrow> tree \<Rightarrow> bool" where
  "set_in p new r t \<longleftrightarrow> map_of t = (map_of r)(p := new)"

lemma set_in_at: "set_in p new r t \<Longrightarrow> map_of t p = new"
  by (simp add: set_in_def)

lemma set_in_same: "set_in p new r t \<Longrightarrow> same_tree t r \<longleftrightarrow> map_of r p = new"
  by (metis fun_upd_same fun_upd_triv same_tree_iff set_in_def)

lemma merge_set_in:
  assumes "merge_laws merge" and "set_in p new base ours" and "merge base ours theirs = Some t"
    and "map_of base p \<noteq> new" and "map_of theirs p \<noteq> new"
  shows "map_of theirs p = map_of base p \<and> set_in p new theirs t"
  using merge_laws.merge_single [OF assms(1) _ assms(3)] assms(2,4,5) by (simp add: set_in_def)

lemma set_in_refl: "map_of r p = new \<Longrightarrow> set_in p new r r"
  by (auto simp: set_in_def)

lemma push_rounds_law:
  assumes "git_ok env p new" and "rw_head w = t # rw_remote w"
    and "set_in p new (tip (rw_remote w)) t" and "map_of (tip (rw_remote w)) p \<noteq> new"
    and "push_rounds env n message w = (out, w')"
  shows "rw_tick w \<le> rw_tick w' \<and>
    (out \<noteq> Pushed \<longrightarrow> rw_remote w' = drift env (rw_tick w) (rw_tick w') (rw_remote w)) \<and>
    (out = Rebase_Conflict \<longrightarrow> drift env (rw_tick w) (rw_tick w') (rw_remote w) \<noteq> []) \<and>
    (out = Pushed \<longrightarrow>
      set_in p new (tip (drift env (rw_tick w) (rw_tick w') (rw_remote w))) (tip (rw_remote w')) \<and>
      map_of (tip (drift env (rw_tick w) (rw_tick w') (rw_remote w))) p = map_of (tip (rw_remote w)) p)"
  using assms(2-5)
proof (induction n arbitrary: w t)
  case (Suc n)
  let ?k = "rw_tick w" and ?b = "rw_remote w"
  have adds: "adds_only env p new" and fetches: "\<And>k. ge_fetch_ok env k" and merges: "merge_laws (ge_merge env)"
    using assms(1) by (simp_all add: git_ok_def)
  have new: "map_of t p = new" using Suc.prems(2) by (rule set_in_at)
  note old = Suc.prems(3)
  obtain x where x: "ge_others env ?k ?b = x @ ?b" "\<forall>c \<in> set x. map_of c p \<noteq> new" "map_of (tip (x @ ?b)) p \<noteq> new"
    using adds old added_tip unfolding adds_only_def by metis
  obtain y where y: "ge_others env (Suc ?k) (x @ ?b) = y @ x @ ?b" "\<forall>c \<in> set y. map_of c p \<noteq> new"
    "map_of (tip (y @ x @ ?b)) p \<noteq> new"
    using adds x(3) added_tip unfolding adds_only_def by metis
  have d1: "drift env ?k (Suc ?k) ?b = x @ ?b" and d2: "drift env ?k (Suc (Suc ?k)) ?b = y @ x @ ?b"
    by (simp_all add: drift_step x(1) y(1))
  show ?case
  proof (cases "ge_push_ok env ?k \<and> ends_with (t # ?b) (x @ ?b)")
    case True
    then obtain v where "t # ?b = v @ x @ ?b" by (auto simp: ends_with_iff)
    with x(2) new have "x = []" by (cases v) auto
    with True Suc.prems x(1) d1 show ?thesis by (auto simp: git_push_def others_act_def Let_def tip_def)
  next
    case False
    define w2 where "w2 = w\<lparr>rw_remote := y @ x @ ?b, rw_tick := Suc (Suc ?k)\<rparr>"
    have push: "git_push env w = (False, w\<lparr>rw_remote := x @ ?b, rw_tick := Suc ?k\<rparr>)"
      using False Suc.prems(1) x(1) by (simp add: git_push_def others_act_def Let_def)
    have fetch: "git_fetch env (w\<lparr>rw_remote := x @ ?b, rw_tick := Suc ?k\<rparr>) =
        (if y @ x @ ?b = [] then None else Some (y @ x @ ?b), w2)"
      using y(1) fetches by (simp add: git_fetch_def others_act_def w2_def Let_def)
    show ?thesis
    proof (cases "y @ x @ ?b = []")
      case True
      with Suc.prems(4) push fetch d2 show ?thesis by (auto simp: w2_def)
    next
      case False
      let ?r = "y @ x @ ?b"
      have got: "git_fetch env (w\<lparr>rw_remote := x @ ?b, rw_tick := Suc ?k\<rparr>) = (Some ?r, w2)"
        using fetch False by (simp only: if_False)
      have head2: "rw_head w2 = t # ?b" using Suc.prems(1) by (simp add: w2_def)
      have both: "\<forall>c \<in> set (y @ x). map_of c p \<noteq> new" using x(2) y(2) by auto
      have rebase: "git_rebase env ?r (t # ?b) = (if y @ x = [] then Some (t # ?b)
          else replay (ge_merge env) (tip ?b) [t] ?r)"
        using rebase_single [OF both new, of env ?b] by (simp only: append_assoc)
      show ?thesis
      proof (cases "git_rebase env ?r (t # ?b)")
        case None
        with Suc.prems(4) push got head2 d2 False show ?thesis by (auto simp: w2_def)
      next
        case (Some h)
        define w3 where "w3 = w2\<lparr>rw_head := h, rw_work := tip h\<rparr>"
        have next3: "push_rounds env n message w3 = (out, w')"
          using Suc.prems(4) push got head2 Some by (simp add: w3_def)
        have "\<exists>t'. h = t' # ?r \<and> set_in p new (tip ?r) t' \<and> map_of (tip ?r) p = map_of (tip ?b) p"
        proof (cases "y @ x = []")
          case True
          with Some rebase have "h = t # ?r" by simp
          then show ?thesis using True Suc.prems(2) by (intro exI [of _ t]) simp
        next
          case False
          with Some rebase obtain t' where t': "ge_merge env (tip ?b) t (tip ?r) = Some t'"
            "h = (if same_tree t' (tip ?r) then ?r else t' # ?r)" by (auto split: option.splits)
          from merge_set_in [OF merges Suc.prems(2) t'(1) old y(3)]
          have m: "map_of (tip ?r) p = map_of (tip ?b) p" "set_in p new (tip ?r) t'" by simp_all
          then have "\<not> same_tree t' (tip ?r)" using y(3) by (simp add: set_in_same)
          with t'(2) m show ?thesis by simp
        qed
        then obtain t' where t': "h = t' # ?r" "set_in p new (tip ?r) t'"
          "map_of (tip ?r) p = map_of (tip ?b) p" by blast
        have at3: "rw_remote w3 = ?r" "rw_tick w3 = Suc (Suc ?k)" "rw_head w3 = t' # rw_remote w3"
          by (simp_all add: w3_def w2_def t'(1))
        have later: "?k \<le> Suc (Suc ?k)" by simp
        from Suc.IH [OF at3(3) _ _ next3, unfolded at3(1,2)] t'(2,3) Suc.prems(3)
        have ih: "Suc (Suc ?k) \<le> rw_tick w' \<and>
          (out \<noteq> Pushed \<longrightarrow> rw_remote w' = drift env (Suc (Suc ?k)) (rw_tick w') ?r) \<and>
          (out = Rebase_Conflict \<longrightarrow> drift env (Suc (Suc ?k)) (rw_tick w') ?r \<noteq> []) \<and>
          (out = Pushed \<longrightarrow>
            set_in p new (tip (drift env (Suc (Suc ?k)) (rw_tick w') ?r)) (tip (rw_remote w')) \<and>
            map_of (tip (drift env (Suc (Suc ?k)) (rw_tick w') ?r)) p = map_of (tip ?r) p)" by simp
        then have "drift env (Suc (Suc ?k)) (rw_tick w') ?r = drift env ?k (rw_tick w') ?b"
          using drift_trans [OF later, of "rw_tick w'" env ?b] d2 by simp
        with ih t'(3) show ?thesis by auto
      qed
    qed
  qed
qed auto

section \<open>Claiming\<close>

text \<open>A checkout without commits belongs to a branch that does not exist.\<close>

definition synced :: "run_world \<Rightarrow> bool" where
  "synced w \<longleftrightarrow> (rw_remote w = [] \<longrightarrow> rw_head w = [] \<and> rw_work w = [])"

lemma sync_law:
  assumes "git_ok env p new" and "synced w"
  shows "rw_tick (sync env w) = Suc (rw_tick w) \<and> rw_remote (sync env w) = drift env (rw_tick w) (Suc (rw_tick w)) (rw_remote w)
    \<and> rw_head (sync env w) = rw_remote (sync env w) \<and> rw_work (sync env w) = tip (rw_remote (sync env w))"
proof -
  obtain x where x: "ge_others env (rw_tick w) (rw_remote w) = x @ rw_remote w"
    using assms(1) by (meson git_ok_def adds_only_def)
  have "ge_fetch_ok env (rw_tick w)" using assms(1) by (simp add: git_ok_def)
  with x assms(2) show ?thesis
    by (auto simp: sync_def git_fetch_def others_act_def Let_def drift_step synced_def tip_def)
qed

lemma commit_and_push_law:
  assumes "git_ok env p new" and "rw_head w = rw_remote w"
    and "set_in p new (tip (rw_remote w)) (rw_work w)"
    and "commit_and_push env message w = (out, w')"
  defines "R \<equiv> drift env (rw_tick w) (rw_tick w') (rw_remote w)"
  shows "rw_tick w \<le> rw_tick w' \<and> (out \<noteq> Pushed \<longrightarrow> rw_remote w' = R) \<and> (out = Rebase_Conflict \<longrightarrow> R \<noteq> []) \<and>
    (out = Pushed \<longrightarrow> set_in p new (tip R) (tip (rw_remote w')) \<and>
      map_of (tip R) p = map_of (tip (rw_remote w)) p)"
proof (cases "same_tree (rw_work w) (tip (rw_head w))")
  case True
  then have "map_of (tip (rw_remote w)) p = new" using assms(2) set_in_same [OF assms(3)] by simp
  moreover have "out = Pushed" "w' = w" using True assms(4) by (simp_all add: commit_and_push_def)
  ultimately show ?thesis by (simp add: R_def set_in_refl)
next
  case False
  then have "map_of (tip (rw_remote w)) p \<noteq> new" using assms(2) set_in_same [OF assms(3)] by simp
  then have old: "map_of (tip (rw_remote (w\<lparr>rw_head := rw_work w # rw_head w\<rparr>))) p \<noteq> new" by simp
  have push: "push_rounds env max_attempts message (w\<lparr>rw_head := rw_work w # rw_head w\<rparr>) = (out, w')"
    using False assms(4) by (simp add: commit_and_push_def)
  from push_rounds_law [OF assms(1) _ _ old push, of "rw_work w"] assms(2,3)
  show ?thesis by (simp add: R_def)
qed

lemma claim_of_same: "map_of a (claim_path i) = map_of b (claim_path i) \<Longrightarrow> claim_of i a = claim_of i b"
  by (simp add: claim_of_def)

lemma claim_of_own:
  assumes "set_in (claim_path i) (Some (claim_blob c)) r t" and "valid_dt (ci_heartbeat c)"
  shows "claim_of i t = Some c"
  using set_in_at [OF assms(1)] assms(2) by (simp add: claim_of_def claim_blob_def fromisoformat_isoformat)

lemma claim_rounds_law:
  assumes "git_ok env (claim_path i) (Some (claim_blob \<lparr>ci_holder = me, ci_heartbeat = now\<rparr>))"
    and "synced w" and "claim_rounds env ttl i me now n w = (out, w')"
  shows "rw_tick w \<le> rw_tick w' \<and> (case out of
      Inr None \<Rightarrow> claim_reclaimable ttl (claim_of i (tip (drift env (rw_tick w) (rw_tick w') (rw_remote w)))) me now = Inr True
        \<and> set_in (claim_path i) (Some (claim_blob \<lparr>ci_holder = me, ci_heartbeat = now\<rparr>))
          (tip (drift env (rw_tick w) (rw_tick w') (rw_remote w))) (tip (rw_remote w'))
    | Inr (Some c) \<Rightarrow> rw_remote w' = drift env (rw_tick w) (rw_tick w') (rw_remote w) \<and> claim_of i (tip (rw_remote w')) = Some c
    | Inl e \<Rightarrow> rw_remote w' = drift env (rw_tick w) (rw_tick w') (rw_remote w))"
  using assms(2,3)
proof (induction n arbitrary: w)
  case 0
  note s = sync_law [OF assms(1) 0(1)]
  from 0(2) s show ?case by (auto simp: Let_def split: option.splits)
next
  case (Suc n)
  let ?p = "claim_path i" and ?new = "Some (claim_blob \<lparr>ci_holder = me, ci_heartbeat = now\<rparr>)" and ?w1 = "sync env w"
  note s = sync_law [OF assms(1) Suc.prems(1)]
  show ?case
  proof (cases "claim_reclaimable ttl (claim_of i (rw_work ?w1)) me now")
    case (Inl e)
    with Suc.prems(2) s show ?thesis by (auto simp: Let_def)
  next
    case (Inr free)
    show ?thesis
    proof (cases free)
      case False
      then obtain c where "claim_of i (rw_work ?w1) = Some c"
        using Inr by (cases "claim_of i (rw_work ?w1)") (auto simp: claim_reclaimable_def is_reclaimable_def)
      with Suc.prems(2) s Inr False show ?thesis by (auto simp: Let_def)
    next
      case True
      let ?w2 = "write_file ?p (claim_blob \<lparr>ci_holder = me, ci_heartbeat = now\<rparr>) ?w1"
      obtain o3 w3 where go: "commit_and_push env (''claim '' @ i @ '' by '' @ me) ?w2 = (o3, w3)"
        by (cases "commit_and_push env (''claim '' @ i @ '' by '' @ me) ?w2")
      have at2: "rw_remote ?w2 = rw_remote ?w1" "rw_tick ?w2 = rw_tick ?w1" "rw_head ?w2 = rw_remote ?w2"
        "set_in ?p ?new (tip (rw_remote ?w2)) (rw_work ?w2)"
        using s by (simp_all add: write_file_def dict_simps set_in_def)
      note law = commit_and_push_law [OF assms(1) at2(3,4) go, unfolded at2(1,2)]
      have later: "rw_tick w \<le> rw_tick ?w1" using s by simp
      then have R3: "drift env (rw_tick ?w1) (rw_tick w3) (rw_remote ?w1) = drift env (rw_tick w) (rw_tick w3) (rw_remote w)"
        using drift_trans [OF later, of "rw_tick w3" env "rw_remote w"] law s by simp
      have t3: "rw_tick w \<le> rw_tick w3" using law later by linarith
      show ?thesis
      proof (cases o3)
        case Pushed
        with Suc.prems(2) Inr True go have out: "out = Inr None" "w' = w3" by (simp_all add: Let_def)
        have won: "set_in ?p ?new (tip (drift env (rw_tick w) (rw_tick w3) (rw_remote w))) (tip (rw_remote w3))"
          and kept: "map_of (tip (drift env (rw_tick w) (rw_tick w3) (rw_remote w))) ?p = map_of (tip (rw_remote ?w1)) ?p"
          using law Pushed unfolding R3 by simp_all
        have "claim_of i (tip (drift env (rw_tick w) (rw_tick w3) (rw_remote w))) = claim_of i (rw_work ?w1)"
          using claim_of_same [OF kept] s by simp
        with Inr True won t3 out show ?thesis by simp
      next
        case Rebase_Conflict
        with Suc.prems(2) Inr True go have next3: "claim_rounds env ttl i me now n w3 = (out, w')" by (simp add: Let_def)
        have at3: "rw_remote w3 = drift env (rw_tick w) (rw_tick w3) (rw_remote w)"
          using law Rebase_Conflict unfolding R3 by simp
        have "rw_remote w3 \<noteq> []" using law Rebase_Conflict unfolding R3 at3 by simp
        then have synced3: "synced w3" by (simp add: synced_def)
        note ih = Suc.IH [OF synced3 next3]
        then have same: "drift env (rw_tick w3) (rw_tick w') (rw_remote w3) = drift env (rw_tick w) (rw_tick w') (rw_remote w)"
          using drift_trans [OF t3, of "rw_tick w'" env "rw_remote w"] at3 by simp
        have "rw_tick w \<le> rw_tick w'" using ih t3 by linarith
        with ih show ?thesis unfolding same by blast
      next
        case (Push_Failed m)
        with Suc.prems(2) Inr True go have "out = Inl (Run_State_Error m)" "w' = w3" by (simp_all add: Let_def)
        with law t3 Push_Failed show ?thesis unfolding R3 by simp
      qed
    qed
  qed
qed

text \<open>What the origin would hold at the end of a call without it.\<close>

definition meanwhile :: "git_env \<Rightarrow> run_world \<Rightarrow> run_world \<Rightarrow> tree" where
  "meanwhile env w w' = tip (drift env (rw_tick w) (rw_tick w') (rw_remote w))"


section \<open>A race\<close>

text \<open>Another run claims an item right before the second network command.\<close>

definition rival_claim :: "str \<Rightarrow> nat \<Rightarrow> history \<Rightarrow> history" where
  "rival_claim i k r = (if k = 1
     then AList.update (claim_path i) (claim_blob \<lparr>ci_holder = ''rival'', ci_heartbeat = Aware 63000000000000000 0\<rparr>) (tip r) # r
     else r)"

definition race_env :: "str \<Rightarrow> (nat \<Rightarrow> bool) \<Rightarrow> git_env" where
  "race_env i fetches = \<lparr>ge_others = rival_claim i, ge_fetch_ok = fetches, ge_push_ok = (\<lambda>k. True), ge_merge = three_way\<rparr>"

definition new_checkout :: run_world where
  "new_checkout = \<lparr>rw_remote = [], rw_head = [], rw_work = [], rw_tick = 0\<rparr>"


text \<open>A fetch that fails although the branch exists counts as an absent branch: after a lost race the
  run then reads its own rejected commit back, has nothing to commit and is told it won, while
  the origin holds the live claim of the other run.\<close>

theorem failed_fetch_false_win:
  "fst (try_claim (race_env ''a'' (\<lambda>k. k \<noteq> 3)) 60000000 ''a'' ''me'' (Aware 63000000000000007 0) new_checkout) = Inr None
   \<and> claim_of ''a'' (tip (rw_remote (snd (try_claim (race_env ''a'' (\<lambda>k. k \<noteq> 3)) 60000000 ''a'' ''me''
       (Aware 63000000000000007 0) new_checkout)))) = Some \<lparr>ci_holder = ''rival'', ci_heartbeat = Aware 63000000000000000 0\<rparr>"
  by code_simp

end
