(* ===== verification/Executor.thy ===== *)
theory Executor
  imports Repo_Graph State_Manager
begin

text \<open>
  Running a task across repositories (core/executor.py, class \<open>RepoExecutor\<close>): where and with which
  environment a repository's task runs, the grouping of repositories that share a test directory,
  and \<open>execute\<close> with its tiers, health checks, recorded test results and fail-fast rule. The shell, the health
  checks, the file system, the clock and the order in which the threads of a tier finish are
  arguments. No other process writes the task store during the call. A result object that the code
  changes after it was collected is changed before it is collected here.
\<close>

section \<open>Data\<close>

record shell_result =
  sr_code :: int
  sr_out :: str
  sr_err :: str

record repo_result =
  ro_repo :: str
  ro_task_name :: str
  ro_shell :: shell_result
  ro_skipped :: bool
  ro_pid :: "int option"
  ro_health :: "(bool \<times> str) option"
  ro_millis :: int
  ro_shared_with :: "str list"

definition result_success :: "repo_result \<Rightarrow> bool" where
  "result_success r \<longleftrightarrow> ro_skipped r \<or>
     (sr_code (ro_shell r) = 0 \<and> (case ro_health r of None \<Rightarrow> True | Some h \<Rightarrow> fst h))"

record execution_result =
  xr_results :: "repo_result list"
  xr_processes :: "int list"

definition execution_success :: "execution_result \<Rightarrow> bool" where
  "execution_success x \<longleftrightarrow> list_all result_success (xr_results x)"

record command =
  cm_task :: str
  cm_cwd :: path
  cm_env_runner :: "str option"
  cm_env :: "str dict"

record exec_env =
  xe_config :: workspace_config
  xe_graph :: dep_graph
  xe_resolve :: "path \<Rightarrow> path"
  xe_exists :: "path \<Rightarrow> bool"
  xe_shell :: "str \<Rightarrow> command \<Rightarrow> shell_result \<times> int"
  xe_spawn :: "str \<Rightarrow> command \<Rightarrow> int"
  xe_health :: "str \<Rightarrow> healthcheck \<Rightarrow> path \<Rightarrow> str option \<Rightarrow> int option \<Rightarrow> bool \<times> str"
  xe_finished :: "str list \<Rightarrow> str list"
  xe_now :: "nat \<Rightarrow> dt"

datatype exec_error =
    Exec_Exn exn
  | Test_Target_Conflict path "str list" "str list" "str list"

section \<open>One repository\<close>

definition repo_named :: "exec_env \<Rightarrow> str \<Rightarrow> exec_error + repo_config" where
  "repo_named env r = (case map_of (wc_repos (xe_config env)) r of
     None \<Rightarrow> Inl (Exec_Exn (KeyError r)) | Some rc \<Rightarrow> Inr rc)"

definition lookup :: "'v dict \<Rightarrow> str \<Rightarrow> 'v \<Rightarrow> 'v" where
  "lookup d k v = (case map_of d k of None \<Rightarrow> v | Some x \<Rightarrow> x)"

definition resolve_task_name :: "repo_config \<Rightarrow> str \<Rightarrow> str" where
  "resolve_task_name rc canonical = lookup (rc_tasks rc) canonical canonical"

definition resolve_env_runner :: "exec_env \<Rightarrow> repo_config \<Rightarrow> str option" where
  "resolve_env_runner env rc = (if rc_env_runner rc \<noteq> None then rc_env_runner rc else wc_env_runner (xe_config env))"

text \<open>\<open>s.upper().replace("-", "_")\<close> on ASCII names.\<close>

definition upper_char :: "char \<Rightarrow> char" where
  "upper_char c = (let n = of_char c :: nat in if 97 \<le> n \<and> n \<le> 122 then char_of (n - 32) else c)"

definition var_name :: "str \<Rightarrow> str" where
  "var_name r = ''UPSTREAM_'' @ List.map (\<lambda>c. if c = CHR ''-'' then CHR ''_'' else upper_char c) r"

definition dep_type_name :: "dep_type \<Rightarrow> str" where
  "dep_type_name t = (case t of Compile \<Rightarrow> ''compile'' | Runtime \<Rightarrow> ''runtime'')"

definition add_upstream :: "task \<Rightarrow> dependency \<Rightarrow> str dict \<Rightarrow> str dict" where
  "add_upstream t d vars = (case map_of (tk_worktrees t) (dep_repo d) of None \<Rightarrow> vars
     | Some wt \<Rightarrow> AList.update (var_name (dep_repo d) @ ''_TYPE'') (dep_type_name (dep_type d))
         (AList.update (var_name (dep_repo d)) wt vars))"

definition resolve_upstream_env :: "repo_config \<Rightarrow> task option \<Rightarrow> str dict" where
  "resolve_upstream_env rc task = (case task of None \<Rightarrow> []
     | Some t \<Rightarrow> if tk_worktrees t = [] then [] else fold (add_upstream t) (rc_depends_on rc) [])"

definition the_task :: "task_db \<Rightarrow> str option \<Rightarrow> task option" where
  "the_task db slug = (case slug of None \<Rightarrow> None | Some s \<Rightarrow> task_get db s)"

definition resolve_cwd :: "exec_env \<Rightarrow> task_db \<Rightarrow> str option \<Rightarrow> str \<Rightarrow> exec_error + path" where
  "resolve_cwd env db slug r = rbind (repo_named env r) (\<lambda>rc.
     let worktree = (if truthy slug then (case the_task db slug of None \<Rightarrow> None
           | Some t \<Rightarrow> map_option parse_path (map_of (tk_worktrees t) r)) else None)
     in if (case worktree of None \<Rightarrow> False | Some wt \<Rightarrow> xe_exists env wt) then Inr (the worktree)
        else (case rc_git_root rc of
            Some root \<Rightarrow> rbind (repo_named env root) (\<lambda>parent. Inr (path_join (rc_path parent) (rc_path rc)))
          | None \<Rightarrow> Inr (rc_path rc)))"

definition skip_result :: "str \<Rightarrow> str \<Rightarrow> repo_result" where
  "skip_result r canonical = \<lparr>ro_repo = r, ro_task_name = ''(skipped: '' @ canonical @ '' not applicable)'',
     ro_shell = \<lparr>sr_code = 0, sr_out = '''', sr_err = ''''\<rparr>, ro_skipped = True, ro_pid = None,
     ro_health = None, ro_millis = 0, ro_shared_with = []\<rparr>"

text \<open>A foreground run waits for its process and keeps no output; a background run does not wait.\<close>

definition execute_one :: "exec_env \<Rightarrow> task_db \<Rightarrow> str option \<Rightarrow> str \<Rightarrow> str \<Rightarrow> exec_error + repo_result" where
  "execute_one env db slug canonical r = rbind (repo_named env r) (\<lambda>rc.
     if canonical \<in> set (rc_not_applicable rc) then Inr (skip_result r canonical)
     else rbind (resolve_cwd env db slug r) (\<lambda>cwd.
       let name = resolve_task_name rc canonical;
           cmd = \<lparr>cm_task = name, cm_cwd = cwd, cm_env_runner = resolve_env_runner env rc,
             cm_env = resolve_upstream_env rc (the_task db slug)\<rparr>;
           background = (canonical = ''run'' \<and> rc_background rc);
           outcome = (if background then (\<lparr>sr_code = 0, sr_out = '''', sr_err = ''''\<rparr>, 0) else xe_shell env r cmd)
       in Inr \<lparr>ro_repo = r, ro_task_name = name,
            ro_shell = (if canonical = ''run'' then (fst outcome)\<lparr>sr_out := '''', sr_err := ''''\<rparr> else fst outcome),
            ro_skipped = False,
            ro_pid = (if background then Some (xe_spawn env r cmd) else None),
            ro_health = None, ro_millis = snd outcome, ro_shared_with = []\<rparr>))"

section \<open>Shared test directories\<close>

record test_group =
  tg_cwd :: path
  tg_members :: "str list"
  tg_skipped :: "str list"
  tg_runnable :: "str list"
  tg_representative :: "str option"
  tg_task :: "str option"

type_synonym by_cwd = "(path \<times> str list) list"

fun add_member :: "path \<Rightarrow> str \<Rightarrow> by_cwd \<Rightarrow> by_cwd" where
  "add_member p r [] = [(p, [r])]"
| "add_member p r ((q, ms) # gs) = (if q = p then (q, ms @ [r]) # gs else (q, ms) # add_member p r gs)"

definition group_by_cwd :: "exec_env \<Rightarrow> task_db \<Rightarrow> str option \<Rightarrow> str list \<Rightarrow> exec_error + by_cwd" where
  "group_by_cwd env db slug repos = rfold (\<lambda>r gs. rbind (resolve_cwd env db slug r)
     (\<lambda>p. Inr (add_member (xe_resolve env p) r gs))) repos []"

definition declares_test :: "exec_env \<Rightarrow> str \<Rightarrow> bool" where
  "declares_test env m = (case map_of (wc_repos (xe_config env)) m of None \<Rightarrow> False
     | Some rc \<Rightarrow> ''test'' \<in> set (dict_keys (rc_tasks rc)))"

definition test_inapplicable :: "exec_env \<Rightarrow> str \<Rightarrow> bool" where
  "test_inapplicable env m = (case map_of (wc_repos (xe_config env)) m of None \<Rightarrow> False
     | Some rc \<Rightarrow> ''test'' \<in> set (rc_not_applicable rc))"

definition test_target :: "exec_env \<Rightarrow> str \<Rightarrow> str" where
  "test_target env m = (case map_of (wc_repos (xe_config env)) m of None \<Rightarrow> ''test''
     | Some rc \<Rightarrow> resolve_task_name rc ''test'')"

definition plan_group :: "exec_env \<Rightarrow> path \<times> str list \<Rightarrow> exec_error + test_group" where
  "plan_group env pm = (let members = snd pm;
       skipped = filter (test_inapplicable env) members;
       runnable = filter (\<lambda>m. m \<notin> set skipped) members;
       targets = remdups (List.map (test_target env) runnable);
       explicit = filter (declares_test env) runnable
     in case runnable of
       [] \<Rightarrow> Inr \<lparr>tg_cwd = fst pm, tg_members = members, tg_skipped = skipped, tg_runnable = [],
              tg_representative = None, tg_task = None\<rparr>
     | _ \<Rightarrow> if length targets > 1
         then Inl (Test_Target_Conflict (fst pm) (sort runnable) (sort explicit)
                (sort (filter (\<lambda>m. \<not> declares_test env m) runnable)))
         else Inr \<lparr>tg_cwd = fst pm, tg_members = members, tg_skipped = skipped, tg_runnable = runnable,
                tg_representative = Some (hd (sort (if explicit = [] then runnable else explicit))),
                tg_task = Some (hd targets)\<rparr>)"

definition plan_test_targets :: "exec_env \<Rightarrow> task_db \<Rightarrow> str option \<Rightarrow> str list \<Rightarrow> exec_error + test_group list" where
  "plan_test_targets env db slug repos = rbind (group_by_cwd env db slug repos) (rmap (plan_group env))"

text \<open>A member that did not run itself gets a result with the shell result of the representative.\<close>

definition expand_result :: "test_group list \<Rightarrow> repo_result \<Rightarrow> repo_result list" where
  "expand_result groups r = (case List.find (\<lambda>g. tg_representative g = Some (ro_repo r)) groups of
     None \<Rightarrow> [r]
   | Some g \<Rightarrow> if length (tg_runnable g) \<le> 1 then [r]
       else (let others = filter (\<lambda>m. m \<noteq> ro_repo r) (tg_runnable g)
         in r\<lparr>ro_shared_with := others\<rparr> # List.map (\<lambda>m. \<lparr>ro_repo = m, ro_task_name = ro_task_name r,
              ro_shell = ro_shell r, ro_skipped = False, ro_pid = None, ro_health = None, ro_millis = ro_millis r,
              ro_shared_with = filter (\<lambda>x. x \<noteq> m) (tg_runnable g)\<rparr>) others))"

section \<open>Tiers\<close>

definition check_health :: "exec_env \<Rightarrow> task_db \<Rightarrow> str option \<Rightarrow> repo_result \<Rightarrow> exec_error + repo_result" where
  "check_health env db slug r = rbind (repo_named env (ro_repo r)) (\<lambda>rc.
     case rc_healthcheck rc of None \<Rightarrow> Inr r
     | Some hc \<Rightarrow> if \<not> result_success r then Inr r
         else rbind (resolve_cwd env db slug (ro_repo r)) (\<lambda>cwd.
           let h = xe_health env (ro_repo r) hc cwd (resolve_env_runner env rc) (ro_pid r);
               r' = r\<lparr>ro_health := Some h\<rparr>
           in Inr (if fst h then r' else r'\<lparr>ro_shell := \<lparr>sr_code = 1, sr_out = sr_out (ro_shell r), sr_err = snd h\<rparr>\<rparr>)))"

definition result_status :: "repo_result \<Rightarrow> test_status" where
  "result_status r = (if ro_skipped r then Skip else if result_success r then Pass else Fail)"

definition put_results :: "dt \<Rightarrow> repo_result list \<Rightarrow> task \<Rightarrow> task" where
  "put_results now rs t = t\<lparr>tk_test_results :=
     fold (\<lambda>r d. AList.update (ro_repo r) \<lparr>tr_status = result_status r, tr_at = now\<rparr> d) rs (tk_test_results t)\<rparr>"

text \<open>An unknown task is passed over.\<close>

definition record_results :: "str option \<Rightarrow> dt \<Rightarrow> repo_result list \<Rightarrow> task_db \<Rightarrow> exec_error + task_db" where
  "record_results slug now rs db =
     (if \<not> truthy slug then Inr db
      else case mutate_task (the slug) (\<lambda>t. Inr (put_results now rs t)) db of
          Inr (_, db') \<Rightarrow> Inr db'
        | Inl (KeyError _) \<Rightarrow> Inr db
        | Inl e \<Rightarrow> Inl (Exec_Exn e))"

definition run_tier :: "exec_env \<Rightarrow> str option \<Rightarrow> str \<Rightarrow> test_group list \<Rightarrow> str list \<Rightarrow> task_db
    \<Rightarrow> exec_error + repo_result list \<times> int list" where
  "run_tier env slug canonical groups tier db =
     rbind (rmap (execute_one env db slug canonical) (if length tier = 1 then tier else xe_finished env tier)) (\<lambda>rs.
       let sorted_rs = sort_key ro_repo (concat (List.map (expand_result groups) rs));
           procs = List.map_filter ro_pid rs
       in rbind (if canonical = ''run'' then rmap (check_health env db slug) sorted_rs else Inr sorted_rs)
            (\<lambda>rs'. Inr (rs', procs)))"

fun run_tiers :: "exec_env \<Rightarrow> str option \<Rightarrow> str \<Rightarrow> test_group list \<Rightarrow> bool \<Rightarrow> nat \<Rightarrow> str list list
    \<Rightarrow> execution_result \<times> task_db \<Rightarrow> exec_error + execution_result \<times> task_db" where
  "run_tiers env slug canonical groups run_all k [] (x, db) = Inr (x, db)"
| "run_tiers env slug canonical groups run_all k (tier # tiers) (x, db) =
     rbind (run_tier env slug canonical groups tier db) (\<lambda>(rs, procs).
       let x' = \<lparr>xr_results = xr_results x @ rs, xr_processes = xr_processes x @ procs\<rparr>
       in rbind (if canonical = ''test'' then record_results slug (xe_now env k) rs db else Inr db) (\<lambda>db'.
            if \<not> list_all result_success rs \<and> \<not> run_all then Inr (x', db')
            else run_tiers env slug canonical groups run_all (Suc k) tiers (x', db')))"

definition lift_exn :: "exn + 'a \<Rightarrow> exec_error + 'a" where
  "lift_exn m = (case m of Inl e \<Rightarrow> Inl (Exec_Exn e) | Inr x \<Rightarrow> Inr x)"

definition pre_skips :: "test_group list \<Rightarrow> repo_result list" where
  "pre_skips groups = List.map (\<lambda>m. skip_result m ''test'')
     (concat (List.map (\<lambda>g. if tg_representative g = None then tg_members g else tg_skipped g) groups))"

definition execute :: "exec_env \<Rightarrow> str \<Rightarrow> str list \<Rightarrow> bool \<Rightarrow> str option \<Rightarrow> task_db
    \<Rightarrow> exec_error + execution_result \<times> task_db" where
  "execute env canonical repos run_all slug db =
     rbind (if canonical = ''test'' then plan_test_targets env db slug repos else Inr []) (\<lambda>groups.
       let skips = pre_skips groups;
           run_repos = (if canonical = ''test'' then List.map_filter tg_representative groups else repos)
       in rbind (if skips = [] then Inr db else record_results slug (xe_now env 0) skips db) (\<lambda>db'.
          rbind (lift_exn (topo_tiers (xe_graph env) (Some run_repos))) (\<lambda>tiers.
            run_tiers env slug canonical groups run_all 1 tiers (\<lparr>xr_results = skips, xr_processes = []\<rparr>, db'))))"

end
