(* ===== verification/Executor_Laws.thy ===== *)
theory Executor_Laws
  imports Executor Task_Laws "HOL-Library.Multiset"
begin

text \<open>
  Laws of \<open>RepoExecutor.execute\<close>: what one tier and a sequence of tiers return, the grouping of the
  repositories that share a test directory, and the recorded results.
\<close>

section \<open>One tier\<close>

lemma rmap_same_keys:
  assumes "rmap f xs = Inr ys" and "\<And>x y. f x = Inr y \<Longrightarrow> key y = key' x"
  shows "List.map key ys = List.map key' xs"
  using assms by (induction xs arbitrary: ys) (auto simp: rbind_eq_Inr)

lemmas rmap_keys = rmap_same_keys [where key' = "\<lambda>x. x", simplified]

lemma rmap_mem: "rmap f xs = Inr ys \<Longrightarrow> y \<in> set ys \<Longrightarrow> \<exists>x \<in> set xs. f x = Inr y"
  by (induction xs arbitrary: ys) (auto simp: rbind_eq_Inr)

lemma rmap_Inr_iff: "rmap f xs = Inr ys \<longleftrightarrow> list_all2 (\<lambda>x y. f x = Inr y) xs ys"
proof (induction xs arbitrary: ys)
  case (Cons x xs)
  then show ?case by (auto simp: rbind_eq_Inr list_all2_Cons1)
qed auto

lemma execute_one_repo: "execute_one env db slug canonical r = Inr res \<Longrightarrow> ro_repo res = r"
  by (auto simp: execute_one_def rbind_eq_Inr skip_result_def Let_def split: if_splits)

lemma execute_one_skipped:
  assumes "execute_one env db slug ''test'' r = Inr res"
  shows "ro_skipped res \<longleftrightarrow> test_inapplicable env r"
  using assms by (auto simp: execute_one_def rbind_eq_Inr skip_result_def Let_def test_inapplicable_def
      repo_named_def split: if_splits option.splits)

lemma check_health_repo: "check_health env db slug r = Inr r' \<Longrightarrow> ro_repo r' = ro_repo r"
  by (auto simp: check_health_def rbind_eq_Inr Let_def split: option.splits if_splits)

text \<open>The repositories a run of one repository reports.\<close>

definition covered :: "test_group list \<Rightarrow> str \<Rightarrow> str list" where
  "covered groups r = (case List.find (\<lambda>g. tg_representative g = Some r) groups of None \<Rightarrow> [r]
     | Some g \<Rightarrow> if length (tg_runnable g) \<le> 1 then [r] else r # filter (\<lambda>m. m \<noteq> r) (tg_runnable g))"

lemma expand_repos: "List.map ro_repo (expand_result groups r) = covered groups (ro_repo r)"
  by (simp add: expand_result_def covered_def Let_def o_def split: option.splits)

lemma covered_Nil [simp]: "covered [] r = [r]" "concat (List.map (covered []) rs) = rs"
  by (induction rs) (simp_all add: covered_def)

lemma expand_Nil [simp]: "expand_result [] r = [r]" "concat (List.map (expand_result []) rs) = rs"
  by (induction rs) (simp_all add: expand_result_def)

text \<open>Every thread of a tier finishes once.\<close>

definition finishes_all :: "exec_env \<Rightarrow> bool" where
  "finishes_all env \<longleftrightarrow> (\<forall>tier. mset (xe_finished env tier) = mset tier)"

abbreviation launch_order :: "exec_env \<Rightarrow> str list \<Rightarrow> str list" where
  "launch_order env tier \<equiv> (if length tier = 1 then tier else xe_finished env tier)"

lemma run_tier_steps:
  assumes "run_tier env slug canonical groups tier db = Inr (rs, procs)"
  obtains os where "rmap (execute_one env db slug canonical) (launch_order env tier) = Inr os"
    and "procs = List.map_filter ro_pid os"
    and "(if canonical = ''run'' then rmap (check_health env db slug) (sort_key ro_repo (concat (List.map (expand_result groups) os)))
       else Inr (sort_key ro_repo (concat (List.map (expand_result groups) os)))) = Inr rs"
  using assms by (auto simp: run_tier_def rbind_eq_Inr Let_def split: if_splits)

lemma map_concat_expand:
  "List.map ro_repo (concat (List.map (expand_result groups) os)) = concat (List.map (covered groups) (List.map ro_repo os))"
  by (simp add: map_concat expand_repos o_def)

lemma mset_concat_sum: "mset (concat (List.map f xs)) = (\<Sum>x\<in>#mset xs. mset (f x))"
  by (induction xs) simp_all

lemma mset_concat_map: "mset xs = mset ys \<Longrightarrow> mset (concat (List.map f xs)) = mset (concat (List.map f ys))"
  by (simp only: mset_concat_sum)

lemma run_tier_repos:
  assumes "run_tier env slug canonical groups tier db = Inr (rs, procs)" and "finishes_all env"
  shows "mset (List.map ro_repo rs) = mset (concat (List.map (covered groups) tier))"
    and "sorted (List.map ro_repo rs)"
proof -
  from assms(1) obtain os where os: "rmap (execute_one env db slug canonical) (launch_order env tier) = Inr os"
    and rs: "(if canonical = ''run'' then rmap (check_health env db slug) (sort_key ro_repo (concat (List.map (expand_result groups) os)))
       else Inr (sort_key ro_repo (concat (List.map (expand_result groups) os)))) = Inr rs"
    by (rule run_tier_steps)
  have "List.map ro_repo os = launch_order env tier" using rmap_keys [OF os] execute_one_repo by blast
  then have names: "mset (List.map ro_repo os) = mset tier"
    using assms(2) by (simp add: finishes_all_def del: mset_map split: if_splits)
  have same: "List.map ro_repo rs = List.map ro_repo (sort_key ro_repo (concat (List.map (expand_result groups) os)))"
  proof (cases "canonical = ''run''")
    case True
    with rs show ?thesis by (intro rmap_same_keys [OF _ check_health_repo]) simp_all
  next
    case False
    with rs show ?thesis by simp
  qed
  show "sorted (List.map ro_repo rs)" unfolding same by simp
  have "mset (List.map ro_repo rs) = mset (List.map ro_repo (concat (List.map (expand_result groups) os)))"
    unfolding same by simp
  also have "\<dots> = mset (concat (List.map (covered groups) tier))"
    unfolding map_concat_expand by (rule mset_concat_map [OF names])
  finally show "mset (List.map ro_repo rs) = mset (concat (List.map (covered groups) tier))" .
qed

section \<open>A sequence of tiers\<close>

text \<open>The results of the tiers that ran: all of them, or up to the first failing one.\<close>

definition ran_tiers :: "(str list \<Rightarrow> str list) \<Rightarrow> bool \<Rightarrow> str list list \<Rightarrow> repo_result list list \<Rightarrow> bool" where
  "ran_tiers reported run_all tiers rss \<longleftrightarrow> length rss \<le> length tiers
     \<and> (\<forall>i < length rss. mset (List.map ro_repo (rss ! i)) = mset (reported (tiers ! i)) \<and> sorted (List.map ro_repo (rss ! i)))
     \<and> (\<not> run_all \<longrightarrow> (\<forall>i. Suc i < length rss \<longrightarrow> list_all result_success (rss ! i)))
     \<and> (length rss < length tiers \<longrightarrow> \<not> run_all \<and> rss \<noteq> [] \<and> \<not> list_all result_success (last rss))"

lemma ran_tiers_Nil: "ran_tiers reported run_all [] []"
  by (simp add: ran_tiers_def)

lemma ran_tiers_stop:
  assumes "mset (List.map ro_repo rs) = mset (reported tier)" and "sorted (List.map ro_repo rs)"
    and "\<not> run_all" and "\<not> list_all result_success rs"
  shows "ran_tiers reported run_all (tier # tiers) [rs]"
  using assms by (simp add: ran_tiers_def)

lemma ran_tiers_Cons:
  assumes "mset (List.map ro_repo rs) = mset (reported tier)" and "sorted (List.map ro_repo rs)"
    and "list_all result_success rs \<or> run_all" and "ran_tiers reported run_all tiers rss"
  shows "ran_tiers reported run_all (tier # tiers) (rs # rss)"
  using assms unfolding ran_tiers_def
  by (auto simp: nth_Cons split: nat.splits)

lemma run_tiers_law:
  assumes "run_tiers env slug canonical groups run_all k tiers (x, db) = Inr (x', db')" and "finishes_all env"
  shows "\<exists>rss. xr_results x' = xr_results x @ concat rss
    \<and> ran_tiers (\<lambda>tier. concat (List.map (covered groups) tier)) run_all tiers rss"
  using assms(1)
proof (induction tiers arbitrary: k x db)
  case Nil
  then show ?case by (auto intro!: exI [of _ "[]"] ran_tiers_Nil)
next
  case (Cons tier tiers)
  let ?rep = "\<lambda>tier. concat (List.map (covered groups) tier)"
  from Cons.prems obtain rs procs db1 where r: "run_tier env slug canonical groups tier db = Inr (rs, procs)"
    and "next": "(if \<not> list_all result_success rs \<and> \<not> run_all
        then Inr (\<lparr>xr_results = xr_results x @ rs, xr_processes = xr_processes x @ procs\<rparr>, db1)
        else run_tiers env slug canonical groups run_all (Suc k) tiers
          (\<lparr>xr_results = xr_results x @ rs, xr_processes = xr_processes x @ procs\<rparr>, db1)) = Inr (x', db')"
    by (auto simp: rbind_eq_Inr Let_def)
  note names = run_tier_repos [OF r assms(2)]
  show ?case
  proof (cases "\<not> list_all result_success rs \<and> \<not> run_all")
    case True
    with "next" have "xr_results x' = xr_results x @ concat [rs]" by auto
    with ran_tiers_stop [where reported = ?rep, OF names] True show ?thesis by blast
  next
    case False
    with "next" Cons.IH obtain rss where "xr_results x' = (xr_results x @ rs) @ concat rss"
      and "ran_tiers ?rep run_all tiers rss"
      by (metis (no_types, lifting) execution_result.select_convs(1))
    with ran_tiers_Cons [where reported = ?rep, OF names] False
    show ?thesis by (intro exI [of _ "rs # rss"]) auto
  qed
qed

lemma execute_test_steps:
  assumes "execute env ''test'' repos run_all slug db = Inr (x, db')"
  obtains groups db1 tiers where "plan_test_targets env db slug repos = Inr groups"
    and "(if pre_skips groups = [] then Inr db else record_results slug (xe_now env 0) (pre_skips groups) db) = Inr db1"
    and "topo_tiers (xe_graph env) (Some (List.map_filter tg_representative groups)) = Inr tiers"
    and "run_tiers env slug ''test'' groups run_all 1 tiers (\<lparr>xr_results = pre_skips groups, xr_processes = []\<rparr>, db1) = Inr (x, db')"
proof -
  from assms obtain groups where plan: "plan_test_targets env db slug repos = Inr groups"
    and rest: "rbind (if pre_skips groups = [] then Inr db else record_results slug (xe_now env 0) (pre_skips groups) db)
      (\<lambda>db'. rbind (lift_exn (topo_tiers (xe_graph env) (Some (List.map_filter tg_representative groups)))) (\<lambda>tiers.
        run_tiers env slug ''test'' groups run_all 1 tiers (\<lparr>xr_results = pre_skips groups, xr_processes = []\<rparr>, db'))) = Inr (x, db')"
    by (auto simp: execute_def rbind_eq_Inr Let_def)
  then obtain db1 tiers where db1: "(if pre_skips groups = [] then Inr db else record_results slug (xe_now env 0) (pre_skips groups) db) = Inr db1"
    and "lift_exn (topo_tiers (xe_graph env) (Some (List.map_filter tg_representative groups))) = Inr tiers"
    and run: "run_tiers env slug ''test'' groups run_all 1 tiers (\<lparr>xr_results = pre_skips groups, xr_processes = []\<rparr>, db1) = Inr (x, db')"
    unfolding rbind_eq_Inr by blast
  then have "topo_tiers (xe_graph env) (Some (List.map_filter tg_representative groups)) = Inr tiers"
    by (simp add: lift_exn_def split: sum.splits)
  from that [OF plan db1 this run] show thesis .
qed

section \<open>A valid workspace\<close>

definition ready :: "exec_env \<Rightarrow> bool" where
  "ready env \<longleftrightarrow> dict_ok (wc_repos (xe_config env)) \<and> validate_workspace (xe_config env) = Inr ()
     \<and> dependency_graph (xe_config env) = Inr (xe_graph env) \<and> finishes_all env"

abbreviation repo_names_of :: "exec_env \<Rightarrow> str set" where
  "repo_names_of env \<equiv> set (dict_keys (wc_repos (xe_config env)))"

lemma rfold_unit_Inr: "rfold f xs () = Inr () \<Longrightarrow> x \<in> set xs \<Longrightarrow> f x () = Inr ()"
  by (induction xs) (auto simp: rbind_eq_Inr)

lemma readyD:
  assumes "ready env"
  shows "dict_ok (wc_repos (xe_config env))" and "validate_no_cycles (xe_config env) = Inr ()"
    and "dependency_graph (xe_config env) = Inr (xe_graph env)" and "finishes_all env"
    and "validate_git_root_refs (xe_config env) = Inr ()"
    and "graph_ok (xe_graph env)" and "dg_names (xe_graph env) = dict_keys (wc_repos (xe_config env))"
  using assms dependency_graph_ok [of "xe_config env" "xe_graph env"]
  by (auto simp: ready_def validate_workspace_def rbind_eq_Inr)

lemma git_root_known:
  assumes "ready env" and "map_of (wc_repos (xe_config env)) r = Some rc" and "rc_git_root rc = Some g"
  shows "map_of (wc_repos (xe_config env)) g \<noteq> None"
  using rfold_unit_Inr [OF readyD(5) [OF assms(1), unfolded validate_git_root_refs_def] map_of_SomeD [OF assms(2)]] assms(3)
  by (auto split: option.splits)

lemma resolve_cwd_total:
  assumes "ready env" and "r \<in> repo_names_of env"
  shows "\<exists>p. resolve_cwd env db slug r = Inr p"
proof -
  obtain rc where rc: "map_of (wc_repos (xe_config env)) r = Some rc"
    using assms(2) by (cases "map_of (wc_repos (xe_config env)) r") (auto simp: map_of_eq_None_iff)
  show ?thesis
    using git_root_known [OF assms(1) rc] rc
    by (auto simp: resolve_cwd_def repo_named_def Let_def split: option.splits)
qed

lemma execute_one_total:
  assumes "ready env" and "r \<in> repo_names_of env"
  shows "\<exists>x. execute_one env db slug canonical r = Inr x"
proof -
  obtain rc where rc: "map_of (wc_repos (xe_config env)) r = Some rc"
    using assms(2) by (cases "map_of (wc_repos (xe_config env)) r") (auto simp: map_of_eq_None_iff)
  obtain p where "resolve_cwd env db slug r = Inr p" using resolve_cwd_total [OF assms] by blast
  with rc show ?thesis by (simp add: execute_one_def repo_named_def Let_def)
qed

lemma check_health_total:
  assumes "ready env" and "ro_repo r \<in> repo_names_of env"
  shows "\<exists>x. check_health env db slug r = Inr x"
proof -
  obtain rc where rc: "map_of (wc_repos (xe_config env)) (ro_repo r) = Some rc"
    using assms(2) by (cases "map_of (wc_repos (xe_config env)) (ro_repo r)") (auto simp: map_of_eq_None_iff)
  obtain p where "resolve_cwd env db slug (ro_repo r) = Inr p" using resolve_cwd_total [OF assms] by blast
  with rc show ?thesis by (simp add: check_health_def repo_named_def Let_def split: option.splits)
qed

lemma rmap_total: "(\<And>x. x \<in> set xs \<Longrightarrow> \<exists>y. f x = Inr y) \<Longrightarrow> \<exists>ys. rmap f xs = Inr ys"
proof (induction xs)
  case (Cons x xs)
  then obtain y ys where "f x = Inr y" "rmap f xs = Inr ys" by (metis list.set_intros)
  then show ?case by simp
qed simp

lemma launch_order_set: "finishes_all env \<Longrightarrow> set (launch_order env tier) = set tier"
  by (simp add: finishes_all_def) (metis set_mset_mset)

lemma set_covered: "set (covered groups r) \<subseteq> insert r (\<Union>g\<in>set groups. set (tg_runnable g))"
  by (auto simp: covered_def find_Some_iff2 split: option.splits if_splits) (metis find_Some_iff nth_mem)

lemma run_tier_total:
  assumes "ready env" and "set tier \<subseteq> repo_names_of env" and "(\<Union>g\<in>set groups. set (tg_runnable g)) \<subseteq> repo_names_of env"
  shows "\<exists>rs procs. run_tier env slug canonical groups tier db = Inr (rs, procs)"
proof -
  have "set (launch_order env tier) = set tier" by (rule launch_order_set [OF readyD(4) [OF assms(1)]])
  then obtain os where os: "rmap (execute_one env db slug canonical) (launch_order env tier) = Inr os"
    using rmap_total [of "launch_order env tier" "execute_one env db slug canonical"]
      execute_one_total [OF assms(1)] assms(2) by blast
  have "List.map ro_repo os = launch_order env tier" by (rule rmap_keys [OF os]) (rule execute_one_repo)
  from arg_cong [OF this, of set] have names: "ro_repo ` set os = set tier"
    unfolding launch_order_set [OF readyD(4) [OF assms(1)]] by (simp only: set_map)
  have known: "ro_repo r \<in> repo_names_of env" if "r \<in> set (concat (List.map (expand_result groups) os))" for r
  proof -
    have "ro_repo r \<in> set (concat (List.map (covered groups) (List.map ro_repo os)))"
      unfolding map_concat_expand [symmetric] using that by simp
    then obtain q where "q \<in> ro_repo ` set os" "ro_repo r \<in> set (covered groups q)" by auto
    with set_covered [of groups q] assms(2,3) show ?thesis unfolding names by blast
  qed
  let ?rs = "sort_key ro_repo (concat (List.map (expand_result groups) os))"
  obtain rs' where "rmap (check_health env db slug) ?rs = Inr rs'"
    by (atomize_elim, rule rmap_total, rule check_health_total [OF assms(1)], rule known) (simp only: set_sort)
  then obtain rs where "(if canonical = ''run'' then rmap (check_health env db slug) ?rs else Inr ?rs) = Inr rs"
    by (cases "canonical = ''run''") simp_all
  with os show ?thesis by (simp add: run_tier_def Let_def)
qed

lemma run_tiers_total:
  assumes "ready env" and "canonical \<noteq> ''test''" and "set (concat tiers) \<subseteq> repo_names_of env"
  shows "\<exists>x'. run_tiers env slug canonical [] run_all k tiers (x, db) = Inr (x', db)"
  using assms(3)
proof (induction tiers arbitrary: k x)
  case (Cons tier tiers)
  then obtain rs procs where "run_tier env slug canonical [] tier db = Inr (rs, procs)"
    using run_tier_total [OF assms(1), of tier "[]" slug canonical db] by auto
  with Cons assms(2) show ?case by (simp add: Let_def)
qed simp

section \<open>The order of the results\<close>

lemma ran_in_order:
  assumes "ran_tiers (\<lambda>tier. tier) run_all tiers rss" and "\<forall>tier \<in> set tiers. sorted tier"
  shows "List.map (List.map ro_repo) rss = take (length rss) tiers"
proof (rule nth_equalityI)
  fix i assume "i < length (List.map (List.map ro_repo) rss)"
  then have i: "i < length rss" by simp
  with assms(1) have len: "i < length tiers" by (simp add: ran_tiers_def)
  have "mset (List.map ro_repo (rss ! i)) = mset (tiers ! i)" "sorted (List.map ro_repo (rss ! i))"
    using assms(1) i by (simp_all add: ran_tiers_def)
  moreover have "sorted (tiers ! i)" using assms(2) len by simp
  ultimately have "List.map ro_repo (rss ! i) = tiers ! i" by (metis properties_for_sort)
  then show "List.map (List.map ro_repo) rss ! i = take (length rss) tiers ! i" using i by simp
qed (use assms(1) in \<open>simp add: ran_tiers_def\<close>)

lemma tiered_sorted: "tiered preds T D tiers \<Longrightarrow> \<forall>t \<in> set tiers. sorted t"
  by (induction tiers arbitrary: D) auto

lemma split_concat:
  assumes "concat xss = ys @ x # zs"
  obtains us t vs as bs where "xss = us @ t # vs" and "t = as @ x # bs" and "ys = concat us @ as"
  using assms
proof (induction xss arbitrary: ys thesis)
  case (Cons xs xss)
  from Cons.prems(2) have "xs @ concat xss = ys @ x # zs" by simp
  then consider (here) bs where "xs = ys @ x # bs" | (later) ys' where "ys = xs @ ys'" "concat xss = ys' @ x # zs"
    by (auto simp: append_eq_append_conv2 append_eq_Cons_conv)
  then show ?case
  proof cases
    case here
    with Cons.prems(1) [of "[]" xs xss ys bs] show ?thesis by simp
  next
    case later
    from Cons.IH [OF _ later(2)] obtain us t vs as bs
      where "xss = us @ t # vs" "t = as @ x # bs" "ys' = concat us @ as" by blast
    with Cons.prems(1) [of "xs # us" t vs as bs] later(1) show ?thesis by simp
  qed
qed simp

lemma success_before:
  assumes "ran_tiers reported run_all tiers (us @ t # vs)" and "\<not> run_all" and "q \<in> set (concat us)"
  shows "result_success q"
proof -
  from assms(3) obtain u where "u \<in> set us" "q \<in> set u" by auto
  then obtain i where i: "i < length us" "q \<in> set (us ! i)" by (auto simp: in_set_conv_nth)
  then have "list_all result_success ((us @ t # vs) ! i)" using assms(1,2) unfolding ran_tiers_def by auto
  with i show ?thesis by (simp add: nth_append list_all_iff)
qed

lemma ran_completely:
  assumes "ran_tiers reported run_all tiers rss" and "run_all \<or> list_all result_success (concat rss)"
  shows "length rss = length tiers"
proof (rule ccontr)
  assume "length rss \<noteq> length tiers"
  then have "\<not> run_all" "rss \<noteq> []" "\<not> list_all result_success (last rss)"
    using assms(1) by (auto simp: ran_tiers_def)
  with assms(2) show False by (auto simp: list_all_iff)
qed

section \<open>Shared test directories\<close>

text \<open>The directory the tests of a repository run in.\<close>

definition test_dir :: "exec_env \<Rightarrow> task_db \<Rightarrow> str option \<Rightarrow> str \<Rightarrow> exec_error + path" where
  "test_dir env db slug m = rbind (resolve_cwd env db slug m) (\<lambda>p. Inr (xe_resolve env p))"

lemma add_member_mset: "mset (concat (List.map snd (add_member p r gs))) = add_mset r (mset (concat (List.map snd gs)))"
  by (induction p r gs rule: add_member.induct) auto

lemma add_member_mem:
  "(q, ms) \<in> set (add_member p r gs) \<Longrightarrow> m \<in> set ms \<Longrightarrow> (\<exists>ms'. (q, ms') \<in> set gs \<and> m \<in> set ms') \<or> (q = p \<and> m = r)"
  by (induction p r gs rule: add_member.induct) (auto split: if_splits)

lemma group_fold_law:
  assumes "rfold (\<lambda>r gs. rbind (resolve_cwd env db slug r) (\<lambda>p. Inr (add_member (xe_resolve env p) r gs))) repos gs = Inr gs'"
  shows "mset (concat (List.map snd gs')) = mset repos + mset (concat (List.map snd gs))"
    and "(q, ms) \<in> set gs' \<Longrightarrow> m \<in> set ms \<Longrightarrow> (\<exists>ms'. (q, ms') \<in> set gs \<and> m \<in> set ms') \<or> test_dir env db slug m = Inr q"
proof -
  show "mset (concat (List.map snd gs')) = mset repos + mset (concat (List.map snd gs))"
    using assms
  proof (induction repos arbitrary: gs)
    case (Cons r repos)
    then show ?case by (force simp: rbind_eq_Inr add_member_mset)
  qed simp
  show "(\<exists>ms'. (q, ms') \<in> set gs \<and> m \<in> set ms') \<or> test_dir env db slug m = Inr q"
    if "(q, ms) \<in> set gs'" "m \<in> set ms"
    using assms that
  proof (induction repos arbitrary: gs)
    case (Cons r repos)
    from Cons.prems(1) obtain p where p: "resolve_cwd env db slug r = Inr p"
      and rest: "rfold (\<lambda>r gs. rbind (resolve_cwd env db slug r) (\<lambda>p. Inr (add_member (xe_resolve env p) r gs))) repos
        (add_member (xe_resolve env p) r gs) = Inr gs'" by (auto simp: rbind_eq_Inr)
    have "test_dir env db slug r = Inr (xe_resolve env p)" using p by (simp add: test_dir_def)
    with Cons.IH [OF rest Cons.prems(2,3)] add_member_mem [of q _ "xe_resolve env p" r gs m]
    show ?case by metis
  qed auto
qed

lemma remdups_all_same: "length (remdups xs) \<le> 1 \<Longrightarrow> x \<in> set xs \<Longrightarrow> hd (remdups xs) = x"
  by (cases "remdups xs") (auto simp flip: set_remdups [of xs])

lemma leader_mem:
  assumes "xs \<noteq> []"
  shows "hd (sort (if filter P xs = [] then xs else filter P xs)) \<in> set xs"
proof -
  have "hd (sort ys) \<in> set ys" if "ys \<noteq> []" for ys :: "'a list"
    using that by (metis hd_in_set length_0_conv length_sort set_sort)
  from this [of xs] this [of "filter P xs"] assms show ?thesis by auto
qed

definition good_group :: "exec_env \<Rightarrow> test_group \<Rightarrow> bool" where
  "good_group env g \<longleftrightarrow> tg_skipped g = filter (test_inapplicable env) (tg_members g)
     \<and> tg_runnable g = filter (\<lambda>m. \<not> test_inapplicable env m) (tg_members g)
     \<and> (case tg_representative g of None \<Rightarrow> tg_runnable g = [] | Some r \<Rightarrow> r \<in> set (tg_runnable g))
     \<and> (\<forall>m \<in> set (tg_runnable g). tg_task g = Some (test_target env m))"

lemma plan_group_good:
  assumes "plan_group env pm = Inr g"
  shows "good_group env g" and "tg_members g = snd pm" and "tg_cwd g = fst pm"
proof -
  let ?run = "filter (\<lambda>m. m \<notin> set (filter (test_inapplicable env) (snd pm))) (snd pm)"
  have run: "?run = filter (\<lambda>m. \<not> test_inapplicable env m) (snd pm)" by (rule filter_cong) auto
  show "tg_members g = snd pm" "tg_cwd g = fst pm"
    using assms by (auto simp: plan_group_def Let_def split: list.splits if_splits)
  show "good_group env g"
  proof (cases ?run)
    case Nil
    with assms run show ?thesis by (auto simp: plan_group_def Let_def good_group_def)
  next
    case (Cons a as)
    with assms have few: "length (remdups (List.map (test_target env) ?run)) \<le> 1"
      and g: "tg_runnable g = ?run" "tg_skipped g = filter (test_inapplicable env) (snd pm)" "tg_members g = snd pm"
        "tg_task g = Some (hd (remdups (List.map (test_target env) ?run)))"
        "tg_representative g = Some (hd (sort (if filter (declares_test env) ?run = [] then ?run else filter (declares_test env) ?run)))"
      unfolding plan_group_def Let_def by (auto split: if_splits)
    have "?run \<noteq> []" using Cons by simp
    note leader = leader_mem [OF this, of "declares_test env"]
    have same: "hd (remdups (List.map (test_target env) ?run)) = test_target env m" if "m \<in> set ?run" for m
      by (rule remdups_all_same [OF few]) (use that in simp)
    have "\<forall>m \<in> set (tg_runnable g). tg_task g = Some (test_target env m)" using same unfolding g(1,4) by blast
    moreover have "case tg_representative g of None \<Rightarrow> tg_runnable g = [] | Some r \<Rightarrow> r \<in> set (tg_runnable g)"
      using leader unfolding g(5) option.case g(1) .
    ultimately show ?thesis unfolding good_group_def using g(1-3) run by simp
  qed
qed

lemma plan_law:
  assumes "plan_test_targets env db slug repos = Inr groups"
  shows "mset (concat (List.map tg_members groups)) = mset repos"
    and "g \<in> set groups \<Longrightarrow> good_group env g"
    and "g \<in> set groups \<Longrightarrow> m \<in> set (tg_members g) \<Longrightarrow> test_dir env db slug m = Inr (tg_cwd g)"
proof -
  from assms obtain gs where gs: "group_by_cwd env db slug repos = Inr gs" and plan: "rmap (plan_group env) gs = Inr groups"
    by (auto simp: plan_test_targets_def rbind_eq_Inr)
  note law = group_fold_law [OF gs [unfolded group_by_cwd_def]]
  have "List.map tg_members groups = List.map snd gs" by (rule rmap_same_keys [OF plan]) (rule plan_group_good(2))
  with law(1) show "mset (concat (List.map tg_members groups)) = mset repos" by simp
  assume g: "g \<in> set groups"
  then obtain pm where pm: "pm \<in> set gs" "plan_group env pm = Inr g"
    using rmap_mem [OF plan] by blast
  show "good_group env g" by (rule plan_group_good(1) [OF pm(2)])
  show "test_dir env db slug m = Inr (tg_cwd g)" if "m \<in> set (tg_members g)"
    using law(2) [of "fst pm" "snd pm" m] pm(1) that plan_group_good(2,3) [OF pm(2)] by simp
qed

text \<open>Groups of distinct repositories: what their representatives cover.\<close>

definition planned :: "exec_env \<Rightarrow> str list \<Rightarrow> test_group list \<Rightarrow> bool" where
  "planned env repos groups \<longleftrightarrow> mset (concat (List.map tg_members groups)) = mset repos \<and> distinct repos
     \<and> (\<forall>g \<in> set groups. good_group env g)"

abbreviation leaders :: "test_group list \<Rightarrow> str list" where
  "leaders groups \<equiv> List.map_filter tg_representative groups"

lemma unique_member:
  "distinct (concat (List.map f gs)) \<Longrightarrow> g \<in> set gs \<Longrightarrow> g' \<in> set gs \<Longrightarrow> r \<in> set (f g) \<Longrightarrow> r \<in> set (f g') \<Longrightarrow> g = g'"
  by (induction gs) auto

lemma planned_distinct: "planned env repos groups \<Longrightarrow> distinct (concat (List.map tg_members groups))"
  by (simp add: planned_def) (metis mset_eq_imp_distinct_iff)

lemma good_group_sub: "good_group env g \<Longrightarrow> set (tg_runnable g) \<subseteq> set (tg_members g)"
  by (auto simp: good_group_def)

lemma leader_runnable: "good_group env g \<Longrightarrow> tg_representative g = Some r \<Longrightarrow> r \<in> set (tg_runnable g)"
  by (auto simp: good_group_def split: option.splits)

lemma find_leader:
  assumes "planned env repos groups" and "g \<in> set groups" and "tg_representative g = Some r"
  shows "List.find (\<lambda>g. tg_representative g = Some r) groups = Some g"
proof -
  from assms(2,3) obtain g' where g': "List.find (\<lambda>g. tg_representative g = Some r) groups = Some g'"
    by (cases "List.find (\<lambda>g. tg_representative g = Some r) groups") (auto simp: find_None_iff)
  then have "g' \<in> set groups" "tg_representative g' = Some r"
    by (auto simp: find_Some_iff)
  with assms have "g' = g"
    using unique_member [OF planned_distinct [OF assms(1)], of g' g r] leader_runnable good_group_sub
    unfolding planned_def by blast
  with g' show ?thesis by simp
qed

lemma planned_runnable:
  assumes "planned env repos groups" and "g \<in> set groups"
  shows "distinct (tg_runnable g)"
proof -
  have "distinct (tg_members g)" using planned_distinct [OF assms(1)] assms(2) by (simp add: distinct_concat_iff)
  with assms show ?thesis by (simp add: planned_def good_group_def)
qed

lemma mset_leader_first: "distinct xs \<Longrightarrow> r \<in> set xs \<Longrightarrow> mset (r # filter (\<lambda>m. m \<noteq> r) xs) = mset xs"
proof (induction xs)
  case (Cons x xs)
  show ?case
  proof (cases "x = r")
    case True
    with Cons.prems have "filter (\<lambda>m. m \<noteq> r) xs = xs" by (auto simp: filter_id_conv)
    with True show ?thesis by simp
  next
    case False
    with Cons have "mset (r # filter (\<lambda>m. m \<noteq> r) xs) = mset xs" by simp
    with False show ?thesis by simp
  qed
qed simp

lemma covered_leader:
  assumes "planned env repos groups" and "g \<in> set groups" and "tg_representative g = Some r"
  shows "mset (covered groups r) = mset (tg_runnable g)"
proof -
  have r: "r \<in> set (tg_runnable g)" using assms leader_runnable unfolding planned_def by blast
  show ?thesis
  proof (cases "length (tg_runnable g) \<le> 1")
    case True
    with r have "tg_runnable g = [r]" by (cases "tg_runnable g") auto
    with assms show ?thesis by (simp add: covered_def find_leader [OF assms])
  next
    case False
    with mset_leader_first [OF planned_runnable [OF assms(1,2)] r] show ?thesis
      by (simp add: covered_def find_leader [OF assms])
  qed
qed

lemma covered_leaders:
  assumes "planned env repos groups" and "set gs \<subseteq> set groups"
  shows "mset (concat (List.map (covered groups) (leaders gs))) = mset (concat (List.map tg_runnable gs))"
  using assms(2)
proof (induction gs)
  case (Cons g gs)
  show ?case
  proof (cases "tg_representative g")
    case None
    with Cons assms(1) have "tg_runnable g = []" by (auto simp: planned_def good_group_def)
    with None Cons show ?thesis by simp
  next
    case (Some r)
    with covered_leader [OF assms(1) _ Some] Cons show ?thesis by simp
  qed
qed simp

lemma pre_skips_repos:
  assumes "planned env repos groups"
  shows "List.map ro_repo (pre_skips groups) = concat (List.map tg_skipped groups)"
proof -
  have "(if tg_representative g = None then tg_members g else tg_skipped g) = tg_skipped g" if "g \<in> set groups" for g
  proof -
    have good: "good_group env g" using assms that by (simp add: planned_def)
    then have "filter (\<lambda>m. \<not> test_inapplicable env m) (tg_members g) = []" if "tg_representative g = None"
      using that unfolding good_group_def by (metis option.case(1))
    then have "filter (test_inapplicable env) (tg_members g) = tg_members g" if "tg_representative g = None"
      using that by (auto simp: filter_empty_conv filter_id_conv)
    with good show ?thesis by (simp add: good_group_def)
  qed
  then have same: "List.map (\<lambda>g. if tg_representative g = None then tg_members g else tg_skipped g) groups = List.map tg_skipped groups"
    by (rule map_cong [OF refl])
  show ?thesis unfolding pre_skips_def same by (simp add: skip_result_def o_def)
qed

lemma skipped_and_run:
  assumes "\<forall>g \<in> set gs. good_group env g"
  shows "mset (concat (List.map tg_skipped gs)) + mset (concat (List.map tg_runnable gs)) = mset (concat (List.map tg_members gs))"
  using assms
proof (induction gs)
  case (Cons g gs)
  then have "mset (tg_skipped g) + mset (tg_runnable g) = mset (tg_members g)"
    using multiset_partition [of "mset (tg_members g)" "test_inapplicable env"] by (simp add: good_group_def)
  with Cons show ?case by (simp add: ac_simps)
qed simp

lemma planned_total:
  assumes "planned env repos groups" and "mset order = mset (leaders groups)"
  shows "mset (List.map ro_repo (pre_skips groups) @ concat (List.map (covered groups) order)) = mset repos"
  using pre_skips_repos [OF assms(1)] covered_leaders [OF assms(1) order_refl] skipped_and_run [of groups env]
    mset_concat_map [OF assms(2), of "covered groups"] assms(1)
  by (simp add: planned_def del: mset_map)

lemma leaders_distinct:
  assumes "planned env repos groups"
  shows "distinct (leaders groups)"
proof -
  have "set (leaders gs) \<subseteq> set (concat (List.map tg_members gs)) \<and> distinct (leaders gs)" if "set gs \<subseteq> set groups"
      "distinct (concat (List.map tg_members gs))" for gs
    using that
  proof (induction gs)
    case (Cons g gs)
    have "tg_representative g = Some r \<Longrightarrow> r \<in> set (tg_members g)" for r
      using Cons.prems(1) assms leader_runnable [of env g r] good_group_sub [of env g] unfolding planned_def by auto
    with Cons show ?case by (cases "tg_representative g") auto
  qed simp
  from this [OF order_refl planned_distinct [OF assms]] show ?thesis ..
qed

section \<open>Recorded results\<close>

text \<open>The status the store has for a repository of the task.\<close>

definition stored_status :: "str option \<Rightarrow> task_db \<Rightarrow> str \<Rightarrow> test_status option" where
  "stored_status slug db m = (case the_task db slug of None \<Rightarrow> None
     | Some t \<Rightarrow> map_option tr_status (map_of (tk_test_results t) m))"

lemma put_results_status:
  "map_option tr_status (map_of (tk_test_results (put_results now rs t)) m)
   = (if m \<in> ro_repo ` set rs then map_option result_status (List.find (\<lambda>r. ro_repo r = m) (rev rs))
      else map_option tr_status (map_of (tk_test_results t) m))"
proof (induction rs rule: rev_induct)
  case (snoc r rs)
  then show ?case by (auto simp: put_results_def dict_simps)
qed (simp add: put_results_def)

lemma dict_ok_fold_update: "dict_ok d \<Longrightarrow> dict_ok (fold (\<lambda>r. AList.update (k r) (f r)) rs d)"
  by (induction rs arbitrary: d) simp_all

lemma put_results_valid: "valid_task t \<Longrightarrow> valid_task (put_results now rs t)"
  by (simp add: valid_task_def put_results_def dict_ok_fold_update)

lemma map_of_map_entries: "map_of (List.map (\<lambda>kv. (fst kv, f (snd kv))) d) m = map_option f (map_of d m)"
  by (induction d) auto

lemma norm_status:
  assumes "valid_task t"
  shows "map_option tr_status (map_of (tk_test_results (norm_task t)) m) = map_option tr_status (map_of (tk_test_results t) m)"
  using assms map_of_map_entries [of "\<lambda>v. v\<lparr>tr_at := norm_dt (tr_at v)\<rparr>" "by_key (tk_test_results t)" m]
  by (simp add: norm_task_def valid_task_def option.map_comp o_def)

lemma norm_worktrees: "valid_task t \<Longrightarrow> map_of (tk_worktrees (norm_task t)) = map_of (tk_worktrees t)"
  by (auto simp: norm_task_def valid_task_def)

lemma resolve_cwd_cong:
  assumes "rel_option (\<lambda>t t'. map_of (tk_worktrees t') = map_of (tk_worktrees t)) (the_task db slug) (the_task db' slug)"
  shows "resolve_cwd env db' slug m = resolve_cwd env db slug m"
  using assms by (cases "the_task db slug"; cases "the_task db' slug") (simp_all add: resolve_cwd_def)

text \<open>The only error of writing a stored task is an integrity error.\<close>

definition only_integrity :: "exn + 'a \<Rightarrow> bool" where
  "only_integrity m \<longleftrightarrow> (\<forall>e. m = Inl e \<longrightarrow> (\<exists>table. e = IntegrityError table))"

lemma only_integrity_Inr [simp]: "only_integrity (Inr x)" "only_integrity (Inl (IntegrityError table))"
  by (simp_all add: only_integrity_def)

lemma only_integrity_rbind: "only_integrity m \<Longrightarrow> (\<And>x. only_integrity (f x)) \<Longrightarrow> only_integrity (rbind m f)"
  by (auto simp: only_integrity_def rbind_eq_Inl)

lemma only_integrity_rfold: "(\<And>x s. only_integrity (f x s)) \<Longrightarrow> only_integrity (rfold f xs s)"
  by (induction xs arbitrary: s) (simp_all add: only_integrity_rbind)

lemma only_integrity_parts:
  "only_integrity (insert_repo_row slugs q rows)" "only_integrity (update_shared t r rows)"
  "only_integrity (insert_many table key ok rs rs')" "only_integrity (check_scalars t)"
  by (auto simp: insert_repo_row_def update_shared_def insert_many_def insert_row_def check_scalars_def
      intro!: only_integrity_rfold split: option.splits)

lemma replace_errors:
  assumes "task_get db (tk_slug t) \<noteq> None"
  shows "only_integrity (replace_db t db)"
proof -
  have "row_for db (tk_slug t) \<noteq> None" using assms by (auto simp: task_get_row)
  then have "List.find (revision_matches (tk_slug t) None) (db_tasks db) \<noteq> None"
    by (auto simp: row_for_def revision_matches_def find_None_iff)
  moreover have "only_integrity (replace_task_repos t db1)" "only_integrity (insert_children t db1)" for db1
    by (auto simp: replace_task_repos_def insert_children_def Let_def
        intro!: only_integrity_rbind only_integrity_rfold only_integrity_parts)
  ultimately show ?thesis
    by (auto simp: replace_db_def task_replace_def Let_def intro!: only_integrity_rbind only_integrity_parts split: option.splits)
qed

lemma record_results_law:
  assumes "record_results slug now rs db = Inr db'" and "wf_tasks db" and "truthy slug" and "the_task db slug \<noteq> None"
  shows "wf_tasks db'" and "the_task db' slug \<noteq> None" and "resolve_cwd env db' slug m = resolve_cwd env db slug m"
    and "stored_status slug db' m = (if m \<in> ro_repo ` set rs then map_option result_status (List.find (\<lambda>r. ro_repo r = m) (rev rs))
      else stored_status slug db m)"
proof -
  obtain s t where s: "slug = Some s" and t: "task_get db s = Some t"
    using assms(3,4) by (cases slug) (auto simp: the_task_def)
  let ?fn = "\<lambda>t. Inr (put_results now rs t) :: exn + task"
  have valid: "valid_task (put_results now rs t)" "tk_slug (put_results now rs t) = s" "valid_task t"
    using wf_tasks_get [OF assms(2) t] put_results_valid by (simp_all add: put_results_def)
  have "only_integrity (mutate_task s ?fn db)"
    using replace_errors [of db "put_results now rs t"] t valid(2)
    by (auto simp: mutate_task_def intro: only_integrity_rbind)
  then have "\<nexists>k. mutate_task s ?fn db = Inl (KeyError k)" by (auto simp: only_integrity_def)
  with assms(1,3) s obtain r where m: "mutate_task s ?fn db = Inr (r, db')"
    by (auto simp: record_results_def split: sum.splits exn.splits)
  note law = mutate_law [OF assms(2) t refl valid(1,2) m]
  show "wf_tasks db'" by (rule law(2))
  have now: "the_task db' slug = Some (norm_task (put_results now rs t))" using law(3) [of s] by (simp add: the_task_def s)
  then show "the_task db' slug \<noteq> None" by simp
  show "resolve_cwd env db' slug m = resolve_cwd env db slug m"
  proof (rule resolve_cwd_cong)
    have "the_task db slug = Some t" by (simp add: the_task_def s t)
    with now show "rel_option (\<lambda>t t'. map_of (tk_worktrees t') = map_of (tk_worktrees t)) (the_task db slug) (the_task db' slug)"
      by (simp add: norm_worktrees [OF valid(1)]) (simp add: put_results_def)
  qed
  show "stored_status slug db' m = (if m \<in> ro_repo ` set rs then map_option result_status (List.find (\<lambda>r. ro_repo r = m) (rev rs))
      else stored_status slug db m)"
    by (simp only: stored_status_def now option.case norm_status [OF valid(1)] put_results_status)
      (simp add: the_task_def s t)
qed

lemma find_key: "distinct (List.map f xs) \<Longrightarrow> x \<in> set xs \<Longrightarrow> List.find (\<lambda>r. f r = f x) xs = Some x"
  by (induction xs) auto

lemma find_distinct: "distinct (List.map f xs) \<Longrightarrow> x \<in> set xs \<Longrightarrow> List.find (\<lambda>r. f r = f x) (rev xs) = Some x"
  by (rule find_key) (simp_all flip: rev_map)

lemma known_targets:
  assumes "ready env" and "repos \<noteq> []" and "set repos \<subseteq> repo_names_of env"
  shows "targets (xe_graph env) (Some repos) = Inr (remdups repos)"
proof -
  have "filter (\<lambda>r. r \<notin> set (dg_names (xe_graph env))) repos = []"
    using assms(3) readyD(7) [OF assms(1)] by (auto simp: filter_empty_conv)
  with assms(2) show ?thesis by (simp add: targets_def)
qed

lemma planned_leaders:
  assumes "planned env repos groups"
  shows "set (leaders groups) \<subseteq> set repos" and "\<exists>r \<in> set repos. \<not> test_inapplicable env r \<Longrightarrow> leaders groups \<noteq> []"
proof -
  have members: "set repos = set (concat (List.map tg_members groups))"
    using assms mset_eq_setD unfolding planned_def by metis
  have lead: "\<exists>g \<in> set groups. m \<in> set (tg_runnable g)" if "m \<in> set (leaders groups)" for m
  proof -
    have "\<exists>g \<in> set gs. tg_representative g = Some m" if "m \<in> set (leaders gs)" for gs
      using that by (induction gs) (auto split: option.splits)
    from this [OF that] show ?thesis using leader_runnable assms unfolding planned_def by blast
  qed
  show "set (leaders groups) \<subseteq> set repos"
    unfolding members using lead good_group_sub assms by (fastforce simp: planned_def)
  assume "\<exists>r \<in> set repos. \<not> test_inapplicable env r"
  then obtain r g where "g \<in> set groups" "r \<in> set (tg_members g)" "\<not> test_inapplicable env r"
    unfolding members by auto
  then have "tg_runnable g \<noteq> []" "g \<in> set groups" using assms by (auto simp: planned_def good_group_def filter_empty_conv)
  then obtain m where m: "tg_representative g = Some m" using assms
    by (cases "tg_representative g") (auto simp: planned_def good_group_def)
  have "m \<in> set (leaders gs)" if "g \<in> set gs" for gs
    using that m by (induction gs) (auto split: option.splits)
  from this [OF \<open>g \<in> set groups\<close>] show "leaders groups \<noteq> []" by force
qed

lemma ran_reported:
  assumes "ran_tiers (\<lambda>tier. concat (List.map f tier)) run_all tiers rss"
  shows "distinct (before @ concat (List.map f (concat tiers))) \<Longrightarrow> distinct (before @ List.map ro_repo (concat rss))"
    and "ro_repo ` set (concat rss) \<subseteq> set (concat (List.map f (concat tiers)))"
    and "run_all \<or> list_all result_success (concat rss) \<Longrightarrow> ro_repo ` set (concat rss) = set (concat (List.map f (concat tiers)))"
proof -
  have "mset (List.map ro_repo (concat qss)) = mset (concat (List.map f (concat ts)))"
    if "length qss = length ts" "\<forall>i < length qss. mset (List.map ro_repo (qss ! i)) = mset (concat (List.map f (ts ! i)))" for qss ts
    using that
  proof (induction qss ts rule: list_induct2)
    case (Cons qs qss t ts)
    have "\<forall>i < length qss. mset (List.map ro_repo (qss ! i)) = mset (concat (List.map f (ts ! i)))"
      using Cons.prems by (metis Suc_less_eq length_Cons nth_Cons_Suc)
    moreover have "mset (List.map ro_repo qs) = mset (concat (List.map f t))" using Cons.prems by (metis length_Cons nth_Cons_0 zero_less_Suc)
    ultimately show ?case using Cons.IH by (simp del: mset_map)
  qed simp
  from this [of rss "take (length rss) tiers"] assms
  have names: "mset (List.map ro_repo (concat rss)) = mset (concat (List.map f (concat (take (length rss) tiers))))"
    by (simp add: ran_tiers_def)
  have whole: "concat (List.map f (concat tiers)) = concat (List.map f (concat (take (length rss) tiers)))
      @ concat (List.map f (concat (drop (length rss) tiers)))"
    by (metis append_take_drop_id concat_append map_append)
  show "ro_repo ` set (concat rss) \<subseteq> set (concat (List.map f (concat tiers)))"
    using mset_eq_setD [OF names] unfolding whole by auto
  show "distinct (before @ List.map ro_repo (concat rss))" if "distinct (before @ concat (List.map f (concat tiers)))"
  proof -
    have "distinct (before @ concat (List.map f (concat (take (length rss) tiers))))"
      using that unfolding whole append_assoc [symmetric] by (rule distinct_append [THEN iffD1, THEN conjunct1])
    moreover have "mset (before @ List.map ro_repo (concat rss)) = mset (before @ concat (List.map f (concat (take (length rss) tiers))))"
      using names by (simp only: mset_append)
    ultimately show ?thesis using mset_eq_imp_distinct_iff by blast
  qed
  show "ro_repo ` set (concat rss) = set (concat (List.map f (concat tiers)))" if "run_all \<or> list_all result_success (concat rss)"
    using ran_completely [OF assms that] mset_eq_setD [OF names] by simp
qed

end
