(* ===== verification/Executor_Properties.thy ===== *)
theory Executor_Properties
  imports Executor_Laws Task_Properties
begin

text \<open>
  Properties of \<open>RepoExecutor.execute\<close>: dependencies run first and a failure stops what follows, the
  order in which threads finish does not show, and a test run reports every selected repository
  once and records what it reports.
\<close>

section \<open>Order and fail-fast\<close>

text \<open>A result is preceded by the results of the selected dependencies of its repository.\<close>

definition after_dependencies :: "exec_env \<Rightarrow> str set \<Rightarrow> bool \<Rightarrow> repo_result list \<Rightarrow> bool" where
  "after_dependencies env selected run_all rs \<longleftrightarrow> (\<forall>ys r zs. rs = ys @ r # zs \<longrightarrow>
     (\<forall>d \<in> set (dg_reverse (xe_graph env) (ro_repo r)) \<inter> selected. \<exists>q \<in> set ys. ro_repo q = d \<and> (run_all \<or> result_success q)))"

lemma ran_after_dependencies:
  assumes tiers: "tiered (dg_reverse (xe_graph env)) T {} tiers" and ran: "ran_tiers (\<lambda>tier. tier) run_all tiers rss"
  shows "after_dependencies env T run_all (concat rss)"
  unfolding after_dependencies_def
proof (intro allI impI ballI)
  fix ys r zs d
  assume split: "concat rss = ys @ r # zs" and d: "d \<in> set (dg_reverse (xe_graph env) (ro_repo r)) \<inter> T"
  from split obtain us t vs as bs where at: "rss = us @ t # vs" "t = as @ r # bs" "ys = concat us @ as" by (rule split_concat)
  have names: "List.map (List.map ro_repo) rss = take (length rss) tiers"
    by (rule ran_in_order [OF ran tiered_sorted [OF tiers]])
  have "tiers = List.map (List.map ro_repo) rss @ drop (length rss) tiers"
    unfolding names by simp
  then have "tiers = List.map (List.map ro_repo) us @ List.map ro_repo t # (List.map (List.map ro_repo) vs @ drop (length rss) tiers)"
    unfolding at(1) by simp
  from tiered_follows [OF tiers this, of "ro_repo r"] at(2)
  have "set (dg_reverse (xe_graph env) (ro_repo r)) \<inter> T \<subseteq> set (concat (List.map (List.map ro_repo) us))" by simp
  with d have "d \<in> set (concat (List.map (List.map ro_repo) us))" by blast
  then obtain q where q: "q \<in> set (concat us)" "ro_repo q = d" by auto
  with success_before [OF ran [unfolded at(1)]] at(3) show "\<exists>q\<in>set ys. ro_repo q = d \<and> (run_all \<or> result_success q)"
    by auto
qed


text \<open>The sample workspace, where everything works except the tasks of \<open>api\<close>.\<close>

definition demo_env :: exec_env where
  "demo_env = \<lparr>xe_config = sample_config, xe_graph = sample_graph, xe_resolve = (\<lambda>p. p), xe_exists = (\<lambda>_. False),
     xe_shell = (\<lambda>r _. (\<lparr>sr_code = (if r = ''api'' then 1 else 0), sr_out = '''', sr_err = ''''\<rparr>, 5)),
     xe_spawn = (\<lambda>_ _. 77), xe_health = (\<lambda>_ _ _ _ _. (True, '''')), xe_finished = rev, xe_now = (\<lambda>k. Aware 63000000000000000 0)\<rparr>"

lemma demo_ready: "ready demo_env"
proof -
  have "dict_ok (wc_repos sample_config)" "validate_workspace sample_config = Inr ()" by code_simp+
  then show ?thesis by (simp add: ready_def demo_env_def sample_graph_eq finishes_all_def)
qed


section \<open>Test runs\<close>

text \<open>A result stands for the tests of its repository: it is a skip when the tests do not apply, otherwise it
  holds the outcome of a command with the repository's own test target in its own directory,
  whichever repository of that directory ran it.\<close>

definition own_result :: "exec_env \<Rightarrow> task_db \<Rightarrow> str option \<Rightarrow> repo_result \<Rightarrow> bool" where
  "own_result env db slug r \<longleftrightarrow> (if test_inapplicable env (ro_repo r) then ro_skipped r
     else \<not> ro_skipped r \<and> (\<exists>leader cmd. ro_shell r = fst (xe_shell env leader cmd)
       \<and> cm_task cmd = test_target env (ro_repo r) \<and> test_dir env db slug (ro_repo r) = Inr (xe_resolve env (cm_cwd cmd))))"

lemma execute_test_one:
  assumes "execute_one env db slug ''test'' m = Inr res" and "\<not> test_inapplicable env m"
  shows "\<not> ro_skipped res" and "\<exists>cmd. ro_shell res = fst (xe_shell env m cmd) \<and> cm_task cmd = test_target env m
    \<and> resolve_cwd env db slug m = Inr (cm_cwd cmd)"
  using assms by (auto simp: execute_one_def rbind_eq_Inr Let_def test_inapplicable_def test_target_def
      repo_named_def split: if_splits option.splits)

lemma expand_mem:
  assumes "r \<in> set (expand_result groups res)"
  shows "ro_shell r = ro_shell res" and "\<not> ro_skipped res \<Longrightarrow> \<not> ro_skipped r"
    and "ro_repo r \<in> set (covered groups (ro_repo res))"
proof -
  show "ro_shell r = ro_shell res" "\<not> ro_skipped res \<Longrightarrow> \<not> ro_skipped r"
    using assms by (auto simp: expand_result_def Let_def split: option.splits if_splits)
  show "ro_repo r \<in> set (covered groups (ro_repo res))"
    using assms by (simp flip: expand_repos)
qed

lemma leaders_mem: "m \<in> set (leaders groups) \<Longrightarrow> \<exists>g \<in> set groups. tg_representative g = Some m"
  by (induction groups) (auto split: option.splits)

lemma test_tier_results:
  assumes plan: "plan_test_targets env db0 slug repos = Inr groups" and ok: "planned env repos groups"
    and run: "run_tier env slug ''test'' groups tier db = Inr (rs, procs)" and fin: "finishes_all env"
    and tier: "set tier \<subseteq> set (leaders groups)"
    and dirs: "\<And>m. resolve_cwd env db slug m = resolve_cwd env db0 slug m" and r: "r \<in> set rs"
  shows "own_result env db0 slug r"
proof -
  from run obtain os where os: "rmap (execute_one env db slug ''test'') (launch_order env tier) = Inr os"
    and "(if ''test'' = ''run'' then rmap (check_health env db slug) (sort_key ro_repo (concat (List.map (expand_result groups) os)))
       else Inr (sort_key ro_repo (concat (List.map (expand_result groups) os)))) = Inr rs"
    by (rule run_tier_steps)
  then have "rs = sort_key ro_repo (concat (List.map (expand_result groups) os))" by simp
  with r obtain res where res: "res \<in> set os" "r \<in> set (expand_result groups res)" by auto
  obtain m where m: "m \<in> set tier" "execute_one env db slug ''test'' m = Inr res"
    using rmap_mem [OF os res(1)] launch_order_set [OF fin] by blast
  obtain g where g: "g \<in> set groups" "tg_representative g = Some m" using leaders_mem m(1) tier by blast
  have good: "good_group env g" using ok g(1) by (simp add: planned_def)
  have lead: "m \<in> set (tg_runnable g)" by (rule leader_runnable [OF good g(2)])
  have applies: "\<not> test_inapplicable env q" "q \<in> set (tg_members g)" if "q \<in> set (tg_runnable g)" for q
    using that good by (simp_all add: good_group_def)
  have name: "ro_repo res = m" by (rule execute_one_repo [OF m(2)])
  have q: "ro_repo r \<in> set (tg_runnable g)"
    using expand_mem(3) [OF res(2)] mset_eq_setD [OF covered_leader [OF ok g]] name by simp
  have dir: "test_dir env db0 slug (ro_repo r) = test_dir env db0 slug m"
    using plan_law(3) [OF plan g(1)] applies(2) lead q by simp
  have target: "test_target env (ro_repo r) = test_target env m"
    using good lead q unfolding good_group_def by (metis option.inject)
  from execute_test_one [OF m(2) applies(1) [OF lead]] obtain cmd where "\<not> ro_skipped res"
    "ro_shell res = fst (xe_shell env m cmd)" "cm_task cmd = test_target env m" "resolve_cwd env db slug m = Inr (cm_cwd cmd)" by blast
  then show ?thesis
    using expand_mem(1,2) [OF res(2)] applies(1) [OF q] dir target dirs [of m]
    unfolding own_result_def test_dir_def by auto
qed

text \<open>What holds between two tiers.\<close>

definition between_tiers :: "exec_env \<Rightarrow> task_db \<Rightarrow> str option \<Rightarrow> execution_result \<Rightarrow> task_db \<Rightarrow> bool" where
  "between_tiers env db0 slug x db \<longleftrightarrow> wf_tasks db \<and> the_task db slug \<noteq> None
     \<and> (\<forall>m. resolve_cwd env db slug m = resolve_cwd env db0 slug m)
     \<and> (\<forall>r \<in> set (xr_results x). own_result env db0 slug r \<and> stored_status slug db (ro_repo r) = Some (result_status r))
     \<and> (\<forall>m. m \<notin> ro_repo ` set (xr_results x) \<longrightarrow> stored_status slug db m = stored_status slug db0 m)"

lemma between_tiers_record:
  assumes "between_tiers env db0 slug x db" and "record_results slug now rs db = Inr db'" and "truthy slug"
    and "distinct (List.map ro_repo (xr_results x @ rs))" and "\<forall>r \<in> set rs. own_result env db0 slug r"
  shows "between_tiers env db0 slug (x\<lparr>xr_results := xr_results x @ rs\<rparr>) db'"
proof -
  note old = assms(1) [unfolded between_tiers_def]
  note law = record_results_law [OF assms(2) _ assms(3)]
  have "stored_status slug db' (ro_repo r) = Some (result_status r)" if "r \<in> set rs" for r
    using law(4) [of "ro_repo r"] old that find_distinct [of ro_repo rs r] assms(4) by simp
  moreover have "stored_status slug db' (ro_repo r) = Some (result_status r)" if "r \<in> set (xr_results x)" for r
    using law(4) [of "ro_repo r"] old that assms(4) by (auto simp: disjoint_iff)
  moreover have "stored_status slug db' m = stored_status slug db0 m" if "m \<notin> ro_repo ` set (xr_results x @ rs)" for m
    using law(4) [of m] old that by auto
  ultimately show ?thesis
    unfolding between_tiers_def using law(1,2,3) old assms(5) by auto
qed

lemma test_tiers_law:
  assumes plan: "plan_test_targets env db0 slug repos = Inr groups" and ok: "planned env repos groups"
    and fin: "finishes_all env" and slug: "truthy slug"
    and "run_tiers env slug ''test'' groups run_all k tiers (x, db) = Inr (x', db')"
    and "between_tiers env db0 slug x db" and "set (concat tiers) \<subseteq> set (leaders groups)"
    and "distinct (List.map ro_repo (xr_results x) @ concat (List.map (covered groups) (concat tiers)))"
  shows "between_tiers env db0 slug x' db'"
  using assms(5-8)
proof (induction tiers arbitrary: k x db)
  case (Cons tier tiers)
  from Cons.prems(1) obtain rs procs db1 where r: "run_tier env slug ''test'' groups tier db = Inr (rs, procs)"
    and rec: "record_results slug (xe_now env k) rs db = Inr db1"
    and after: "(if \<not> list_all result_success rs \<and> \<not> run_all
        then Inr (\<lparr>xr_results = xr_results x @ rs, xr_processes = xr_processes x @ procs\<rparr>, db1)
        else run_tiers env slug ''test'' groups run_all (Suc k) tiers
          (\<lparr>xr_results = xr_results x @ rs, xr_processes = xr_processes x @ procs\<rparr>, db1)) = Inr (x', db')"
    by (auto simp: rbind_eq_Inr Let_def)
  let ?x = "\<lparr>xr_results = xr_results x @ rs, xr_processes = xr_processes x @ procs\<rparr>"
  have names: "mset (List.map ro_repo rs) = mset (concat (List.map (covered groups) tier))"
    by (rule run_tier_repos(1) [OF r fin])
  have all: "mset (List.map ro_repo (xr_results ?x) @ concat (List.map (covered groups) (concat tiers)))
      = mset (List.map ro_repo (xr_results x) @ concat (List.map (covered groups) (concat (tier # tiers))))"
    using names by (simp del: mset_map)
  then have dist: "distinct (List.map ro_repo (xr_results ?x) @ concat (List.map (covered groups) (concat tiers)))"
    using Cons.prems(4) mset_eq_imp_distinct_iff by blast
  have own: "\<forall>r \<in> set rs. own_result env db0 slug r"
    using test_tier_results [OF plan ok r fin] Cons.prems(2,3) by (auto simp: between_tiers_def)
  have "between_tiers env db0 slug (x\<lparr>xr_results := xr_results x @ rs\<rparr>) db1"
    by (rule between_tiers_record [OF Cons.prems(2) rec slug _ own]) (use distinct_append [THEN iffD1, OF dist] in simp)
  then have step: "between_tiers env db0 slug ?x db1" by (simp add: between_tiers_def)
  show ?case
  proof (cases "\<not> list_all result_success rs \<and> \<not> run_all")
    case True
    with after step show ?thesis by simp
  next
    case False
    with after have "run_tiers env slug ''test'' groups run_all (Suc k) tiers (?x, db1) = Inr (x', db')" by auto
    from Cons.IH [OF this step _ dist] Cons.prems(3) show ?thesis by simp
  qed
qed simp

lemma own_skip:
  assumes "planned env repos groups" and "r \<in> set (pre_skips groups)"
  shows "own_result env db slug r" and "result_status r = Skip"
proof -
  from assms(2) have "ro_repo r \<in> set (List.map ro_repo (pre_skips groups))" by simp
  then have "test_inapplicable env (ro_repo r)"
    unfolding pre_skips_repos [OF assms(1)] using assms(1) by (auto simp: planned_def good_group_def)
  moreover have "ro_skipped r" using assms(2) by (auto simp: pre_skips_def skip_result_def)
  ultimately show "own_result env db slug r" "result_status r = Skip" by (simp_all add: own_result_def result_status_def)
qed

lemma between_tiers_start:
  assumes "planned env repos groups"
    and rec: "(if pre_skips groups = [] then Inr db else record_results slug now (pre_skips groups) db) = Inr db1"
    and "wf_tasks db" and "truthy slug" and "the_task db slug \<noteq> None"
    and "distinct (List.map ro_repo (pre_skips groups))"
  shows "between_tiers env db slug \<lparr>xr_results = pre_skips groups, xr_processes = []\<rparr> db1"
proof -
  let ?x = "\<lparr>xr_results = [], xr_processes = []\<rparr>"
  have start: "between_tiers env db slug ?x db" using assms(3,5) by (simp add: between_tiers_def)
  show ?thesis
  proof (cases "pre_skips groups = []")
    case True
    with rec start show ?thesis by simp
  next
    case False
    with rec have "record_results slug now (pre_skips groups) db = Inr db1" by simp
    from between_tiers_record [OF start this assms(4)] own_skip(1) [OF assms(1)] assms(6) show ?thesis by simp
  qed
qed

text \<open>C19: A test run of a task over distinct known repositories of a valid workspace, at least one of which has tests:
  no repository is reported twice or unselected, repositories without tests are skips and every
  other result is the outcome of its own tests in its own directory, even when it shares the
  directory with another; unless something failed and the run was not asked to go on, all are
  reported; and afterwards the stored task has the status of each result and its other statuses as
  before.\<close>

theorem test_run_reports_selection:
  assumes "ready env" and "distinct repos" and "set repos \<subseteq> repo_names_of env"
    and "\<exists>r \<in> set repos. \<not> test_inapplicable env r"
    and "wf_tasks db" and "truthy slug" and "the_task db slug \<noteq> None"
    and "execute env ''test'' repos run_all slug db = Inr (x, db')"
  shows "distinct (List.map ro_repo (xr_results x)) \<and> ro_repo ` set (xr_results x) \<subseteq> set repos
    \<and> (run_all \<or> execution_success x \<longrightarrow> ro_repo ` set (xr_results x) = set repos)
    \<and> (\<forall>r \<in> set (xr_results x). own_result env db slug r)
    \<and> (\<forall>m. stored_status slug db' m = (case List.find (\<lambda>r. ro_repo r = m) (xr_results x) of
        Some r \<Rightarrow> Some (result_status r) | None \<Rightarrow> stored_status slug db m))"
proof -
  note ok = readyD [OF assms(1)]
  from assms(8) obtain groups db1 tiers where plan: "plan_test_targets env db slug repos = Inr groups"
    and rec: "(if pre_skips groups = [] then Inr db else record_results slug (xe_now env 0) (pre_skips groups) db) = Inr db1"
    and tiers: "topo_tiers (xe_graph env) (Some (leaders groups)) = Inr tiers"
    and run: "run_tiers env slug ''test'' groups run_all 1 tiers (\<lparr>xr_results = pre_skips groups, xr_processes = []\<rparr>, db1) = Inr (x, db')"
    by (rule execute_test_steps)
  have good: "planned env repos groups" using plan_law(1,2) [OF plan] assms(2) by (simp add: planned_def)
  have sub: "set (leaders groups) \<subseteq> set repos" "leaders groups \<noteq> []" by (rule planned_leaders(1) [OF good], rule planned_leaders(2) [OF good assms(4)])
  have sel: "targets (xe_graph env) (Some (leaders groups)) = Inr (remdups (leaders groups))"
    by (rule known_targets [OF assms(1) sub(2)]) (use sub(1) assms(3) in blast)
  have cover: "distinct (concat tiers)" "set (concat tiers) = set (leaders groups)"
    using complete_tiers [OF ok(3,2,1) sel tiers] by simp_all
  then have order: "mset (concat tiers) = mset (leaders groups)"
    using leaders_distinct [OF good] set_eq_iff_mset_eq_distinct by blast
  note total = planned_total [OF good order]
  then have dist: "distinct (List.map ro_repo (pre_skips groups) @ concat (List.map (covered groups) (concat tiers)))"
    using assms(2) mset_eq_imp_distinct_iff by blast
  have start: "between_tiers env db slug \<lparr>xr_results = pre_skips groups, xr_processes = []\<rparr> db1"
    by (rule between_tiers_start [OF good rec assms(5-7)]) (use distinct_append [THEN iffD1, OF dist] in simp)
  have fin: "between_tiers env db slug x db'"
    by (rule test_tiers_law [OF plan good ok(4) assms(6) run start]) (use cover dist in simp_all)
  obtain rss where x: "xr_results x = pre_skips groups @ concat rss"
    and ran: "ran_tiers (\<lambda>tier. concat (List.map (covered groups) tier)) run_all tiers rss"
    using run_tiers_law [OF run ok(4)] by auto
  note reported = ran_reported [OF ran]
  have whole: "set repos = ro_repo ` set (pre_skips groups) \<union> set (concat (List.map (covered groups) (concat tiers)))"
    using mset_eq_setD [OF total] by (simp only: set_append set_map)
  have shown: "ro_repo ` set (xr_results x) = ro_repo ` set (pre_skips groups) \<union> ro_repo ` set (concat rss)"
    unfolding x set_append image_Un ..
  have "distinct (List.map ro_repo (xr_results x))" unfolding x map_append by (rule reported(1) [OF dist])
  moreover have "ro_repo ` set (xr_results x) \<subseteq> set repos" unfolding shown whole using reported(2) by blast
  moreover have "ro_repo ` set (xr_results x) = set repos" if "run_all \<or> execution_success x"
  proof -
    have "run_all \<or> list_all result_success (concat rss)" using that by (auto simp: execution_success_def x)
    from reported(3) [OF this] show ?thesis unfolding shown whole by simp
  qed
  moreover have "stored_status slug db' m = (case List.find (\<lambda>r. ro_repo r = m) (xr_results x) of
        Some r \<Rightarrow> Some (result_status r) | None \<Rightarrow> stored_status slug db m)" for m
  proof (cases "List.find (\<lambda>r. ro_repo r = m) (xr_results x)")
    case None
    then have "m \<notin> ro_repo ` set (xr_results x)" by (auto simp: find_None_iff)
    with fin None show ?thesis by (simp add: between_tiers_def)
  next
    case (Some r)
    then have "r \<in> set (xr_results x)" "ro_repo r = m" by (auto simp: find_Some_iff)
    with fin Some show ?thesis by (auto simp: between_tiers_def)
  qed
  ultimately show ?thesis using fin by (simp add: between_tiers_def)
qed

text \<open>The sample workspace with \<open>web\<close> without tests; \<open>api\<close> and \<open>schemas\<close> share a directory.\<close>

definition tests_config :: workspace_config where
  "tests_config = sample_config\<lparr>wc_repos := AList.update ''web''
     (plain_repo\<lparr>rc_git_root := Some ''api'', rc_not_applicable := [''test'']\<rparr>) (wc_repos sample_config)\<rparr>"

definition tests_graph :: dep_graph where
  "tests_graph = (case dependency_graph tests_config of Inr g \<Rightarrow> g | Inl e \<Rightarrow> sample_graph)"

definition tests_env :: exec_env where
  "tests_env = demo_env\<lparr>xe_config := tests_config, xe_graph := tests_graph\<rparr>"

lemma tests_ready: "ready tests_env"
proof -
  have ok: "dict_ok (wc_repos tests_config)" "validate_workspace tests_config = Inr ()"
    "validate_depends_on_refs tests_config = Inr ()" by code_simp+
  then have "dependency_graph tests_config = Inr tests_graph"
    using dependency_graph_total [OF ok(3)] by (auto simp: tests_graph_def)
  with ok show ?thesis by (simp add: ready_def tests_env_def demo_env_def finishes_all_def)
qed

definition tests_run :: "str list \<Rightarrow> exec_error + execution_result \<times> task_db" where
  "tests_run repos = execute tests_env ''test'' repos False (Some ''up'') saved_db"

lemma tests_run_values:
  "List.map (\<lambda>r. (ro_repo r, ro_shared_with r)) (xr_results (fst (projr (tests_run [''web'', ''api'', ''schemas'']))))
     = [(''web'', []), (''api'', [''schemas'']), (''schemas'', [''api''])]"
  "(case tests_run [''web'', ''api'', ''schemas''] of Inr _ \<Rightarrow> True | Inl _ \<Rightarrow> False)"
  "\<not> test_inapplicable tests_env ''api''" "the_task saved_db (Some ''up'') \<noteq> None"
  by code_simp+

theorem test_run_reports_selection_witness:
  "own_result tests_env saved_db (Some ''up'') (xr_results (fst (projr (tests_run [''web'', ''api'', ''schemas'']))) ! 2)
   \<and> stored_status (Some ''up'') (snd (projr (tests_run [''web'', ''api'', ''schemas'']))) ''schemas'' = Some Fail"
proof -
  let ?repos = "[''web'', ''api'', ''schemas'']"
  obtain x db' where run: "tests_run ?repos = Inr (x, db')"
    using tests_run_values(2) by (auto split: sum.splits)
  have sel: "distinct ?repos" "set ?repos \<subseteq> repo_names_of tests_env" by code_simp+
  have some: "\<exists>r \<in> set ?repos. \<not> test_inapplicable tests_env r" using tests_run_values(3) by simp
  have names: "List.map ro_repo (xr_results x) = ?repos"
    using arg_cong [OF tests_run_values(1), of "List.map fst"] run by (simp add: o_def)
  have fail: "map_option result_status (List.find (\<lambda>r. ro_repo r = ''schemas'')
      (xr_results (fst (projr (tests_run ?repos))))) = Some Fail" by code_simp
  note law = test_run_reports_selection [OF tests_ready sel some wf_saved _ tests_run_values(4)
      run [unfolded tests_run_def]]
  have "xr_results x ! 2 \<in> set (xr_results x)" using arg_cong [OF names, of length] by simp
  moreover have "stored_status (Some ''up'') db' ''schemas'' = Some Fail"
    using law fail run by (auto simp: truthy_def split: option.splits)
  ultimately show ?thesis using law run by (simp add: truthy_def)
qed

text \<open>A selection without any tests leaves no repository to run, and an empty list selects all of them:
  the tests of repositories nobody selected run and their results are recorded on the task.\<close>

theorem unselected_tests_run:
  "List.map ro_repo (xr_results (fst (projr (tests_run [''web''])))) = [''web'', ''schemas'', ''api'']
   \<and> stored_status (Some ''up'') (snd (projr (tests_run [''web'']))) ''api'' = Some Fail"
  by code_simp

section \<open>The order in which threads finish\<close>

lemma finished_irrelevant [simp]:
  "execute_one (env\<lparr>xe_finished := f\<rparr>) = execute_one env"
  "check_health (env\<lparr>xe_finished := f\<rparr>) = check_health env"
  "plan_test_targets (env\<lparr>xe_finished := f\<rparr>) = plan_test_targets env"
proof -
  have base: "repo_named (env\<lparr>xe_finished := f\<rparr>) = repo_named env" "resolve_env_runner (env\<lparr>xe_finished := f\<rparr>) = resolve_env_runner env"
    by (simp_all add: fun_eq_iff repo_named_def resolve_env_runner_def)
  then have cwd: "resolve_cwd (env\<lparr>xe_finished := f\<rparr>) = resolve_cwd env"
    by (simp add: fun_eq_iff resolve_cwd_def Let_def cong del: option.case_cong_weak if_weak_cong)
  have same: "test_inapplicable (env\<lparr>xe_finished := f\<rparr>) = test_inapplicable env" "declares_test (env\<lparr>xe_finished := f\<rparr>) = declares_test env"
    "test_target (env\<lparr>xe_finished := f\<rparr>) = test_target env"
    by (simp_all add: fun_eq_iff test_inapplicable_def declares_test_def test_target_def)
  have "plan_group (env\<lparr>xe_finished := f\<rparr>) = plan_group env"
    by (rule ext) (simp only: plan_group_def same)
  then show "plan_test_targets (env\<lparr>xe_finished := f\<rparr>) = plan_test_targets env"
    by (intro ext) (simp add: plan_test_targets_def group_by_cwd_def cwd)
  from base cwd show "execute_one (env\<lparr>xe_finished := f\<rparr>) = execute_one env" "check_health (env\<lparr>xe_finished := f\<rparr>) = check_health env"
    by (simp_all add: fun_eq_iff execute_one_def check_health_def Let_def
      cong del: option.case_cong_weak if_weak_cong)
qed

lemma rmap_perm:
  assumes "rmap f xs = Inr ys" and "mset xs' = mset xs"
  obtains ys' where "rmap f xs' = Inr ys'" and "mset ys' = mset ys"
proof -
  have at: "f x = Inr (projr (f x))" if "x \<in> set xs" for x
    using assms(1) that by (induction xs arbitrary: ys) (auto simp: rbind_eq_Inr)
  have image: "(\<forall>x \<in> set zs. f x = Inr (projr (f x))) \<Longrightarrow> rmap f zs = Inr (List.map (\<lambda>x. projr (f x)) zs)" for zs
  proof (induction zs)
    case (Cons z zs)
    then obtain y where "f z = Inr y" by (metis list.set_intros(1))
    with Cons show ?case by simp
  qed simp
  have "rmap f xs = Inr (List.map (\<lambda>x. projr (f x)) xs)" using image at by blast
  with assms(1) have ys: "ys = List.map (\<lambda>x. projr (f x)) xs" by simp
  have "rmap f xs' = Inr (List.map (\<lambda>x. projr (f x)) xs')" using image at mset_eq_setD [OF assms(2)] by blast
  then show thesis using that assms(2) ys by simp
qed

lemma mset_short: "mset xs = mset ys \<Longrightarrow> length ys \<le> 1 \<Longrightarrow> xs = ys"
  by (cases ys) auto

lemma sort_key_perm:
  assumes "mset xs = mset ys" and "distinct (List.map k xs)"
  shows "sort_key k xs = sort_key k ys"
proof (rule properties_for_sort_key [symmetric])
  show "mset (sort_key k xs) = mset ys" using assms(1) by simp
  show "sorted (List.map k (sort_key k xs))" by simp
  have one: "length (filter (\<lambda>y. k y = c) zs) \<le> 1" if "distinct (List.map k zs)" for zs and c
    using that
  proof (induction zs)
    case (Cons z zs)
    then have "k y \<noteq> k z" if "y \<in> set zs" for y using imageI [OF that, of k] by auto
    then have "k z = c \<Longrightarrow> filter (\<lambda>y. k y = c) zs = []" by (auto simp: filter_empty_conv)
    with Cons show ?case by simp
  qed simp
  show "filter (\<lambda>y. k c = k y) (sort_key k xs) = filter (\<lambda>y. k c = k y) ys" for c
  proof -
    have "length (filter (\<lambda>y. k y = k c) ys) \<le> 1"
      using assms mset_eq_imp_distinct_iff [of "List.map k xs" "List.map k ys"] one [of ys "k c"] by simp
    moreover have "mset (filter (\<lambda>y. k y = k c) (sort_key k xs)) = mset (filter (\<lambda>y. k y = k c) ys)" using assms(1) by simp
    ultimately have "filter (\<lambda>y. k y = k c) (sort_key k xs) = filter (\<lambda>y. k y = k c) ys"
      by (rule mset_short [rotated])
    then show ?thesis by (simp add: eq_commute)
  qed
qed

lemma run_tier_perm:
  assumes run: "run_tier env slug verb groups tier db = Inr (rs, procs)" and fin: "finishes_all env" "finishes_all (env\<lparr>xe_finished := f\<rparr>)"
    and dist: "distinct (concat (List.map (covered groups) tier))"
  shows "\<exists>procs'. run_tier (env\<lparr>xe_finished := f\<rparr>) slug verb groups tier db = Inr (rs, procs') \<and> mset procs' = mset procs"
proof -
  let ?env = "env\<lparr>xe_finished := f\<rparr>"
  from run obtain os where os: "rmap (execute_one env db slug verb) (launch_order env tier) = Inr os"
    and procs: "procs = List.map_filter ro_pid os"
    and rs: "(if verb = ''run'' then rmap (check_health env db slug) (sort_key ro_repo (concat (List.map (expand_result groups) os)))
       else Inr (sort_key ro_repo (concat (List.map (expand_result groups) os)))) = Inr rs"
    by (rule run_tier_steps)
  have order: "mset (launch_order ?env tier) = mset (launch_order env tier)"
    using fin by (simp add: finishes_all_def)
  obtain os' where os': "rmap (execute_one env db slug verb) (launch_order ?env tier) = Inr os'" "mset os' = mset os"
    by (rule rmap_perm [OF os order])
  have results: "mset (concat (List.map (expand_result groups) os')) = mset (concat (List.map (expand_result groups) os))"
    by (rule mset_concat_map [OF os'(2)])
  have "List.map ro_repo os = launch_order env tier" by (rule rmap_keys [OF os]) (rule execute_one_repo)
  then have "mset (List.map ro_repo (concat (List.map (expand_result groups) os))) = mset (concat (List.map (covered groups) tier))"
    unfolding map_concat_expand using fin(1) by (intro mset_concat_map) (simp add: finishes_all_def)
  then have "distinct (List.map ro_repo (concat (List.map (expand_result groups) os)))"
    using dist mset_eq_imp_distinct_iff by blast
  then have "sort_key ro_repo (concat (List.map (expand_result groups) os')) = sort_key ro_repo (concat (List.map (expand_result groups) os))"
    by (rule sort_key_perm [OF results [symmetric], symmetric])
  with os'(1) rs have "run_tier ?env slug verb groups tier db = Inr (rs, List.map_filter ro_pid os')"
    by (simp add: run_tier_def Let_def split: if_splits)
  moreover have "mset (List.map_filter ro_pid os') = mset procs"
    using os'(2) unfolding procs by (simp add: List.map_filter_def)
  ultimately show ?thesis by blast
qed

lemma run_tiers_perm:
  assumes "run_tiers env slug verb groups run_all k tiers (x, db) = Inr (x', db')"
    and fin: "finishes_all env" "finishes_all (env\<lparr>xe_finished := f\<rparr>)"
    and "distinct (concat (List.map (covered groups) (concat tiers)))"
    and "xr_results y = xr_results x" and "mset (xr_processes y) = mset (xr_processes x)"
  shows "\<exists>y'. run_tiers (env\<lparr>xe_finished := f\<rparr>) slug verb groups run_all k tiers (y, db) = Inr (y', db')
    \<and> xr_results y' = xr_results x' \<and> mset (xr_processes y') = mset (xr_processes x')"
  using assms(1,4-6)
proof (induction tiers arbitrary: k x y db)
  case (Cons tier tiers)
  from Cons.prems(1) obtain rs procs db1 where r: "run_tier env slug verb groups tier db = Inr (rs, procs)"
    and rec: "(if verb = ''test'' then record_results slug (xe_now env k) rs db else Inr db) = Inr db1"
    and after: "(if \<not> list_all result_success rs \<and> \<not> run_all
        then Inr (\<lparr>xr_results = xr_results x @ rs, xr_processes = xr_processes x @ procs\<rparr>, db1)
        else run_tiers env slug verb groups run_all (Suc k) tiers
          (\<lparr>xr_results = xr_results x @ rs, xr_processes = xr_processes x @ procs\<rparr>, db1)) = Inr (x', db')"
    by (auto simp: rbind_eq_Inr Let_def)
  obtain procs' where r': "run_tier (env\<lparr>xe_finished := f\<rparr>) slug verb groups tier db = Inr (rs, procs')" "mset procs' = mset procs"
    using run_tier_perm [OF r fin] Cons.prems(2) by auto
  let ?x = "\<lparr>xr_results = xr_results x @ rs, xr_processes = xr_processes x @ procs\<rparr>"
    and ?y = "\<lparr>xr_results = xr_results y @ rs, xr_processes = xr_processes y @ procs'\<rparr>"
  have step: "run_tiers (env\<lparr>xe_finished := f\<rparr>) slug verb groups run_all k (tier # tiers) (y, db) =
      (if \<not> list_all result_success rs \<and> \<not> run_all then Inr (?y, db1)
       else run_tiers (env\<lparr>xe_finished := f\<rparr>) slug verb groups run_all (Suc k) tiers (?y, db1))"
    using rec r'(1) by (cases "verb = ''test''") (simp_all add: Let_def)
  have same: "xr_results ?y = xr_results ?x" "mset (xr_processes ?y) = mset (xr_processes ?x)"
    using Cons.prems(3,4) r'(2) by simp_all
  show ?case
  proof (cases "\<not> list_all result_success rs \<and> \<not> run_all")
    case True
    with after step same show ?thesis by auto
  next
    case False
    with after have "run_tiers env slug verb groups run_all (Suc k) tiers (?x, db1) = Inr (x', db')" by auto
    with False step Cons.IH [OF this _ same] Cons.prems(2) show ?thesis by (simp only: if_False) simp
  qed
qed simp

lemma other_db: "run_tiers env slug verb groups run_all k tiers (x, db) = Inr (x', db') \<Longrightarrow> verb \<noteq> ''test'' \<Longrightarrow> db' = db"
  by (induction tiers arbitrary: k x) (auto simp: rbind_eq_Inr Let_def split: if_splits)

lemma covered_no_leaders: "leaders groups = [] \<Longrightarrow> covered groups r = [r]"
proof -
  assume "leaders groups = []"
  then have "\<forall>g \<in> set groups. tg_representative g \<noteq> Some r"
    by (induction groups) (auto split: option.splits)
  then have "List.find (\<lambda>g. tg_representative g = Some r) groups = None" by (simp add: find_None_iff)
  then show ?thesis by (simp add: covered_def)
qed

lemma tiers_covered_once:
  assumes "ready env" and "planned env repos groups"
    and "topo_tiers (xe_graph env) (Some (leaders groups)) = Inr tiers"
  shows "distinct (concat (List.map (covered groups) (concat tiers)))"
proof -
  note ok = readyD [OF assms(1)]
  from assms(3) obtain ts where ts: "targets (xe_graph env) (Some (leaders groups)) = Inr ts"
    by (auto simp: topo_tiers_def rbind_eq_Inr)
  note tiers = complete_tiers [OF ok(3,2,1) ts assms(3)]
  show ?thesis
  proof (cases "leaders groups = []")
    case True
    then show ?thesis using tiers(1) covered_no_leaders by (simp cong: map_cong)
  next
    case False
    with ts have "set ts = set (leaders groups)" by (auto simp: targets_def split: list.splits)
    with tiers leaders_distinct [OF assms(2)] have "mset (concat tiers) = mset (leaders groups)"
      using set_eq_iff_mset_eq_distinct by metis
    from planned_total [OF assms(2) this] assms(2)
    have "distinct (List.map ro_repo (pre_skips groups) @ concat (List.map (covered groups) (concat tiers)))"
      using mset_eq_imp_distinct_iff unfolding planned_def by blast
    from distinct_append [THEN iffD1, OF this] show ?thesis by blast
  qed
qed

text \<open>C20: The order in which the threads of a tier happen to finish does not show: in a valid workspace, for distinct
  repositories, any two orders give the same results in the same order, the same task store and
  the same background processes.\<close>

theorem finishing_order_irrelevant:
  assumes "ready env" and "finishes_all (env\<lparr>xe_finished := f\<rparr>)" and "distinct repos"
    and "execute env verb repos run_all slug db = Inr (x, db')"
  shows "\<exists>y. execute (env\<lparr>xe_finished := f\<rparr>) verb repos run_all slug db = Inr (y, db')
    \<and> xr_results y = xr_results x \<and> mset (xr_processes y) = mset (xr_processes x)"
proof (cases "verb = ''test''")
  case True
  from assms(4) [unfolded True] obtain groups db1 tiers where plan: "plan_test_targets env db slug repos = Inr groups"
    and rec: "(if pre_skips groups = [] then Inr db else record_results slug (xe_now env 0) (pre_skips groups) db) = Inr db1"
    and tiers: "topo_tiers (xe_graph env) (Some (leaders groups)) = Inr tiers"
    and run: "run_tiers env slug ''test'' groups run_all 1 tiers (\<lparr>xr_results = pre_skips groups, xr_processes = []\<rparr>, db1) = Inr (x, db')"
    by (rule execute_test_steps)
  have "planned env repos groups" using plan_law(1,2) [OF plan] assms(3) by (simp add: planned_def)
  from run_tiers_perm [OF run readyD(4) [OF assms(1)] assms(2) tiers_covered_once [OF assms(1) this tiers] refl refl]
  show ?thesis
    using plan rec tiers by (cases "pre_skips groups = []") (simp_all add: True execute_def lift_exn_def Let_def)
next
  case False
  with assms(4) obtain tiers where tiers: "topo_tiers (xe_graph env) (Some repos) = Inr tiers"
    and run: "run_tiers env slug verb [] run_all 1 tiers (\<lparr>xr_results = [], xr_processes = []\<rparr>, db) = Inr (x, db')"
    by (auto simp: execute_def rbind_eq_Inr lift_exn_def pre_skips_def split: sum.splits)
  from tiers obtain ts where ts: "targets (xe_graph env) (Some repos) = Inr ts"
    by (auto simp: topo_tiers_def rbind_eq_Inr)
  have "distinct (concat (List.map (covered []) (concat tiers)))"
    using complete_tiers(1) [OF readyD(3,2,1) [OF assms(1)] ts tiers] by simp
  from run_tiers_perm [OF run readyD(4) [OF assms(1)] assms(2) this refl refl]
  show ?thesis using False tiers by (simp add: execute_def lift_exn_def pre_skips_def)
qed

theorem finishing_order_irrelevant_witness:
  "\<exists>x y. execute demo_env ''build'' [''web'', ''schemas''] False None empty_db = Inr (x, empty_db)
     \<and> execute (demo_env\<lparr>xe_finished := (\<lambda>tier. tier)\<rparr>) ''build'' [''web'', ''schemas''] False None empty_db = Inr (y, empty_db)
     \<and> xr_results y = xr_results x \<and> List.map ro_repo (xr_results x) = [''schemas'', ''web'']"
proof -
  let ?run = "execute demo_env ''build'' [''web'', ''schemas''] False None empty_db"
  have v: "List.map ro_repo (xr_results (fst (projr ?run))) = [''schemas'', ''web'']"
    "(case ?run of Inr _ \<Rightarrow> True | Inl _ \<Rightarrow> False)" by code_simp+
  have two: "distinct [''web'', ''schemas'']" by simp
  from v(2) obtain x db' where run: "?run = Inr (x, db')" by (auto split: sum.splits)
  moreover have "db' = empty_db" using run
    by (auto simp: execute_def rbind_eq_Inr lift_exn_def pre_skips_def split: sum.splits dest!: other_db)
  moreover have "finishes_all (demo_env\<lparr>xe_finished := (\<lambda>tier. tier)\<rparr>)" by (simp add: finishes_all_def)
  ultimately show ?thesis
    using finishing_order_irrelevant [OF demo_ready _ two run, of "\<lambda>tier. tier"] v(1) by auto
qed

end
