(* ===== verification/Launch_Scheduler.thy ===== *)
theory Launch_Scheduler
  imports Executor
begin

text \<open>
  The scheduler of mixed launches (core/executor.py: \<open>launch_local\<close>, \<open>cancel_local_run\<close> and
  \<open>launch_profiled\<close>). The main thread, which starts the tiers and takes events from a queue, is a
  function of its state; the worker threads may register a spawned process, see it end and post
  any event at any moment, so that the runs of the step relation contain every interleaving.
  Taking an event, with the stopping of leftover locals before it, and starting a tier are single
  steps. Joining threads with a timeout and the printing of streams are left out.
\<close>

section \<open>A local worker\<close>

text \<open>What \<open>launch_local\<close> sees: the cancel event at its four checks, the exit code of a foreground task
  (None for a background one), whether the run was stopped before its exit was recorded, the health check, and the exit code polled last.\<close>

record local_view =
  lv_skipped :: bool
  lv_cancel_spawned :: bool
  lv_exit :: "int option"
  lv_stopped :: bool
  lv_cancel_exited :: bool
  lv_health :: "(bool \<times> bool) option"
  lv_poll :: "int option"
  lv_cancel_last :: bool

datatype event = Started | Ready | Done "str option" | Failed str

text \<open>The status of the run when the worker is done with it: \<open>_finish_local_run\<close> sets it at the exit.\<close>

definition exit_status :: "bool \<Rightarrow> int option \<Rightarrow> str" where
  "exit_status stopped rc = (case rc of None \<Rightarrow> ''active''
     | Some c \<Rightarrow> if stopped \<or> c = 0 then ''stopped'' else ''failed'')"

definition launch_local :: "str \<Rightarrow> local_view \<Rightarrow> event list" where
  "launch_local r v =
     (let status = exit_status (lv_stopped v) (lv_exit v); failed = Failed (r @ '': failed to start'') in
      Started #
      (if lv_cancel_spawned v then [Done (Some ''stopped'')]
       else if lv_skipped v then [Ready, Done (Some ''stopped'')]
       else if lv_cancel_exited v then [Done (Some status)]
       else if lv_exit v \<noteq> None \<and> lv_exit v \<noteq> Some 0 then [failed]
       else (case lv_health v of
           Some (healthy, cancelled) \<Rightarrow>
             if cancelled then [Done (Some status)]
             else if \<not> healthy then [failed]
             else if lv_poll v \<noteq> None \<and> lv_poll v \<noteq> Some 0 then [failed]
             else if lv_cancel_last v then [Done (Some status)] else [Ready, Done (Some status)]
         | None \<Rightarrow>
             if lv_poll v \<noteq> None \<and> lv_poll v \<noteq> Some 0 then [failed]
             else if lv_cancel_last v then [Done (Some status)] else [Ready, Done (Some status)])))"

lemma local_ready_works:
  assumes "Ready \<in> set (launch_local r v)"
  shows "lv_skipped v \<or> (lv_exit v \<in> {None, Some 0} \<and> lv_poll v \<in> {None, Some 0}
    \<and> (\<forall>h c. lv_health v = Some (h, c) \<longrightarrow> h))"
  using assms by (auto simp: launch_local_def Let_def split: if_splits option.splits)

section \<open>State\<close>

record launch_env =
  le_profiled :: "str list"
  le_local :: "str list"
  le_tiers :: "str list list"

datatype launch_mode = Starting | Waiting | Waiting_Get | Draining | Finishing | Finishing_Get | Returned | Raised str

record sched =
  sc_mode :: launch_mode
  sc_left :: "str list list"
  sc_pending :: "str list"
  sc_started :: "str list"
  sc_queue :: "(str \<times> event) list"
  sc_locals :: "str list"
  sc_running :: "str list"
  sc_ready :: "str list"
  sc_acknowledged :: "str list"
  sc_terminal :: "str list"
  sc_cancelled :: "str list"
  sc_results :: "(str \<times> str option) list"

definition sched_init :: "launch_env \<Rightarrow> sched" where
  "sched_init env = \<lparr>sc_mode = (if le_tiers env = [] then Finishing else Starting), sc_left = le_tiers env, sc_pending = [],
     sc_started = [], sc_queue = [], sc_locals = [], sc_running = [], sc_ready = [], sc_acknowledged = [],
     sc_terminal = [], sc_cancelled = [], sc_results = []\<rparr>"

definition stop_local :: "str \<Rightarrow> sched \<Rightarrow> sched" where
  "stop_local r s = s\<lparr>sc_cancelled := List.insert r (sc_cancelled s), sc_running := removeAll r (sc_running s)\<rparr>"

text \<open>Ready launches are cancelled through the callback of the caller.\<close>

definition stop_live :: "sched \<Rightarrow> sched" where
  "stop_live s = (let s1 = fold stop_local (sc_locals s) s
     in s1\<lparr>sc_cancelled := fold List.insert (sc_ready s1) (sc_cancelled s1)\<rparr>)"

definition stop_remaining_locals :: "launch_env \<Rightarrow> sched \<Rightarrow> sched" where
  "stop_remaining_locals env s =
     (if le_profiled env \<noteq> [] \<and> list_all (\<lambda>p. p \<in> set (sc_terminal s)) (le_profiled env)
      then fold stop_local (filter (\<lambda>r. r \<notin> set (sc_terminal s) \<and> r \<notin> set (sc_cancelled s) \<and> r \<in> set (sc_running s))
             (sc_locals s)) s
      else s)"

section \<open>Events\<close>

definition is_bad :: "str option \<Rightarrow> bool" where
  "is_bad status \<longleftrightarrow> status = Some ''failed'' \<or> status = Some ''unknown''"

definition process_event :: "launch_env \<Rightarrow> bool \<Rightarrow> str \<times> event \<Rightarrow> sched \<Rightarrow> str + sched" where
  "process_event env reject_ended = (\<lambda>(r, e) s.
     let ended = (case e of Done _ \<Rightarrow> True | Failed _ \<Rightarrow> True | _ \<Rightarrow> False);
         s1 = (if ended then s\<lparr>sc_terminal := List.insert r (sc_terminal s)\<rparr> else s);
         off = (\<lambda>s. s\<lparr>sc_pending := removeAll r (sc_pending s)\<rparr>);
         local = (r \<in> set (le_local env))
     in if e = Started then Inr s
        else if local \<and> r \<in> set (sc_cancelled s1) then Inr (off s1)
        else (case e of
            Failed m \<Rightarrow> Inl m
          | Ready \<Rightarrow> Inr (off ((if local then s1 else s1\<lparr>sc_ready := List.insert r (sc_ready s1)\<rparr>)
              \<lparr>sc_acknowledged := List.insert r (sc_acknowledged s1)\<rparr>))
          | Done status \<Rightarrow>
              if r \<in> set (sc_pending s1) then Inl (''profile launch for '' @ r @ '' ended before readiness'')
              else if r \<in> set (sc_acknowledged s1) \<and> is_bad status
              then Inl (''profile launch for '' @ r @ '' failed after readiness'')
              else if local then Inr s1
              else if reject_ended \<and> status \<noteq> None \<and> status \<noteq> Some ''active''
              then Inl (''profile launch for '' @ r @ '' ended after readiness'')
              else Inr (s1\<lparr>sc_results := AList.update r status (sc_results s1)\<rparr>)
          | Started \<Rightarrow> Inr s))"

text \<open>The clauses around the scheduling: an error stops what is live, and the end stops the local runs.\<close>

definition raise_error :: "str \<Rightarrow> sched \<Rightarrow> sched" where
  "raise_error m s = (let s1 = stop_live s in (fold stop_local (sc_locals s1) s1)\<lparr>sc_mode := Raised m\<rparr>)"

definition take_event :: "launch_env \<Rightarrow> bool \<Rightarrow> launch_mode \<Rightarrow> sched \<Rightarrow> sched option" where
  "take_event env reject_ended mode s = (case sc_queue s of [] \<Rightarrow> None
     | ev # evs \<Rightarrow> Some (let s1 = s\<lparr>sc_queue := evs, sc_mode := mode\<rparr>
         in case process_event env reject_ended ev s1 of Inl m \<Rightarrow> raise_error m s1 | Inr s2 \<Rightarrow> s2))"

section \<open>The main thread\<close>

text \<open>Before it blocks on the queue, the main thread stops the locals that outlived every profiled launch.\<close>

definition main_step :: "launch_env \<Rightarrow> sched \<Rightarrow> sched option" where
  "main_step env s = (case sc_mode s of
       Starting \<Rightarrow> (case sc_left s of [] \<Rightarrow> None
         | tier # tiers \<Rightarrow> Some (s\<lparr>sc_pending := tier, sc_started := sc_started s @ tier, sc_left := tiers, sc_mode := Waiting\<rparr>))
     | Waiting \<Rightarrow>
         Some (if sc_pending s = [] then s\<lparr>sc_mode := (if sc_left s = [] then Finishing else Draining)\<rparr>
               else (stop_remaining_locals env s)\<lparr>sc_mode := Waiting_Get\<rparr>)
     | Waiting_Get \<Rightarrow> take_event env False Waiting s
     | Draining \<Rightarrow> if sc_queue s = [] then Some (s\<lparr>sc_mode := Starting\<rparr>) else take_event env True Draining s
     | Finishing \<Rightarrow>
         Some (if list_all (\<lambda>r. r \<in> set (sc_terminal s)) (le_profiled env @ le_local env)
               then (fold stop_local (sc_locals s) s)\<lparr>sc_mode := Returned\<rparr>
               else (stop_remaining_locals env s)\<lparr>sc_mode := Finishing_Get\<rparr>)
     | Finishing_Get \<Rightarrow> take_event env False Finishing s
     | _ \<Rightarrow> None)"

section \<open>Interleavings\<close>

text \<open>A run that is registered after an error stops itself, its cancel event is set; after the return no worker is
  left.\<close>

inductive launch_step :: "launch_env \<Rightarrow> sched \<Rightarrow> sched \<Rightarrow> bool" for env where
  main: "main_step env s = Some s' \<Longrightarrow> launch_step env s s'"
| register: "r \<in> set (sc_started s) \<Longrightarrow> r \<in> set (le_local env) \<Longrightarrow> r \<notin> set (sc_locals s) \<Longrightarrow> sc_mode s \<noteq> Returned \<Longrightarrow>
    launch_step env s (s\<lparr>sc_locals := sc_locals s @ [r], sc_queue := sc_queue s @ [(r, Started)],
      sc_running := (case sc_mode s of Raised _ \<Rightarrow> sc_running s | _ \<Rightarrow> sc_running s @ [r])\<rparr>)"
| ended: "launch_step env s (s\<lparr>sc_running := removeAll r (sc_running s)\<rparr>)"
| posted: "r \<in> set (sc_started s) \<Longrightarrow> e \<noteq> Started \<Longrightarrow> launch_step env s (s\<lparr>sc_queue := sc_queue s @ [(r, e)]\<rparr>)"

inductive reachable_sched :: "launch_env \<Rightarrow> sched \<Rightarrow> bool" for env where
  initial: "reachable_sched env (sched_init env)"
| later: "reachable_sched env s \<Longrightarrow> launch_step env s s' \<Longrightarrow> reachable_sched env s'"


end
