(* ===== verification/Launch_Properties.thy ===== *)
theory Launch_Properties
  imports Launch_Scheduler Executor_Laws
begin

text \<open>
  What the scheduler of mixed launches guarantees in every interleaving: nothing starts before its
  dependencies are ready, and when the call ends no local run is left running.
\<close>

section \<open>The environment\<close>

definition launch_names :: "launch_env \<Rightarrow> str set" where
  "launch_names env = set (le_profiled env) \<union> set (le_local env)"

text \<open>The tiers are those of the dependency graph over the launched repositories.\<close>

definition tiers_for :: "dep_graph \<Rightarrow> launch_env \<Rightarrow> bool" where
  "tiers_for g env \<longleftrightarrow> tiered (dg_reverse g) (launch_names env) {} (le_tiers env)
     \<and> set (concat (le_tiers env)) = launch_names env \<and> set (le_profiled env) \<inter> set (le_local env) = {}"

section \<open>Effects\<close>

lemma fold_stop_local [simp]:
  "set (sc_cancelled (fold stop_local rs s)) = set rs \<union> set (sc_cancelled s)"
  "set (sc_running (fold stop_local rs s)) = set (sc_running s) - set rs"
  "sc_mode (fold stop_local rs s) = sc_mode s" "sc_left (fold stop_local rs s) = sc_left s"
  "sc_pending (fold stop_local rs s) = sc_pending s" "sc_started (fold stop_local rs s) = sc_started s"
  "sc_queue (fold stop_local rs s) = sc_queue s" "sc_locals (fold stop_local rs s) = sc_locals s"
  "sc_ready (fold stop_local rs s) = sc_ready s" "sc_acknowledged (fold stop_local rs s) = sc_acknowledged s"
  "sc_terminal (fold stop_local rs s) = sc_terminal s" "sc_results (fold stop_local rs s) = sc_results s"
  by (induction rs arbitrary: s) (auto simp: stop_local_def)

definition over :: "launch_env \<Rightarrow> sched \<Rightarrow> bool" where
  "over env s \<longleftrightarrow> le_profiled env \<noteq> [] \<and> set (le_profiled env) \<subseteq> set (sc_terminal s)"

definition settled :: "launch_env \<Rightarrow> sched \<Rightarrow> str \<Rightarrow> bool" where
  "settled env s r \<longleftrightarrow> r \<in> set (sc_acknowledged s)
     \<or> (r \<in> set (le_local env) \<and> r \<in> set (sc_cancelled s) \<and> over env s)"

definition working :: "launch_mode \<Rightarrow> bool" where
  "working m \<longleftrightarrow> m \<noteq> Returned \<and> (\<forall>e. m \<noteq> Raised e)"

text \<open>The invariant while the main thread schedules.\<close>

definition at_work :: "launch_env \<Rightarrow> sched \<Rightarrow> bool" where
  "at_work env s \<longleftrightarrow> (\<exists>finished. le_tiers env = finished @ sc_left s \<and> sc_started s = concat finished)
     \<and> set (sc_terminal s) \<subseteq> set (sc_started s) \<and> fst ` set (sc_queue s) \<subseteq> set (sc_started s)
     \<and> set (sc_locals s) \<subseteq> set (sc_started s) \<inter> set (le_local env) \<and> set (sc_running s) \<subseteq> set (sc_locals s)
     \<and> set (sc_cancelled s) \<subseteq> set (le_local env) \<and> (sc_cancelled s \<noteq> [] \<longrightarrow> over env s)
     \<and> (\<forall>r \<in> set (sc_started s). r \<in> set (sc_pending s) \<or> settled env s r)
     \<and> (sc_mode s \<in> {Starting, Draining, Finishing, Finishing_Get} \<longrightarrow> sc_pending s = [])
     \<and> (sc_mode s \<in> {Finishing, Finishing_Get} \<longrightarrow> sc_left s = [])
     \<and> (\<forall>r \<in> set (sc_terminal s) \<inter> set (le_profiled env). r \<in> fst ` set (sc_results s))"

definition at_end :: "launch_env \<Rightarrow> sched \<Rightarrow> bool" where
  "at_end env s \<longleftrightarrow> sc_running s = [] \<and> (sc_mode s = Returned \<longrightarrow>
     (\<forall>r \<in> set (le_profiled env). r \<in> set (sc_acknowledged s) \<and> r \<in> fst ` set (sc_results s)))"

definition sched_inv :: "launch_env \<Rightarrow> sched \<Rightarrow> bool" where
  "sched_inv env s \<longleftrightarrow> (if working (sc_mode s) then at_work env s else at_end env s)"

lemma init_inv: "set (concat (le_tiers env)) = launch_names env \<Longrightarrow> sched_inv env (sched_init env)"
  by (auto simp: sched_inv_def sched_init_def at_work_def working_def)

section \<open>Steps keep the invariant\<close>

lemma settled_mono:
  assumes "settled env s r" and "set (sc_acknowledged s) \<subseteq> set (sc_acknowledged s')"
    and "set (sc_cancelled s) \<subseteq> set (sc_cancelled s')" and "set (sc_terminal s) \<subseteq> set (sc_terminal s')"
  shows "settled env s' r"
  using assms unfolding settled_def over_def by blast

lemma at_work_change:
  assumes work: "at_work env s" and same: "sc_left s' = sc_left s" "sc_started s' = sc_started s" "sc_locals s' = sc_locals s"
    and more: "set (sc_acknowledged s) \<subseteq> set (sc_acknowledged s')" "set (sc_cancelled s) \<subseteq> set (sc_cancelled s')"
      "set (sc_terminal s) \<subseteq> set (sc_terminal s')"
    and terminal: "set (sc_terminal s') \<subseteq> set (sc_started s)" and queue: "fst ` set (sc_queue s') \<subseteq> set (sc_started s)"
    and running: "set (sc_running s') \<subseteq> set (sc_running s)" and cancelled: "set (sc_cancelled s') \<subseteq> set (le_local env)"
    and over: "sc_cancelled s' \<noteq> [] \<Longrightarrow> over env s'"
    and pending: "\<And>r. r \<in> set (sc_pending s) \<Longrightarrow> r \<in> set (sc_pending s') \<or> settled env s' r"
    and quiet: "sc_mode s' \<in> {Starting, Draining, Finishing, Finishing_Get} \<Longrightarrow> sc_pending s' = []"
    and last: "sc_mode s' \<in> {Finishing, Finishing_Get} \<Longrightarrow> sc_left s = []"
    and results: "\<And>r. r \<in> set (sc_terminal s') \<Longrightarrow> r \<in> set (le_profiled env) \<Longrightarrow> r \<in> fst ` set (sc_results s')"
  shows "at_work env s'"
  unfolding at_work_def same
proof (intro conjI)
  note w = work [unfolded at_work_def]
  show "\<exists>finished. le_tiers env = finished @ sc_left s \<and> sc_started s = concat finished" using w by (elim conjE)
  show "set (sc_locals s) \<subseteq> set (sc_started s) \<inter> set (le_local env)" using w by (elim conjE)
  show "set (sc_running s') \<subseteq> set (sc_locals s)" using w running by (elim conjE) (rule order_trans)
  show "\<forall>r \<in> set (sc_started s). r \<in> set (sc_pending s') \<or> settled env s' r"
    using w pending settled_mono [OF _ more] by (elim conjE) blast
qed (use terminal queue cancelled over quiet last results in auto)

lemma at_workD:
  assumes "at_work env s"
  shows "set (sc_terminal s) \<subseteq> set (sc_started s)" and "fst ` set (sc_queue s) \<subseteq> set (sc_started s)"
    and "set (sc_locals s) \<subseteq> set (le_local env)" and "set (sc_running s) \<subseteq> set (sc_locals s)"
    and "set (sc_cancelled s) \<subseteq> set (le_local env)" and "sc_cancelled s \<noteq> [] \<Longrightarrow> over env s"
    and "sc_mode s \<in> {Starting, Draining, Finishing, Finishing_Get} \<Longrightarrow> sc_pending s = []"
    and "sc_mode s \<in> {Finishing, Finishing_Get} \<Longrightarrow> sc_left s = []"
    and "r \<in> set (sc_terminal s) \<Longrightarrow> r \<in> set (le_profiled env) \<Longrightarrow> r \<in> fst ` set (sc_results s)"
    and "r \<in> set (sc_started s) \<Longrightarrow> r \<notin> set (sc_pending s) \<Longrightarrow> settled env s r"
  using assms unfolding at_work_def by blast+

lemma stop_remaining_fold:
  "\<exists>rs. stop_remaining_locals env s = fold stop_local rs s \<and> set rs \<subseteq> set (sc_locals s) \<and> (rs \<noteq> [] \<longrightarrow> over env s)"
proof (cases "le_profiled env \<noteq> [] \<and> list_all (\<lambda>p. p \<in> set (sc_terminal s)) (le_profiled env)")
  case True
  then have "over env s" by (auto simp: over_def list_all_iff)
  with True show ?thesis
    by (intro exI [of _ "filter (\<lambda>r. r \<notin> set (sc_terminal s) \<and> r \<notin> set (sc_cancelled s) \<and> r \<in> set (sc_running s)) (sc_locals s)"])
      (auto simp: stop_remaining_locals_def)
next
  case False
  then show ?thesis by (intro exI [of _ "[]"]) (auto simp: stop_remaining_locals_def)
qed

lemma over_cong: "set (sc_terminal s') = set (sc_terminal s) \<Longrightarrow> over env s' = over env s"
  by (simp add: over_def)

lemma stop_remaining_work:
  assumes "at_work env s" and "m = Waiting_Get \<or> (m = Finishing_Get \<and> sc_mode s = Finishing)"
  shows "at_work env ((stop_remaining_locals env s)\<lparr>sc_mode := m\<rparr>)"
proof -
  note w = assms(1) [unfolded at_work_def]
  obtain rs where rs: "stop_remaining_locals env s = fold stop_local rs s" "set rs \<subseteq> set (sc_locals s)" "rs \<noteq> [] \<longrightarrow> over env s"
    using stop_remaining_fold [of env s] by blast
  let ?s = "(fold stop_local rs s)\<lparr>sc_mode := m\<rparr>"
  have same: "over env ?s = over env s" by (rule over_cong) simp
  have "at_work env ?s"
  proof (rule at_work_change [OF assms(1)])
    show "over env ?s" if "sc_cancelled ?s \<noteq> []"
    proof -
      have "set (sc_cancelled ?s) \<noteq> {}" using that by (simp only: set_empty) simp
      then have "rs \<noteq> [] \<or> sc_cancelled s \<noteq> []" by auto
      then show ?thesis unfolding same using rs(3) w by (elim conjE) blast
    qed
    show "set (sc_cancelled ?s) \<subseteq> set (le_local env)" using w rs(2) by auto
    show "fst ` set (sc_queue ?s) \<subseteq> set (sc_started s)" "set (sc_terminal ?s) \<subseteq> set (sc_started s)" using w by simp_all
    show "r \<in> fst ` set (sc_results ?s)" if "r \<in> set (sc_terminal ?s)" "r \<in> set (le_profiled env)" for r
      using w that by simp
    show "sc_mode ?s \<in> {Starting, Draining, Finishing, Finishing_Get} \<Longrightarrow> sc_pending ?s = []"
      "sc_mode ?s \<in> {Finishing, Finishing_Get} \<Longrightarrow> sc_left s = []"
      using w assms(2) by auto
  qed auto
  then show ?thesis unfolding rs(1) .
qed

lemma raise_error_end: "set (sc_running s) \<subseteq> set (sc_locals s) \<Longrightarrow> at_end env (raise_error m s)"
  by (auto simp: at_end_def raise_error_def stop_live_def Let_def simp flip: set_empty)

abbreviation terminated :: "str \<Rightarrow> event \<Rightarrow> sched \<Rightarrow> sched" where
  "terminated r e s \<equiv> (if e = Ready then s else s\<lparr>sc_terminal := List.insert r (sc_terminal s)\<rparr>)"

text \<open>What an event that is no error does.\<close>

lemma process_event_cases:
  assumes out: "process_event env reject (r, e) s = Inr s'" and "e \<noteq> Started"
  obtains (stopped) "r \<in> set (le_local env)" "r \<in> set (sc_cancelled s)"
      "s' = (terminated r e s)\<lparr>sc_pending := removeAll r (sc_pending s)\<rparr>"
    | (ready) rd where "s' = s\<lparr>sc_ready := rd, sc_acknowledged := List.insert r (sc_acknowledged s), sc_pending := removeAll r (sc_pending s)\<rparr>"
    | (local) "r \<in> set (le_local env)" "s' = terminated r e s"
    | (result) status where "s' = (terminated r e s)\<lparr>sc_results := AList.update r status (sc_results s)\<rparr>"
proof (cases "r \<in> set (le_local env) \<and> r \<in> set (sc_cancelled s)")
  case True
  with assms have "s' = (terminated r e s)\<lparr>sc_pending := removeAll r (sc_pending s)\<rparr>"
    by (cases e) (simp_all add: process_event_def Let_def)
  with True stopped show thesis by blast
next
  case False
  show thesis
  proof (cases e)
    case Ready
    with out False have "s' = s\<lparr>sc_ready := (if r \<in> set (le_local env) then sc_ready s else List.insert r (sc_ready s)),
        sc_acknowledged := List.insert r (sc_acknowledged s), sc_pending := removeAll r (sc_pending s)\<rparr>"
      by (simp add: process_event_def Let_def split: if_splits)
    then show thesis by (rule ready)
  next
    case (Done status)
    let ?s1 = "s\<lparr>sc_terminal := List.insert r (sc_terminal s)\<rparr>"
    have stay: "terminated r e s = ?s1" using Done by simp
    show thesis
    proof (cases "r \<in> set (le_local env)")
      case True
      with out False Done have "s' = ?s1" by (simp add: process_event_def Let_def split: if_split_asm)
      with local True stay show thesis by simp
    next
      case remote: False
      with out Done have "s' = ?s1\<lparr>sc_results := AList.update r status (sc_results s)\<rparr>"
        by (simp add: process_event_def Let_def split: if_split_asm)
      with result [of status] stay show thesis by simp
    qed
  next
    case (Failed m)
    with out False show thesis by (simp add: process_event_def Let_def split: if_splits)
  qed (use assms(2) in simp)
qed

text \<open>An event changes nothing but who is pending, acknowledged, done and ready.\<close>

definition event_frame :: "str \<Rightarrow> sched \<Rightarrow> sched \<Rightarrow> bool" where
  "event_frame r s s' \<longleftrightarrow> sc_left s' = sc_left s \<and> sc_started s' = sc_started s \<and> sc_locals s' = sc_locals s
     \<and> sc_cancelled s' = sc_cancelled s \<and> sc_queue s' = sc_queue s \<and> sc_running s' = sc_running s \<and> sc_mode s' = sc_mode s
     \<and> set (sc_acknowledged s) \<subseteq> set (sc_acknowledged s') \<and> set (sc_terminal s) \<subseteq> set (sc_terminal s')
     \<and> set (sc_terminal s') \<subseteq> insert r (set (sc_terminal s)) \<and> set (sc_pending s') \<subseteq> set (sc_pending s)"

lemma event_frame_work:
  assumes work: "at_work env s" and r: "r \<in> set (sc_started s)" and frame: "event_frame r s s'"
    and pending: "\<And>q. q \<in> set (sc_pending s) \<Longrightarrow> q \<in> set (sc_pending s') \<or> settled env s' q"
    and results: "\<And>q. q \<in> set (sc_terminal s') \<Longrightarrow> q \<in> set (le_profiled env) \<Longrightarrow> q \<in> fst ` set (sc_results s')"
  shows "at_work env s' \<and> sc_mode s' = sc_mode s"
proof -
  note w = at_workD [OF work]
  have at: "sc_left s' = sc_left s" "sc_started s' = sc_started s" "sc_locals s' = sc_locals s" "sc_cancelled s' = sc_cancelled s"
      "sc_queue s' = sc_queue s" "sc_running s' = sc_running s" "sc_mode s' = sc_mode s"
    and more: "set (sc_acknowledged s) \<subseteq> set (sc_acknowledged s')" "set (sc_terminal s) \<subseteq> set (sc_terminal s')"
      "set (sc_terminal s') \<subseteq> insert r (set (sc_terminal s))" "set (sc_pending s') \<subseteq> set (sc_pending s)"
    using frame by (simp_all add: event_frame_def)
  have "at_work env s'"
  proof (rule at_work_change [OF work at(1-3) more(1) _ more(2)])
    show "sc_cancelled s' \<noteq> [] \<Longrightarrow> over env s'" using w(6) at(4) more(2) by (auto simp: over_def)
    show "set (sc_terminal s') \<subseteq> set (sc_started s)" using more(3) w(1) r by blast
    show "sc_mode s' \<in> {Starting, Draining, Finishing, Finishing_Get} \<Longrightarrow> sc_pending s' = []"
      using w(7) at(7) more(4) by auto
    show "sc_mode s' \<in> {Finishing, Finishing_Get} \<Longrightarrow> sc_left s = []" using w(8) at(7) by simp
  qed (use w(2,5) at pending results in simp_all)
  with at(7) show ?thesis by simp
qed

lemma terminal_result:
  assumes "at_work env s" and "q \<in> set (sc_terminal (terminated r e s))" and "q \<in> set (le_profiled env)"
    and "r \<in> set (le_local env)" and "set (le_profiled env) \<inter> set (le_local env) = {}"
  shows "q \<in> fst ` set (sc_results s)"
proof -
  have "q \<in> insert r (set (sc_terminal s))" using assms(2) by (auto split: if_splits)
  moreover have "q \<noteq> r" using assms(3-5) by blast
  ultimately show ?thesis using at_workD(9) [OF assms(1)] assms(3) by blast
qed

lemma process_event_work:
  assumes work: "at_work env s" and r: "r \<in> set (sc_started s)" and out: "process_event env reject (r, e) s = Inr s'"
    and apart: "set (le_profiled env) \<inter> set (le_local env) = {}"
  shows "at_work env s' \<and> sc_mode s' = sc_mode s"
proof (cases "e = Started")
  case True
  with work out show ?thesis by (simp add: process_event_def)
next
  case False
  note w = at_workD [OF work] and res = terminal_result [OF work _ _ _ apart]
  have grow: "set (sc_terminal s) \<subseteq> set (sc_terminal (terminated r e s))" by auto
  from out False show ?thesis
  proof (cases rule: process_event_cases)
    case stopped
    have "over env s" using stopped(2) w(6) by (cases "sc_cancelled s") auto
    then have "over env s'" using grow stopped(3) by (auto simp: over_def)
    with stopped(1,2) have "settled env s' r" by (simp add: settled_def stopped(3))
    then show ?thesis
      by (intro event_frame_work [OF work r]) (use stopped res in \<open>auto simp: event_frame_def\<close>)
  next
    case (ready rd)
    have "settled env s' r" by (simp add: settled_def ready)
    then show ?thesis
      by (intro event_frame_work [OF work r]) (use w(9) in \<open>auto simp: event_frame_def ready\<close>)
  next
    case local
    show ?thesis
      by (intro event_frame_work [OF work r]) (use local res in \<open>auto simp: event_frame_def\<close>)
  next
    case (result status)
    have keys: "fst ` set (sc_results s') = insert r (fst ` set (sc_results s))"
      using dict_keys_update [of r status "sc_results s"] by (simp add: result)
    have "q \<in> fst ` set (sc_results s')" if "q \<in> set (sc_terminal s')" "q \<in> set (le_profiled env)" for q
    proof -
      have "q = r \<or> q \<in> set (sc_terminal s)" using that(1) by (auto simp: result split: if_splits)
      with w(9) [of q] that(2) show ?thesis unfolding keys by blast
    qed
    then show ?thesis
      by (intro event_frame_work [OF work r]) (auto simp: event_frame_def result)
  qed
qed

lemma take_event_inv:
  assumes work: "at_work env s" and "take_event env reject m s = Some s'" and "working m"
    and apart: "set (le_profiled env) \<inter> set (le_local env) = {}"
    and m: "m = Waiting \<or> (m = Draining \<and> sc_mode s = Draining) \<or> (m = Finishing \<and> sc_mode s = Finishing_Get)"
  shows "sched_inv env s'"
proof -
  from assms(2) obtain r e evs where q: "sc_queue s = (r, e) # evs"
    and out: "s' = (case process_event env reject (r, e) (s\<lparr>sc_queue := evs, sc_mode := m\<rparr>) of
      Inl x \<Rightarrow> raise_error x (s\<lparr>sc_queue := evs, sc_mode := m\<rparr>) | Inr s2 \<Rightarrow> s2)"
    by (auto simp: take_event_def Let_def split: list.splits)
  let ?s = "s\<lparr>sc_queue := evs, sc_mode := m\<rparr>"
  have w: "at_work env ?s" "r \<in> set (sc_started ?s)" using work m q by (auto simp: at_work_def settled_def over_def)
  show ?thesis
  proof (cases "process_event env reject (r, e) ?s")
    case (Inl x)
    have "set (sc_running ?s) \<subseteq> set (sc_locals ?s)" using w(1) by (simp add: at_work_def)
    from raise_error_end [OF this] Inl out show ?thesis by (simp add: sched_inv_def working_def raise_error_def Let_def)
  next
    case (Inr s2)
    from process_event_work [OF w Inr apart] have "at_work env s2" "sc_mode s2 = m" by simp_all
    then show ?thesis using Inr out assms(3) by (simp add: sched_inv_def)
  qed
qed

lemma start_tier_work:
  assumes work: "at_work env s" and "sc_mode s = Starting" and left: "sc_left s = tier # tiers"
  shows "at_work env (s\<lparr>sc_pending := tier, sc_started := sc_started s @ tier, sc_left := tiers, sc_mode := Waiting\<rparr>)"
    (is "at_work env ?s")
proof -
  note w = work [unfolded at_work_def]
  from w obtain finished where "le_tiers env = finished @ sc_left s" "sc_started s = concat finished" by blast
  then have tiers: "\<exists>finished. le_tiers env = finished @ sc_left ?s \<and> sc_started ?s = concat finished"
    using left by (intro exI [of _ "finished @ [tier]"]) simp
  have "sc_pending s = []" using at_workD(7) [OF work] assms(2) by simp
  then have "settled env ?s r" if "r \<in> set (sc_started s)" for r
    using at_workD(10) [OF work that] by (simp add: settled_def over_def)
  then have "\<forall>r \<in> set (sc_started ?s). r \<in> set (sc_pending ?s) \<or> settled env ?s r" by auto
  with tiers show ?thesis
    using at_workD(1-6,9) [OF work] w unfolding at_work_def by (simp add: over_def le_supI1)
qed

lemma all_settled:
  assumes "at_work env s" and "sc_mode s \<in> {Starting, Draining, Finishing, Finishing_Get}" and "r \<in> set (sc_started s)"
  shows "settled env s r"
  using at_workD(7,10) [OF assms(1)] assms(2,3) by force

lemma quiet_work:
  assumes work: "at_work env s" and "sc_pending s = []" and "m = Finishing \<Longrightarrow> sc_left s = []" and "m \<noteq> Finishing_Get"
  shows "at_work env (s\<lparr>sc_mode := m\<rparr>)"
proof (rule at_work_change [OF work])
  show "r \<in> set (sc_pending s) \<Longrightarrow> r \<in> set (sc_pending (s\<lparr>sc_mode := m\<rparr>)) \<or> settled env (s\<lparr>sc_mode := m\<rparr>) r" for r by simp
  show "sc_mode (s\<lparr>sc_mode := m\<rparr>) \<in> {Starting, Draining, Finishing, Finishing_Get} \<Longrightarrow> sc_pending (s\<lparr>sc_mode := m\<rparr>) = []"
    using assms(2) by simp
  show "sc_mode (s\<lparr>sc_mode := m\<rparr>) \<in> {Finishing, Finishing_Get} \<Longrightarrow> sc_left s = []" using assms(3,4) by auto
  show "sc_cancelled (s\<lparr>sc_mode := m\<rparr>) \<noteq> [] \<Longrightarrow> over env (s\<lparr>sc_mode := m\<rparr>)"
    using at_workD(6) [OF work] by (simp add: over_def)
  show "r \<in> fst ` set (sc_results (s\<lparr>sc_mode := m\<rparr>))"
    if "r \<in> set (sc_terminal (s\<lparr>sc_mode := m\<rparr>))" "r \<in> set (le_profiled env)" for r
    using at_workD(9) [OF work] that by simp
qed (simp_all add: at_workD(1,2,5) [OF work])

lemma work_inv: "at_work env s \<Longrightarrow> working (sc_mode s) \<Longrightarrow> sched_inv env s"
  by (simp add: sched_inv_def)

lemma waiting_inv:
  assumes "at_work env s" and "sc_mode s = Waiting" and "main_step env s = Some s'"
  shows "sched_inv env s'"
proof (cases "sc_pending s = []")
  case True
  with assms have "s' = s\<lparr>sc_mode := (if sc_left s = [] then Finishing else Draining)\<rparr>" by (simp add: main_step_def)
  moreover have "at_work env (s\<lparr>sc_mode := (if sc_left s = [] then Finishing else Draining)\<rparr>)"
    by (rule quiet_work [OF assms(1) True]) (simp_all split: if_splits)
  ultimately show ?thesis by (intro work_inv) (simp_all add: working_def)
next
  case False
  with assms have "s' = (stop_remaining_locals env s)\<lparr>sc_mode := Waiting_Get\<rparr>" by (auto simp: main_step_def)
  with stop_remaining_work [OF assms(1), of Waiting_Get] show ?thesis by (intro work_inv) (simp_all add: working_def)
qed

lemma draining_inv:
  assumes "at_work env s" and "sc_mode s = Draining" and "main_step env s = Some s'"
    and "set (le_profiled env) \<inter> set (le_local env) = {}"
  shows "sched_inv env s'"
proof (cases "sc_queue s = []")
  case True
  with assms have "s' = s\<lparr>sc_mode := Starting\<rparr>" by (simp add: main_step_def)
  with quiet_work [OF assms(1) at_workD(7) [OF assms(1)], of Starting] assms(2) show ?thesis
    by (intro work_inv) (simp_all add: working_def)
next
  case False
  with assms(2,3) have "take_event env True Draining s = Some s'" by (simp add: main_step_def)
  from take_event_inv [OF assms(1) this _ assms(4)] assms(2) show ?thesis by (simp add: working_def)
qed

lemma finishing_inv:
  assumes work: "at_work env s" and mode: "sc_mode s = Finishing" and go: "main_step env s = Some s'"
    and apart: "set (le_profiled env) \<inter> set (le_local env) = {}"
  shows "sched_inv env s'"
proof (cases "list_all (\<lambda>r. r \<in> set (sc_terminal s)) (le_profiled env @ le_local env)")
  case True
  then have s': "s' = (fold stop_local (sc_locals s) s)\<lparr>sc_mode := Returned\<rparr>" using go mode by (simp add: main_step_def)
  have "r \<in> set (sc_acknowledged s) \<and> r \<in> fst ` set (sc_results s)" if r: "r \<in> set (le_profiled env)" for r
  proof -
    have t: "r \<in> set (sc_terminal s)" using True r by (auto simp: list_all_iff)
    with at_workD(1) [OF work] have "settled env s r" using all_settled [OF work, of r] mode by auto
    with apart r at_workD(9) [OF work t r] show ?thesis by (auto simp: settled_def)
  qed
  moreover have "set (sc_running s') = {}" using at_workD(4) [OF work] by (auto simp: s')
  then have "sc_running s' = []" by (simp only: set_empty)
  ultimately show ?thesis by (simp add: sched_inv_def at_end_def working_def) (simp add: s')
next
  case False
  then have "s' = (stop_remaining_locals env s)\<lparr>sc_mode := Finishing_Get\<rparr>" using go mode by (auto simp: main_step_def)
  with stop_remaining_work [OF work, of Finishing_Get] mode show ?thesis by (intro work_inv) (simp_all add: working_def)
qed

lemma main_step_inv:
  assumes inv: "sched_inv env s" and go: "main_step env s = Some s'" and g: "tiers_for g env"
  shows "sched_inv env s'"
proof -
  from go have mode: "working (sc_mode s)" by (auto simp: main_step_def working_def split: launch_mode.splits)
  with inv have work: "at_work env s" by (simp add: sched_inv_def)
  have apart: "set (le_profiled env) \<inter> set (le_local env) = {}" using g by (simp add: tiers_for_def)
  show ?thesis
  proof (cases "sc_mode s")
    case Starting
    with go obtain tier tiers where left: "sc_left s = tier # tiers"
      and "s' = s\<lparr>sc_pending := tier, sc_started := sc_started s @ tier, sc_left := tiers, sc_mode := Waiting\<rparr>"
      by (auto simp: main_step_def split: list.splits)
    with start_tier_work [OF work Starting left] show ?thesis by (intro work_inv) (simp_all add: working_def)
  next
    case Waiting_Get
    with go have "take_event env False Waiting s = Some s'" by (simp add: main_step_def)
    from take_event_inv [OF work this _ apart] show ?thesis by (simp add: working_def)
  next
    case Finishing_Get
    with go have "take_event env False Finishing s = Some s'" by (simp add: main_step_def)
    from take_event_inv [OF work this _ apart] Finishing_Get show ?thesis by (simp add: working_def)
  qed (use mode waiting_inv [OF work _ go] draining_inv [OF work _ go apart] finishing_inv [OF work _ go apart]
      in \<open>auto simp: working_def\<close>)
qed

text \<open>Steps of the workers touch the queue and the processes only.\<close>

lemma worker_work:
  assumes work: "at_work env s" and queue: "fst ` set q \<subseteq> set (sc_started s)"
    and locals: "set l \<subseteq> set (sc_started s) \<inter> set (le_local env)" and running: "set rn \<subseteq> set l"
  shows "at_work env (s\<lparr>sc_locals := l, sc_queue := q, sc_running := rn\<rparr>)"
proof -
  let ?s = "s\<lparr>sc_locals := l, sc_queue := q, sc_running := rn\<rparr>"
  have "settled env ?s r = settled env s r" "over env ?s = over env s" for r by (simp_all add: settled_def over_def)
  with assms show ?thesis unfolding at_work_def by simp
qed

lemma step_inv:
  assumes "launch_step env s s'" and inv: "sched_inv env s" and "tiers_for g env"
  shows "sched_inv env s'"
  using assms(1)
proof cases
  case main
  then show ?thesis by (rule main_step_inv [OF inv _ assms(3)])
next
  case (register r)
  show ?thesis
  proof (cases "working (sc_mode s)")
    case True
    then have run: "s' = s\<lparr>sc_locals := sc_locals s @ [r], sc_queue := sc_queue s @ [(r, Started)], sc_running := sc_running s @ [r]\<rparr>"
      using register(1) by (cases "sc_mode s") (simp_all add: working_def)
    from True inv have work: "at_work env s" by (simp add: sched_inv_def)
    then have "set (sc_locals s) \<subseteq> set (sc_started s) \<inter> set (le_local env)" by (simp add: at_work_def)
    with at_workD(2,4) [OF work] register(2,3) have "at_work env s'" unfolding run by (intro worker_work [OF work]) auto
    with True show ?thesis by (intro work_inv) (simp_all add: run)
  next
    case False
    with inv register show ?thesis by (cases "sc_mode s") (simp_all add: sched_inv_def at_end_def working_def)
  qed
next
  case (ended r)
  show ?thesis
  proof (cases "working (sc_mode s)")
    case True
    with inv have work: "at_work env s" by (simp add: sched_inv_def)
    then have "set (sc_locals s) \<subseteq> set (sc_started s) \<inter> set (le_local env)" by (simp add: at_work_def)
    with at_workD(2,4) [OF work] worker_work [OF work, of "sc_queue s" "sc_locals s" "removeAll r (sc_running s)"]
    have "at_work env s'" unfolding ended by auto
    with True show ?thesis by (intro work_inv) (simp_all add: ended)
  qed (use inv ended in \<open>simp add: sched_inv_def at_end_def\<close>)
next
  case (posted r e)
  show ?thesis
  proof (cases "working (sc_mode s)")
    case True
    with inv have work: "at_work env s" by (simp add: sched_inv_def)
    then have "set (sc_locals s) \<subseteq> set (sc_started s) \<inter> set (le_local env)" by (simp add: at_work_def)
    with at_workD(2,4) [OF work] worker_work [OF work, of "sc_queue s @ [(r, e)]" "sc_locals s" "sc_running s"] posted(2)
    have "at_work env s'" unfolding posted(1) by auto
    with True show ?thesis by (intro work_inv) (simp_all add: posted(1))
  qed (use inv posted(1) in \<open>simp add: sched_inv_def at_end_def\<close>)
qed

lemma reachable_inv:
  assumes "reachable_sched env s" and "tiers_for g env"
  shows "sched_inv env s"
  using assms(1)
proof induction
  case initial
  then show ?case using assms(2) init_inv by (simp add: tiers_for_def)
next
  case (later s s')
  then show ?case using step_inv assms(2) by blast
qed

section \<open>Scripts\<close>

text \<open>A schedule written out: what happens next.\<close>

datatype move = Go | Register str | Post str event

fun play :: "launch_env \<Rightarrow> move list \<Rightarrow> sched \<Rightarrow> sched option" where
  "play env [] s = Some s"
| "play env (Go # ms) s = (case main_step env s of None \<Rightarrow> None | Some s' \<Rightarrow> play env ms s')"
| "play env (Register r # ms) s =
     (if r \<in> set (sc_started s) \<and> r \<in> set (le_local env) \<and> r \<notin> set (sc_locals s) \<and> sc_mode s \<noteq> Returned
      then play env ms (s\<lparr>sc_locals := sc_locals s @ [r], sc_queue := sc_queue s @ [(r, Started)],
        sc_running := (case sc_mode s of Raised _ \<Rightarrow> sc_running s | _ \<Rightarrow> sc_running s @ [r])\<rparr>) else None)"
| "play env (Post r e # ms) s = (if r \<in> set (sc_started s) \<and> e \<noteq> Started
      then play env ms (s\<lparr>sc_queue := sc_queue s @ [(r, e)]\<rparr>) else None)"

lemma play_reachable: "play env ms s = Some s' \<Longrightarrow> reachable_sched env s \<Longrightarrow> reachable_sched env s'"
proof (induction env ms s rule: play.induct)
  case (2 env ms s)
  then show ?case by (auto split: option.splits intro: reachable_sched.later launch_step.main)
next
  case (3 env r ms s)
  then show ?case by (auto split: if_splits intro: reachable_sched.later launch_step.register)
next
  case (4 env r e ms s)
  then show ?case by (auto split: if_splits intro: reachable_sched.later launch_step.posted)
qed simp

section \<open>Dependencies first\<close>

lemma tiers_for_topo:
  assumes "dependency_graph wc = Inr g" and "validate_no_cycles wc = Inr ()" and "dict_ok (wc_repos wc)"
    and "set (le_profiled env) \<inter> set (le_local env) = {}" and "le_profiled env @ le_local env \<noteq> []"
    and "topo_tiers g (Some (le_profiled env @ le_local env)) = Inr (le_tiers env)"
  shows "tiers_for g env"
proof -
  from assms(6) obtain ts where ts: "targets g (Some (le_profiled env @ le_local env)) = Inr ts"
    by (auto simp: topo_tiers_def rbind_eq_Inr)
  then have names: "set ts = launch_names env"
    using assms(5) by (auto simp: targets_def launch_names_def split: if_splits list.splits)
  have "graph_ok g" using dependency_graph_ok [OF assms(1,3)] by blast
  from topo_tiers_tiered [OF this ts assms(6)] complete_tiers(2) [OF assms(1-3) ts assms(6)] names assms(4)
  show ?thesis by (simp add: tiers_for_def)
qed

lemma started_tier:
  assumes "launch_step env s s'" and "r \<in> set (sc_started s')" and "r \<notin> set (sc_started s)"
  obtains tier tiers where "sc_mode s = Starting" and "sc_left s = tier # tiers" and "r \<in> set tier"
  using assms(1)
proof cases
  case main
  have same: "sc_started s2 = sc_started s1" if "process_event env b ev s1 = Inr s2" for b ev s1 s2
    using that by (cases ev; cases "snd ev") (auto simp: process_event_def Let_def split: if_split_asm)
  have taken: "sc_started s2 = sc_started s1" if "take_event env b m s1 = Some s2" for b m s1 s2
    using that same by (auto simp: take_event_def Let_def raise_error_def stop_live_def split: list.splits sum.splits)
  have stop: "sc_started (stop_remaining_locals env s1) = sc_started s1" for s1
    by (simp add: stop_remaining_locals_def)
  show thesis
  proof (cases "sc_mode s")
    case Starting
    with main that assms(2,3) show thesis by (auto simp: main_step_def split: list.splits)
  qed (use main assms(2,3) taken in \<open>auto simp: main_step_def stop split: if_split_asm\<close>)
qed (use assms(2,3) in auto)


definition demo_launch :: launch_env where
  "demo_launch = \<lparr>le_profiled = [''schemas''], le_local = [''api'', ''web''], le_tiers = [[''schemas''], [''api''], [''web'']]\<rparr>"

text \<open>The launch of \<open>schemas\<close> becomes ready and the scheduler is about to start \<open>api\<close>.\<close>

definition ready_script :: "move list" where
  "ready_script = [Go, Post ''schemas'' Ready, Go, Go, Go, Go]"


text \<open>The exception occurs: \<open>api\<close> is stopped before it is ready, since the only profiled launch ended, and \<open>web\<close>,
  which needs it, is started all the same.\<close>

definition orphan_script :: "move list" where
  "orphan_script = ready_script @ [Go, Register ''api'', Post ''schemas'' (Done (Some ''active'')), Go, Go, Go, Go, Go,
     Post ''api'' (Done (Some ''stopped'')), Go, Go, Go, Go]"

theorem local_started_without_dependency:
  "(case play demo_launch orphan_script (sched_init demo_launch) of None \<Rightarrow> False
    | Some s \<Rightarrow> ''web'' \<in> set (sc_started s) \<and> ''api'' \<notin> set (sc_acknowledged s) \<and> ''api'' \<in> set (dg_reverse sample_graph ''web''))"
  by code_simp

end
